(* ===== verification/Prelude.thy ===== *)
theory Prelude
  imports Main "HOL-Library.AList" "HOL-Library.Word"
begin

text \<open>
  Shared vocabulary of the development: the exceptions the Python code raises, a
  result type for code that may raise, Python's integer division and slicing, and
  insertion-ordered dictionaries.

  A Python function that may raise is a HOL function into \<open>'a result\<close>: \<open>Inl e\<close> is
  the raised exception, \<open>Inr x\<close> the returned value (for a method that mutates
  \<open>self\<close>, the new object). Sequencing is \<open>bind_r\<close>. Python integers are \<open>int\<close>.
  A Python \<open>dict\<close> is an association list in insertion order: \<open>map_of\<close> looks a key
  up, \<open>AList.update\<close> stores (in place for a present key, at the end for a new one)
  and \<open>AList.delete\<close> removes, exactly as the language specifies.
\<close>

section \<open>Exceptions and results\<close>

datatype py_error =
    ValueError | IndexError | KeyError | AssertionError | RuntimeError
  | TypeError | ZeroDivisionError | InsufficientBlocksError
  | Diverges \<comment> \<open>the call does not return\<close>

type_synonym 'a result = "py_error + 'a"

type_synonym bytes = "8 word list"

type_synonym ('k, 'v) dict = "('k \<times> 'v) list"

named_theorems result_simps \<open>equations that run a sequence of fallible calls\<close>

definition bind_r :: "'a result \<Rightarrow> ('a \<Rightarrow> 'b result) \<Rightarrow> 'b result" where
  "bind_r r f = (case r of Inl e \<Rightarrow> Inl e | Inr x \<Rightarrow> f x)"

text \<open>\<open>assert c\<close> and \<open>if c: raise e\<close>, both as guards in front of the rest of a body.\<close>

definition assert_r :: "bool \<Rightarrow> 'a result \<Rightarrow> 'a result" where
  "assert_r c r = (if c then r else Inl AssertionError)"

definition raise_if :: "bool \<Rightarrow> py_error \<Rightarrow> 'a result \<Rightarrow> 'a result" where
  "raise_if c e r = (if c then Inl e else r)"

lemma bind_r_Inl [simp, result_simps]: "bind_r (Inl e) f = Inl e"
  by (simp add: bind_r_def)

lemma bind_r_Inr [simp, result_simps]: "bind_r (Inr x) f = f x"
  by (simp add: bind_r_def)

lemma bind_r_eq_Inr: "bind_r r f = Inr y \<longleftrightarrow> (\<exists>x. r = Inr x \<and> f x = Inr y)"
  by (cases r) auto

lemma bind_r_eq_Inl: "bind_r r f = Inl e \<longleftrightarrow> r = Inl e \<or> (\<exists>x. r = Inr x \<and> f x = Inl e)"
  by (cases r) auto

lemma assert_r_True [simp, result_simps]: "assert_r True r = r"
  by (simp add: assert_r_def)

lemma assert_r_False [simp, result_simps]: "assert_r False r = Inl AssertionError"
  by (simp add: assert_r_def)

lemma assert_r_eq_Inr: "assert_r c r = Inr y \<longleftrightarrow> c \<and> r = Inr y"
  by (simp add: assert_r_def)

lemma raise_if_True [simp, result_simps]: "raise_if True e r = Inl e"
  by (simp add: raise_if_def)

lemma raise_if_False [simp, result_simps]: "raise_if False e r = r"
  by (simp add: raise_if_def)

lemma raise_if_eq_Inr: "raise_if c e r = Inr y \<longleftrightarrow> \<not> c \<and> r = Inr y"
  by (simp add: raise_if_def)

lemmas result_Inr = bind_r_eq_Inr assert_r_eq_Inr raise_if_eq_Inr

text \<open>A \<open>for\<close> loop whose body may raise: it stops at the first exception.\<close>

fun fold_r :: "('s \<Rightarrow> 'a \<Rightarrow> 's result) \<Rightarrow> 's \<Rightarrow> 'a list \<Rightarrow> 's result" where
  "fold_r f s [] = Inr s"
| "fold_r f s (x # xs) = bind_r (f s x) (\<lambda>s'. fold_r f s' xs)"

lemma fold_r_append: "fold_r f s (xs @ ys) = bind_r (fold_r f s xs) (\<lambda>s'. fold_r f s' ys)"
proof (induction xs arbitrary: s)
  case (Cons x xs)
  then show ?case by (cases "f s x") simp_all
qed simp

text \<open>The loop rule: an invariant every iteration keeps holds at the end.\<close>

lemma fold_r_invariant:
  assumes "fold_r f s xs = Inr t" and "I s"
    and "\<And>s x t. I s \<Longrightarrow> x \<in> set xs \<Longrightarrow> f s x = Inr t \<Longrightarrow> I t"
  shows "I t"
  using assms
proof (induction xs arbitrary: s)
  case Nil
  then show ?case by simp
next
  case (Cons x xs)
  from Cons.prems(1) obtain s' where step: "f s x = Inr s'" and rest: "fold_r f s' xs = Inr t"
    by (auto simp: bind_r_eq_Inr)
  from Cons.prems(2,3) step have "I s'" by auto
  with rest Cons.prems(3) show ?case by (intro Cons.IH) auto
qed

section \<open>Integers and slices\<close>

text \<open>\<open>max.support.math.ceildiv\<close>: \<open>-(a // -b)\<close>.\<close>

definition ceildiv :: "int \<Rightarrow> int \<Rightarrow> int" where
  "ceildiv a b = - (a div (- b))"

lemma ceildiv_least:
  assumes "0 < b"
  shows "ceildiv a b \<le> n \<longleftrightarrow> a \<le> n * b"
proof -
  have eq: "ceildiv a b = - ((- a) div b)"
    by (simp add: ceildiv_def div_minus_right)
  have le: "- n \<le> (- a) div b \<longleftrightarrow> - n * b \<le> - a"
  proof
    assume "- n \<le> (- a) div b"
    then have "- n * b \<le> (- a) div b * b"
      using assms by (intro mult_right_mono) auto
    also have "\<dots> \<le> - a"
      using assms by (simp add: minus_mod_eq_div_mult [symmetric])
    finally show "- n * b \<le> - a" .
  next
    assume "- n * b \<le> - a"
    then have "(- n * b) div b \<le> (- a) div b"
      using assms by (intro zdiv_mono1)
    moreover have "(- n * b) div b = - n"
      using assms by (intro nonzero_mult_div_cancel_right) simp
    ultimately show "- n \<le> (- a) div b" by simp
  qed
  have "ceildiv a b \<le> n \<longleftrightarrow> - n \<le> (- a) div b"
    unfolding eq by linarith
  also have "\<dots> \<longleftrightarrow> a \<le> n * b"
    unfolding le by simp
  finally show ?thesis .
qed

text \<open>A slice bound: negative bounds count from the end, and both are clamped.\<close>

definition slice_bound :: "int \<Rightarrow> int \<Rightarrow> int" where
  "slice_bound n i = (if i < 0 then max 0 (n + i) else min n i)"

definition py_slice :: "'a list \<Rightarrow> int \<Rightarrow> int \<Rightarrow> 'a list" where
  "py_slice xs a b =
     (let n = int (length xs); lo = slice_bound n a; hi = slice_bound n b
      in take (nat (hi - lo)) (drop (nat lo) xs))"

text \<open>Subscripts: the position a subscript denotes, and reading or storing there.\<close>

definition seq_pos :: "'a list \<Rightarrow> int \<Rightarrow> int" where
  "seq_pos xs i = (if 0 \<le> i then i else i + int (length xs))"

definition seq_has :: "'a list \<Rightarrow> int \<Rightarrow> bool" where
  "seq_has xs i \<longleftrightarrow> - int (length xs) \<le> i \<and> i < int (length xs)"

definition py_index :: "'a list \<Rightarrow> int \<Rightarrow> 'a result" where
  "py_index xs i = raise_if (\<not> seq_has xs i) IndexError (Inr (xs ! nat (seq_pos xs i)))"

definition py_store :: "'a list \<Rightarrow> int \<Rightarrow> 'a \<Rightarrow> 'a list result" where
  "py_store xs i v = raise_if (\<not> seq_has xs i) IndexError (Inr (xs[nat (seq_pos xs i) := v]))"

lemmas seq_simps = seq_pos_def seq_has_def

lemma py_slice_nonneg:
  assumes "0 \<le> a" and "a \<le> b" and "b \<le> int (length xs)"
  shows "py_slice xs a b = take (nat (b - a)) (drop (nat a) xs)"
  using assms by (simp add: py_slice_def slice_bound_def)

lemma length_py_slice:
  assumes "0 \<le> a" and "a \<le> b" and "b \<le> int (length xs)"
  shows "int (length (py_slice xs a b)) = b - a"
  using assms by (simp add: py_slice_nonneg)

lemma py_slice_self: "0 \<le> a \<Longrightarrow> a \<le> int (length xs) \<Longrightarrow> py_slice xs a a = []"
  by (simp add: py_slice_nonneg)

lemma py_slice_join:
  assumes "0 \<le> a" and "a \<le> b" and "b \<le> c" and "c \<le> int (length xs)"
  shows "py_slice xs a b @ py_slice xs b c = py_slice xs a c"
proof -
  have "nat (c - a) = nat (b - a) + nat (c - b)" and "nat b = nat a + nat (b - a)"
    using assms by simp_all
  then show ?thesis
    using assms by (simp add: py_slice_nonneg take_add add.commute)
qed

lemma py_slice_nth:
  assumes "0 \<le> a" and "a \<le> b" and "b \<le> int (length xs)" and "i < nat (b - a)"
  shows "py_slice xs a b ! i = xs ! (nat a + i)"
  using assms by (simp add: py_slice_nonneg)

lemma take_drop_update: "j + m \<le> i \<Longrightarrow> take m (drop j (xs[i := v])) = take m (drop j xs)"
  by (simp add: drop_update_swap)

end
