(* ===== verification/Token_Buffer.thy ===== *)
theory Token_Buffer
  imports Prelude
begin

text \<open>
  The token buffer of one request, \<open>max/pipelines/context/tokens.py\<close>: the class
  \<open>Range\<close> and the class \<open>TokenBuffer\<close> with its processing window, its chunking, its
  streaming window and its growing backing array.

  The numpy array is the list \<open>array\<close>; its \<open>size\<close> is the length of the list and only
  the first \<open>current_length\<close> entries are valid. \<open>np.empty\<close> returns memory with
  unspecified contents, so every operation that may reallocate takes the contents of
  that memory as the argument \<open>junk\<close>; the lemmas show that no view depends on it.
\<close>

section \<open>Range\<close>

record range =
  r_start :: int
  r_end :: int

definition Range_init :: "int \<Rightarrow> int \<Rightarrow> range result" where
  "Range_init s e =
     raise_if (s > e) ValueError
     (raise_if (s < 0) ValueError
     (raise_if (e < 0) ValueError
        (Inr \<lparr>r_start = s, r_end = e\<rparr>)))"

definition range_len :: "range \<Rightarrow> int" where
  "range_len r = max 0 (r_end r - r_start r)"

definition bump_start :: "int \<Rightarrow> range \<Rightarrow> range result" where
  "bump_start amount r =
     (let new_start = r_start r + amount in
      raise_if (new_start < 0) ValueError
      (raise_if (new_start > r_end r) ValueError
         (Inr (r\<lparr>r_start := new_start\<rparr>))))"

definition bump_end :: "int \<Rightarrow> range \<Rightarrow> range result" where
  "bump_end amount r =
     (let new_end = r_end r + amount in
      raise_if (new_end < 0) ValueError
      (raise_if (new_end < r_start r) ValueError
         (Inr (r\<lparr>r_end := new_end\<rparr>))))"

definition range_advance :: "range \<Rightarrow> range" where
  "range_advance r = r\<lparr>r_start := r_end r\<rparr>"

definition range_ok :: "range \<Rightarrow> bool" where
  "range_ok r \<longleftrightarrow> 0 \<le> r_start r \<and> r_start r \<le> r_end r"

lemmas range_defs = Range_init_def range_len_def bump_start_def bump_end_def range_advance_def
  range_ok_def Let_def

section \<open>TokenBuffer\<close>

record token_buffer =
  array :: "int list"
  processing_range :: range
  processing_offset :: int
  completion_range :: range
  prompt_length :: int
  current_length :: int
  actively_chunked :: bool

text \<open>The constructor's two type checks on the numpy array are its first two arguments.\<close>

definition TokenBuffer_init :: "nat \<Rightarrow> bool \<Rightarrow> int list \<Rightarrow> token_buffer result" where
  "TokenBuffer_init ndim is_int64 arr =
     raise_if (ndim \<noteq> 1) ValueError
     (raise_if (\<not> is_int64) ValueError
     (raise_if (length arr = 0) ValueError
     (bind_r (Range_init 0 (int (length arr))) (\<lambda>pr.
      bind_r (Range_init (int (length arr)) (int (length arr))) (\<lambda>cr.
        Inr \<lparr>array = arr, processing_range = pr, processing_offset = 0,
             completion_range = cr, prompt_length = int (length arr),
             current_length = int (length arr), actively_chunked = False\<rparr>)))))"

subsection \<open>Views\<close>

definition tokens_all :: "token_buffer \<Rightarrow> int list" where
  "tokens_all b = py_slice (array b) 0 (current_length b)"

definition prompt :: "token_buffer \<Rightarrow> int list" where
  "prompt b = py_slice (array b) 0 (prompt_length b)"

definition generated :: "token_buffer \<Rightarrow> int list" where
  "generated b = py_slice (array b) (prompt_length b) (current_length b)"

definition active :: "token_buffer \<Rightarrow> int list" where
  "active b = py_slice (array b)
     (r_start (processing_range b) + processing_offset b) (r_end (processing_range b))"

definition tb_len :: "token_buffer \<Rightarrow> int" where
  "tb_len b = int (length (tokens_all b))"

definition processed_length :: "token_buffer \<Rightarrow> int" where
  "processed_length b = r_start (processing_range b)"

definition generated_length :: "token_buffer \<Rightarrow> int" where
  "generated_length b = current_length b - prompt_length b"

definition active_length :: "token_buffer \<Rightarrow> int" where
  "active_length b = range_len (processing_range b) - processing_offset b"

definition current_position :: "token_buffer \<Rightarrow> int" where
  "current_position b = processed_length b + active_length b"

text \<open>\<open>__getitem__\<close>: an integer, or a slice with optional bounds and step one.\<close>

datatype tb_key = IntKey int | SliceKey "int option" "int option"

fun getitem :: "token_buffer \<Rightarrow> tb_key \<Rightarrow> int list result" where
  "getitem b (IntKey i) =
     (let key = (if i < 0 then current_length b + i else i) in
      raise_if (key < 0 \<or> key \<ge> current_length b) IndexError
        (bind_r (py_index (array b) key) (\<lambda>t. Inr [t])))"
| "getitem b (SliceKey lo hi) =
     Inr (py_slice (tokens_all b)
       (case lo of None \<Rightarrow> 0 | Some i \<Rightarrow> i)
       (case hi of None \<Rightarrow> tb_len b | Some i \<Rightarrow> i))"

subsection \<open>Processing window\<close>

definition apply_processing_offset :: "int \<Rightarrow> token_buffer \<Rightarrow> token_buffer result" where
  "apply_processing_offset value b =
     (let new_start = r_start (processing_range b) + value in
      raise_if (new_start < 0) ValueError
      (raise_if (new_start > r_end (processing_range b)) ValueError
         (Inr (b\<lparr>processing_offset := value\<rparr>))))"

definition rewind_processing :: "int \<Rightarrow> token_buffer \<Rightarrow> token_buffer result" where
  "rewind_processing n b =
     raise_if (n < 0) ValueError
     (bind_r (bump_start (- n) (processing_range b)) (\<lambda>pr.
        Inr (b\<lparr>processing_range := pr\<rparr>)))"

definition skip_processing :: "int \<Rightarrow> token_buffer \<Rightarrow> token_buffer result" where
  "skip_processing n b =
     raise_if (n < 0) ValueError
     (raise_if (n \<ge> active_length b) ValueError
     (bind_r (bump_start n (processing_range b)) (\<lambda>pr.
        Inr (b\<lparr>processing_range := pr\<rparr>))))"

definition chunk :: "int \<Rightarrow> token_buffer \<Rightarrow> token_buffer result" where
  "chunk chunk_size b =
     raise_if (chunk_size \<le> 0 \<or> chunk_size \<ge> active_length b) ValueError
     (bind_r (bump_end (chunk_size - active_length b) (processing_range b)) (\<lambda>pr.
        Inr (b\<lparr>processing_range := pr, actively_chunked := True\<rparr>)))"

definition reset_offset :: "token_buffer \<Rightarrow> token_buffer result" where
  "reset_offset b = (if processing_offset b \<noteq> 0 then apply_processing_offset 0 b else Inr b)"

definition advance_chunk :: "token_buffer \<Rightarrow> token_buffer result" where
  "advance_chunk b =
     raise_if (\<not> actively_chunked b) ValueError
     (bind_r (reset_offset b) (\<lambda>b.
        Inr (b\<lparr>processing_range := (range_advance (processing_range b))\<lparr>r_end := current_length b\<rparr>,
               actively_chunked := False\<rparr>)))"

subsection \<open>Growing the array\<close>

text \<open>The doubling loop \<open>while new_size <= target\<close>; it does not return on an empty array.\<close>

partial_function (option) grow_size :: "int \<Rightarrow> int \<Rightarrow> int option" where
  "grow_size new_size target =
     (if new_size \<le> target then grow_size (new_size * 2) target else Some new_size)"

declare grow_size.simps [code]

text \<open>\<open>np.copyto\<close> onto a one-dimensional destination, with numpy's length-one broadcast.\<close>

definition np_copyto :: "int list \<Rightarrow> int list \<Rightarrow> int list result" where
  "np_copyto dst src =
     (if length src = length dst then Inr src
      else if length src = 1 then Inr (replicate (length dst) (hd src))
      else Inl ValueError)"

definition expand_capacity ::
  "(nat \<Rightarrow> int) \<Rightarrow> int option \<Rightarrow> token_buffer \<Rightarrow> token_buffer result" where
  "expand_capacity junk min_capacity b =
     (let target = (case min_capacity of Some m \<Rightarrow> m | None \<Rightarrow> current_length b) in
      if target \<ge> int (length (array b)) then
        (case grow_size (int (length (array b))) target of
           None \<Rightarrow> Inl Diverges
         | Some new_size \<Rightarrow>
             let new_array = map junk [0..<nat new_size];
                 dst = py_slice new_array 0 (current_length b);
                 src = py_slice (array b) 0 (current_length b)
             in bind_r (np_copyto dst src) (\<lambda>written.
                  Inr (b\<lparr>array := written @ drop (length dst) new_array\<rparr>)))
      else Inr b)"

subsection \<open>Adding and overwriting tokens\<close>

definition advance_with_token ::
  "(nat \<Rightarrow> int) \<Rightarrow> int \<Rightarrow> token_buffer \<Rightarrow> token_buffer result" where
  "advance_with_token junk token b =
     raise_if (actively_chunked b) ValueError
     (bind_r (bump_end 1 (range_advance (processing_range b))) (\<lambda>pr.
      bind_r (bump_end 1 (completion_range b)) (\<lambda>cr.
      bind_r (expand_capacity junk None (b\<lparr>processing_range := pr, completion_range := cr\<rparr>)) (\<lambda>b.
      bind_r (py_store (array b) (current_length b) token) (\<lambda>arr.
        reset_offset (b\<lparr>array := arr, current_length := current_length b + 1\<rparr>))))))"

definition overwrite_token_at_offset_from_end ::
  "int \<Rightarrow> int \<Rightarrow> token_buffer \<Rightarrow> token_buffer result" where
  "overwrite_token_at_offset_from_end offset_from_end token b =
     raise_if (offset_from_end < 1 \<or> offset_from_end > current_length b) ValueError
     (bind_r (py_store (array b) (current_length b - offset_from_end) token) (\<lambda>arr.
        Inr (b\<lparr>array := arr\<rparr>)))"

definition overwrite_last_token :: "int \<Rightarrow> token_buffer \<Rightarrow> token_buffer result" where
  "overwrite_last_token token b = overwrite_token_at_offset_from_end 1 token b"

subsection \<open>Streaming window and reset\<close>

definition has_outstanding_generated_tokens :: "token_buffer \<Rightarrow> bool" where
  "has_outstanding_generated_tokens b \<longleftrightarrow> range_len (completion_range b) > 0"

definition consume_recently_generated_tokens ::
  "int \<Rightarrow> token_buffer \<Rightarrow> (int list \<times> token_buffer) result" where
  "consume_recently_generated_tokens num_trailing_to_exclude b =
     (let cr = completion_range b in
      raise_if (r_start cr = r_end cr) ValueError
      (raise_if (r_end cr > current_length b) ValueError
      (let consume_end = r_end cr - num_trailing_to_exclude in
       raise_if (consume_end < r_start cr) ValueError
       (let generated_tokens = py_slice (array b) (r_start cr) consume_end in
        bind_r (bump_start (consume_end - r_start cr) cr) (\<lambda>cr'.
          Inr (generated_tokens, b\<lparr>completion_range := cr'\<rparr>))))))"

definition reset_as_new_prompt :: "int \<Rightarrow> token_buffer \<Rightarrow> token_buffer result" where
  "reset_as_new_prompt num_trailing b =
     raise_if (r_end (processing_range b) > current_length b) ValueError
     (raise_if (num_trailing \<noteq> 0 \<and> num_trailing > generated_length b) ValueError
     (let n = (if num_trailing \<noteq> 0 then current_length b - num_trailing else current_length b) in
      bind_r (Range_init 0 n) (\<lambda>pr.
      bind_r (Range_init n n) (\<lambda>cr.
        Inr (b\<lparr>current_length := n, processing_range := pr, completion_range := cr,
               prompt_length := n, actively_chunked := False\<rparr>)))))"

section \<open>Well-formed buffers\<close>

text \<open>
  What every operation keeps: the two windows lie inside the valid tokens, the active
  window (start plus offset) is inside the processing range, the stream of generated
  tokens starts after the prompt and ends at the last token, the valid tokens fit the
  array, and the processing range reaches the last token exactly when no chunk is set.
\<close>

definition tb_inv :: "token_buffer \<Rightarrow> bool" where
  "tb_inv b \<longleftrightarrow>
     range_ok (processing_range b) \<and> range_ok (completion_range b) \<and>
     1 \<le> prompt_length b \<and> prompt_length b \<le> r_start (completion_range b) \<and>
     r_end (completion_range b) = current_length b \<and>
     current_length b \<le> int (length (array b)) \<and>
     r_end (processing_range b) \<le> current_length b \<and>
     (actively_chunked b \<longleftrightarrow> r_end (processing_range b) < current_length b) \<and>
     0 \<le> r_start (processing_range b) + processing_offset b \<and>
     r_start (processing_range b) + processing_offset b \<le> r_end (processing_range b)"

text \<open>The window the scheduler works with: no offset, and at least one active token.\<close>

definition tb_ready :: "token_buffer \<Rightarrow> bool" where
  "tb_ready b \<longleftrightarrow> tb_inv b \<and> processing_offset b = 0 \<and>
     r_start (processing_range b) < r_end (processing_range b)"

text \<open>The mutating methods as one type, and a run of them.\<close>

datatype tb_op =
    Rewind int | Skip int | Chunk int | AdvanceChunk | AdvanceToken int
  | Overwrite int int | Consume int | Reset int

fun tb_exec :: "(nat \<Rightarrow> int) \<Rightarrow> token_buffer \<Rightarrow> tb_op \<Rightarrow> token_buffer result" where
  "tb_exec junk b (Rewind n) = rewind_processing n b"
| "tb_exec junk b (Skip n) = skip_processing n b"
| "tb_exec junk b (Chunk n) = chunk n b"
| "tb_exec junk b AdvanceChunk = advance_chunk b"
| "tb_exec junk b (AdvanceToken t) = advance_with_token junk t b"
| "tb_exec junk b (Overwrite k t) = overwrite_token_at_offset_from_end k t b"
| "tb_exec junk b (Consume k) = bind_r (consume_recently_generated_tokens k b) (\<lambda>(_, b). Inr b)"
| "tb_exec junk b (Reset k) = reset_as_new_prompt k b"

lemmas tb_view_defs = tokens_all_def prompt_def generated_def active_def tb_len_def
  processed_length_def generated_length_def active_length_def current_position_def

lemmas tb_op_defs = apply_processing_offset_def rewind_processing_def skip_processing_def
  chunk_def advance_chunk_def reset_offset_def overwrite_token_at_offset_from_end_def
  consume_recently_generated_tokens_def reset_as_new_prompt_def py_store_def seq_simps

lemma tb_invD:
  assumes "tb_inv b"
  shows "0 \<le> current_length b" and "current_length b \<le> int (length (array b))"
    and "0 < current_length b" and "0 < length (array b)"
  using assms by (auto simp: tb_inv_def range_ok_def)

lemma tb_len_current: "tb_inv b \<Longrightarrow> tb_len b = current_length b"
  by (auto simp: tb_view_defs tb_inv_def range_ok_def length_py_slice)

subsection \<open>The array grows enough, and only then\<close>

lemma grow_size_returns:
  assumes "0 < n"
  shows "\<exists>m. grow_size n t = Some m \<and> t < m \<and> n \<le> m \<and> (m = n \<or> m \<le> 2 * t)"
  using assms
proof (induction "nat (t + 1 - n)" arbitrary: n rule: less_induct)
  case less
  show ?case
  proof (cases "n \<le> t")
    case False
    then show ?thesis by (simp add: grow_size.simps)
  next
    case True
    with less.prems have "nat (t + 1 - n * 2) < nat (t + 1 - n)" by simp
    from less.hyps [OF this] less.prems obtain m where
      m: "grow_size (n * 2) t = Some m" "t < m" "n * 2 \<le> m" "m = n * 2 \<or> m \<le> 2 * t"
      by auto
    have "grow_size n t = grow_size (n * 2) t"
      using True by (simp add: grow_size.simps [of n t])
    with m True less.prems show ?thesis by auto
  qed
qed

lemma expand_capacity_ok:
  assumes "tb_inv b"
  obtains arr where "expand_capacity junk None (b\<lparr>processing_range := pr, completion_range := cr\<rparr>)
      = Inr (b\<lparr>processing_range := pr, completion_range := cr, array := arr\<rparr>)"
    and "current_length b < int (length arr)"
    and "take (nat (current_length b)) arr = take (nat (current_length b)) (array b)"
proof (cases "current_length b \<ge> int (length (array b))")
  case False
  show ?thesis
    by (rule that [of "array b"]) (use False in \<open>simp_all add: expand_capacity_def Let_def\<close>)
next
  case True
  let ?n = "current_length b"
  have n: "?n = int (length (array b))"
    using True tb_invD(2) [OF assms] by simp
  have pos: "0 < int (length (array b))"
    using tb_invD(4) [OF assms] by simp
  from grow_size_returns [OF pos, of ?n] obtain m where
    m: "grow_size (int (length (array b))) ?n = Some m" "?n < m" by auto
  let ?new = "map junk [0..<nat m]"
  have dst: "length (py_slice ?new 0 ?n) = nat ?n"
    using m(2) tb_invD(1) [OF assms] by (simp add: py_slice_nonneg)
  have src: "py_slice (array b) 0 ?n = array b"
    using n by (simp add: py_slice_nonneg)
  show ?thesis
  proof (rule that [of "array b @ drop (length (array b)) ?new"])
    show "expand_capacity junk None (b\<lparr>processing_range := pr, completion_range := cr\<rparr>) =
        Inr (b\<lparr>processing_range := pr, completion_range := cr,
               array := array b @ drop (length (array b)) ?new\<rparr>)"
      using True m(1) dst src n by (simp add: expand_capacity_def Let_def np_copyto_def)
    show "?n < int (length (array b @ drop (length (array b)) ?new))"
      using m(2) n by simp
    show "take (nat ?n) (array b @ drop (length (array b)) ?new) = take (nat ?n) (array b)"
      using n by simp
  qed
qed

text \<open>Appending always succeeds on an unchunked buffer, and its effect is exact.\<close>

lemma advance_with_token_ok:
  assumes "tb_inv b" and "\<not> actively_chunked b"
  obtains arr where
    "advance_with_token junk t b = Inr (b\<lparr>array := arr,
       processing_range := \<lparr>r_start = current_length b, r_end = current_length b + 1\<rparr>,
       completion_range := (completion_range b)\<lparr>r_end := current_length b + 1\<rparr>,
       current_length := current_length b + 1, processing_offset := 0\<rparr>)"
    and "current_length b < int (length arr)"
    and "take (nat (current_length b + 1)) arr = tokens_all b @ [t]"
proof -
  let ?n = "current_length b"
  let ?pr = "\<lparr>r_start = ?n, r_end = ?n + 1\<rparr>"
  let ?cr = "(completion_range b)\<lparr>r_end := ?n + 1\<rparr>"
  have e: "r_end (processing_range b) = ?n" "r_end (completion_range b) = ?n"
    and n: "0 \<le> ?n" and c: "r_start (completion_range b) \<le> ?n"
    using assms by (auto simp: tb_inv_def range_ok_def)
  have pr: "bump_end 1 (range_advance (processing_range b)) = Inr ?pr"
    using e n by (simp add: range_defs)
  have cr: "bump_end 1 (completion_range b) = Inr ?cr"
    using e n c by (simp add: range_defs)
  obtain arr where ex: "expand_capacity junk None (b\<lparr>processing_range := ?pr, completion_range := ?cr\<rparr>)
      = Inr (b\<lparr>processing_range := ?pr, completion_range := ?cr, array := arr\<rparr>)"
    and len: "?n < int (length arr)"
    and same: "take (nat ?n) arr = take (nat ?n) (array b)"
    using expand_capacity_ok [OF assms(1)] by blast
  have "take (nat (?n + 1)) (arr[nat ?n := t]) = take (nat ?n) arr @ [t]"
    using len n by (simp add: nat_add_distrib take_Suc_conv_app_nth)
  also have "\<dots> = tokens_all b @ [t]"
    using assms(1) n by (simp add: same tokens_all_def py_slice_nonneg tb_invD)
  finally have upd: "take (nat (?n + 1)) (arr[nat ?n := t]) = tokens_all b @ [t]" .
  show ?thesis
  proof (rule that [of "arr[nat ?n := t]"])
    show "?n < int (length (arr[nat ?n := t]))" using len by simp
    show "take (nat (?n + 1)) (arr[nat ?n := t]) = tokens_all b @ [t]" by (rule upd)
    show "advance_with_token junk t b = Inr (b\<lparr>array := arr[nat ?n := t],
       processing_range := ?pr, completion_range := ?cr, current_length := ?n + 1,
       processing_offset := 0\<rparr>)"
      using assms(2) n len
      by (simp add: advance_with_token_def pr cr ex py_store_def seq_simps Let_def reset_offset_def
          apply_processing_offset_def)
  qed
qed

subsection \<open>Every operation keeps the buffer well formed\<close>

lemma TokenBuffer_init_ready: "TokenBuffer_init d i arr = Inr b \<Longrightarrow> tb_ready b"
  by (auto simp: TokenBuffer_init_def result_Inr range_defs tb_ready_def tb_inv_def Suc_le_eq)

lemma apply_processing_offset_inv:
  "tb_inv b \<Longrightarrow> apply_processing_offset v b = Inr b' \<Longrightarrow> tb_inv b'"
  by (auto simp: apply_processing_offset_def Let_def result_Inr tb_inv_def)

lemma skip_processing_inv: "tb_inv b \<Longrightarrow> skip_processing n b = Inr b' \<Longrightarrow> tb_inv b'"
  by (auto simp: skip_processing_def active_length_def result_Inr range_defs tb_inv_def)

lemma rewind_processing_inv:
  "tb_inv b \<Longrightarrow> rewind_processing n b = Inr b' \<Longrightarrow>
   n \<le> r_start (processing_range b) + processing_offset b \<Longrightarrow> tb_inv b'"
  by (auto simp: rewind_processing_def result_Inr range_defs tb_inv_def)

lemma chunk_inv: "tb_inv b \<Longrightarrow> chunk n b = Inr b' \<Longrightarrow> tb_inv b'"
  by (auto simp: chunk_def active_length_def result_Inr range_defs tb_inv_def)

lemma advance_chunk_inv: "tb_inv b \<Longrightarrow> advance_chunk b = Inr b' \<Longrightarrow> tb_inv b'"
  by (auto simp: advance_chunk_def reset_offset_def apply_processing_offset_def
      result_Inr range_defs tb_inv_def split: if_splits)

lemma overwrite_inv:
  "tb_inv b \<Longrightarrow> overwrite_token_at_offset_from_end k t b = Inr b' \<Longrightarrow> tb_inv b'"
  by (auto simp: overwrite_token_at_offset_from_end_def py_store_def seq_simps Let_def
      result_Inr tb_inv_def split: if_splits)

lemma consume_inv:
  "tb_inv b \<Longrightarrow> consume_recently_generated_tokens k b = Inr (ts, b') \<Longrightarrow> 0 \<le> k \<Longrightarrow> tb_inv b'"
  by (auto simp: consume_recently_generated_tokens_def result_Inr range_defs tb_inv_def)

lemma advance_with_token_inv:
  assumes "tb_inv b" and adv: "advance_with_token junk t b = Inr b'"
  shows "tb_inv b'"
proof -
  from adv have nc: "\<not> actively_chunked b"
    by (simp add: advance_with_token_def raise_if_eq_Inr)
  from advance_with_token_ok [OF assms(1) nc, of junk t] obtain arr where
    "b' = b\<lparr>array := arr,
       processing_range := \<lparr>r_start = current_length b, r_end = current_length b + 1\<rparr>,
       completion_range := (completion_range b)\<lparr>r_end := current_length b + 1\<rparr>,
       current_length := current_length b + 1, processing_offset := 0\<rparr>"
    and "current_length b < int (length arr)"
    using adv by auto
  with assms(1) nc show ?thesis by (auto simp: tb_inv_def range_ok_def)
qed

lemma reset_as_new_prompt_inv:
  "tb_inv b \<Longrightarrow> processing_offset b = 0 \<Longrightarrow> 0 \<le> k \<Longrightarrow>
   reset_as_new_prompt k b = Inr b' \<Longrightarrow> tb_inv b'"
  by (auto simp: reset_as_new_prompt_def generated_length_def result_Inr range_defs tb_inv_def)

lemmas tb_inv_intros = apply_processing_offset_inv skip_processing_inv rewind_processing_inv
  chunk_inv advance_chunk_inv overwrite_inv consume_inv advance_with_token_inv
  reset_as_new_prompt_inv

text \<open>With no offset applied, the active window never becomes empty.\<close>

definition op_ok :: "tb_op \<Rightarrow> bool" where
  "op_ok p = (case p of Consume k \<Rightarrow> 0 \<le> k | Reset k \<Rightarrow> 0 \<le> k | _ \<Rightarrow> True)"

lemma advance_with_token_fields:
  assumes "tb_inv b" and adv: "advance_with_token junk t b = Inr b'"
  shows "processing_offset b' = 0"
    and "processing_range b' = \<lparr>r_start = current_length b, r_end = current_length b + 1\<rparr>"
    and "current_length b' = current_length b + 1" and "prompt_length b' = prompt_length b"
    and "completion_range b' = (completion_range b)\<lparr>r_end := current_length b + 1\<rparr>"
    and "\<not> actively_chunked b'" and "tokens_all b' = tokens_all b @ [t]"
proof -
  from adv have nc: "\<not> actively_chunked b"
    by (simp add: advance_with_token_def raise_if_eq_Inr)
  from advance_with_token_ok [OF assms(1) nc, of junk t] obtain arr where
    b': "b' = b\<lparr>array := arr,
       processing_range := \<lparr>r_start = current_length b, r_end = current_length b + 1\<rparr>,
       completion_range := (completion_range b)\<lparr>r_end := current_length b + 1\<rparr>,
       current_length := current_length b + 1, processing_offset := 0\<rparr>"
    and len: "current_length b < int (length arr)"
    and tk: "take (nat (current_length b + 1)) arr = tokens_all b @ [t]"
    using adv by auto
  show "processing_offset b' = 0"
    and "processing_range b' = \<lparr>r_start = current_length b, r_end = current_length b + 1\<rparr>"
    and "current_length b' = current_length b + 1" and "prompt_length b' = prompt_length b"
    and "completion_range b' = (completion_range b)\<lparr>r_end := current_length b + 1\<rparr>"
    and "\<not> actively_chunked b'"
    using nc by (simp_all add: b')
  show "tokens_all b' = tokens_all b @ [t]"
    using tk len tb_invD(1) [OF assms(1)] by (simp add: b' tokens_all_def py_slice_nonneg)
qed

lemma tb_exec_ready:
  assumes "tb_ready b" and "op_ok p" and ex: "tb_exec junk b p = Inr b'"
  shows "tb_ready b'"
proof -
  have inv: "tb_inv b" and off: "processing_offset b = 0"
    and lt: "r_start (processing_range b) < r_end (processing_range b)"
    using assms(1) by (simp_all add: tb_ready_def)
  have pos: "r_end (processing_range b) \<le> current_length b" "1 \<le> prompt_length b"
    using inv by (simp_all add: tb_inv_def)
  show ?thesis
  proof (cases p)
    case (Rewind n)
    then have eq: "rewind_processing n b = Inr b'" using ex by simp
    then have "n \<le> r_start (processing_range b)" by (auto simp: rewind_processing_def result_Inr range_defs)
    with inv off have "tb_inv b'" by (intro rewind_processing_inv [OF inv eq]) simp
    with eq off lt show ?thesis
      by (auto simp: tb_ready_def rewind_processing_def result_Inr range_defs)
  next
    case (Skip n)
    then have eq: "skip_processing n b = Inr b'" using ex by simp
    from skip_processing_inv [OF inv eq] eq off show ?thesis
      by (auto simp: tb_ready_def skip_processing_def active_length_def result_Inr range_defs)
  next
    case (Chunk n)
    then have eq: "chunk n b = Inr b'" using ex by simp
    from chunk_inv [OF inv eq] eq off show ?thesis
      by (auto simp: tb_ready_def chunk_def active_length_def result_Inr range_defs)
  next
    case AdvanceChunk
    then have eq: "advance_chunk b = Inr b'" using ex by simp
    from advance_chunk_inv [OF inv eq] eq off inv show ?thesis
      by (auto simp: tb_ready_def advance_chunk_def reset_offset_def result_Inr range_defs tb_inv_def)
  next
    case (AdvanceToken t)
    then have eq: "advance_with_token junk t b = Inr b'" using ex by simp
    from advance_with_token_inv [OF inv eq] advance_with_token_fields [OF inv eq] show ?thesis
      by (simp add: tb_ready_def)
  next
    case (Overwrite k t)
    then have eq: "overwrite_token_at_offset_from_end k t b = Inr b'" using ex by simp
    from overwrite_inv [OF inv eq] eq off lt show ?thesis
      by (auto simp: tb_ready_def overwrite_token_at_offset_from_end_def result_Inr)
  next
    case (Consume k)
    then obtain ts where eq: "consume_recently_generated_tokens k b = Inr (ts, b')"
      using ex by (auto simp: result_Inr)
    from consume_inv [OF inv eq] eq off lt assms(2) Consume show ?thesis
      by (auto simp: tb_ready_def op_ok_def consume_recently_generated_tokens_def result_Inr Let_def)
  next
    case (Reset k)
    then have eq: "reset_as_new_prompt k b = Inr b'" using ex by simp
    from reset_as_new_prompt_inv [OF inv off _ eq] eq off pos inv assms(2) Reset show ?thesis
      by (auto simp: tb_ready_def op_ok_def reset_as_new_prompt_def generated_length_def
          result_Inr range_defs tb_inv_def)
  qed
qed

lemma tb_run_ready:
  assumes "tb_ready b" and "\<And>p. p \<in> set ps \<Longrightarrow> op_ok p"
    and "fold_r (tb_exec junk) b ps = Inr b'"
  shows "tb_ready b'"
  using assms(3,1)
proof (rule fold_r_invariant)
  fix b p b'
  assume "tb_ready b" and "p \<in> set ps" and "tb_exec junk b p = Inr b'"
  then show "tb_ready b'" using assms(2) by (blast intro: tb_exec_ready)
qed

section \<open>Properties\<close>

text \<open>Prefill in chunks: the windows a driver sees when it chunks with the given sizes.\<close>

fun prefill_windows :: "int list \<Rightarrow> token_buffer \<Rightarrow> (int list list \<times> token_buffer) result" where
  "prefill_windows [] b = Inr ([active b], b)"
| "prefill_windows (n # ns) b =
     bind_r (chunk n b) (\<lambda>b1.
     bind_r (advance_chunk b1) (\<lambda>b2.
     bind_r (prefill_windows ns b2) (\<lambda>(ws, b3). Inr (active b1 # ws, b3))))"

text \<open>The generated tokens already handed out, and those still to be handed out.\<close>

definition streamed :: "token_buffer \<Rightarrow> int list" where
  "streamed b = py_slice (array b) (prompt_length b) (r_start (completion_range b))"

definition unstreamed :: "token_buffer \<Rightarrow> int list" where
  "unstreamed b = py_slice (array b) (r_start (completion_range b)) (current_length b)"

definition silent_op :: "token_buffer \<Rightarrow> tb_op \<Rightarrow> bool" where
  "silent_op b p = (case p of Consume _ \<Rightarrow> False | Reset _ \<Rightarrow> False
     | Overwrite k _ \<Rightarrow> k \<le> range_len (completion_range b) | _ \<Rightarrow> True)"

text \<open>
  A run of the buffer with the tokens it streams: \<open>Overwrite\<close> only touches tokens not yet
  streamed, which is how future-token placeholders are realised.
\<close>

inductive tb_stream :: "(nat \<Rightarrow> int) \<Rightarrow> token_buffer \<Rightarrow> int list \<Rightarrow> token_buffer \<Rightarrow> bool"
  for junk where
  stop: "tb_stream junk b [] b"
| emit: "consume_recently_generated_tokens k b = Inr (ts, b') \<Longrightarrow> 0 \<le> k \<Longrightarrow>
     tb_stream junk b' out b'' \<Longrightarrow> tb_stream junk b (ts @ out) b''"
| silent: "silent_op b p \<Longrightarrow> tb_exec junk b p = Inr b' \<Longrightarrow>
     tb_stream junk b' out b'' \<Longrightarrow> tb_stream junk b out b''"

lemma active_eq_slice:
  assumes "tb_inv b"
  shows "int (length (active b)) = active_length b"
    and "active b = py_slice (tokens_all b) (processed_length b + processing_offset b)
           (processed_length b + processing_offset b + active_length b)"
  using assms
  by (auto simp: tb_inv_def range_ok_def active_def active_length_def tokens_all_def range_len_def
      processed_length_def length_py_slice py_slice_nonneg take_drop min_def)

lemma tokens_split: "tb_inv b \<Longrightarrow> tokens_all b = prompt b @ generated b"
  by (auto simp: tb_view_defs tb_inv_def range_ok_def py_slice_join)

lemma generated_split: "tb_inv b \<Longrightarrow> generated b = streamed b @ unstreamed b"
  by (auto simp: streamed_def unstreamed_def tb_view_defs tb_inv_def range_ok_def py_slice_join)

lemma chunk_Inr:
  "chunk n b = Inr b1 \<Longrightarrow> tb_inv b \<Longrightarrow>
   0 < n \<and> n < active_length b \<and>
   b1 = b\<lparr>processing_range := (processing_range b)
              \<lparr>r_end := r_start (processing_range b) + processing_offset b + n\<rparr>,
          actively_chunked := True\<rparr>"
  by (auto simp: chunk_def active_length_def result_Inr range_defs tb_inv_def)

lemma advance_chunk_Inr:
  "advance_chunk b = Inr b1 \<Longrightarrow>
   actively_chunked b \<and>
   b1 = b\<lparr>processing_range := \<lparr>r_start = r_end (processing_range b), r_end = current_length b\<rparr>,
          processing_offset := 0, actively_chunked := False\<rparr>"
  by (auto simp: advance_chunk_def reset_offset_def apply_processing_offset_def Let_def
      range_advance_def result_Inr split: if_splits)

lemma chunk_split:
  assumes "tb_ready b" and "\<not> actively_chunked b" and "chunk n b = Inr b1" and "advance_chunk b1 = Inr b2"
  shows "active b = active b1 @ active b2" and "tb_ready b2" and "\<not> actively_chunked b2"
    and "tokens_all b2 = tokens_all b" and "active_length b1 = n"
proof -
  have inv: "tb_inv b" and off: "processing_offset b = 0"
    using assms(1) by (simp_all add: tb_ready_def)
  let ?s = "r_start (processing_range b)"
  have n: "0 < n" "n < active_length b" and b1: "b1 = b\<lparr>processing_range := (processing_range b)
      \<lparr>r_end := ?s + n\<rparr>, actively_chunked := True\<rparr>"
    using chunk_Inr [OF assms(3) inv] off by simp_all
  have b2: "b2 = b1\<lparr>processing_range := \<lparr>r_start = ?s + n, r_end = current_length b\<rparr>,
      processing_offset := 0, actively_chunked := False\<rparr>"
    using advance_chunk_Inr [OF assms(4)] by (simp add: b1)
  have w: "0 \<le> ?s" "r_end (processing_range b) = current_length b"
      "current_length b \<le> int (length (array b))" "?s + n \<le> current_length b"
    using inv assms(2) n off by (auto simp: tb_inv_def range_ok_def active_length_def range_len_def)
  show "active b = active b1 @ active b2"
    using w n off by (simp add: active_def b1 b2 py_slice_join)
  show "\<not> actively_chunked b2" "tokens_all b2 = tokens_all b"
    by (simp_all add: b1 b2 tokens_all_def)
  show "active_length b1 = n"
    using n off by (simp add: b1 active_length_def range_len_def)
  have "tb_ready b1"
    using tb_exec_ready [OF assms(1), of "Chunk n"] assms(3) by (simp add: op_ok_def)
  from tb_exec_ready [OF this, of AdvanceChunk] assms(4) show "tb_ready b2"
    by (simp add: op_ok_def)
qed

lemma prefill_windows_split:
  assumes "tb_ready b" and "\<not> actively_chunked b" and "prefill_windows ns b = Inr (ws, b')"
  shows "concat ws = active b \<and> tokens_all b' = tokens_all b \<and> tb_ready b'"
  using assms
proof (induction ns arbitrary: b ws)
  case Nil
  then show ?case by auto
next
  case (Cons n ns)
  then obtain b1 b2 vs where c: "chunk n b = Inr b1" "advance_chunk b1 = Inr b2"
    and r: "prefill_windows ns b2 = Inr (vs, b')" and ws: "ws = active b1 # vs"
    by (auto simp: result_Inr)
  note s = chunk_split [OF Cons.prems(1,2) c]
  from Cons.IH [OF s(2,3) r] s(1,4) ws show ?case by simp
qed

lemma py_slice_take:
  assumes "0 \<le> a" and "a \<le> b" and "b \<le> c" and "c \<le> int (length xs)" and "c \<le> int (length ys)"
    and "py_slice ys 0 c = py_slice xs 0 c"
  shows "py_slice ys a b = py_slice xs a b"
proof -
  have "py_slice zs a b = take (nat (b - a)) (drop (nat a) (py_slice zs 0 c))"
    if "c \<le> int (length zs)" for zs :: "'a list"
    using assms(1-3) that by (simp add: py_slice_nonneg take_drop min_def)
  with assms(4-6) show ?thesis by simp
qed

lemma advance_streamed:
  assumes "tb_inv b" and adv: "advance_with_token junk t b = Inr b'"
  shows "streamed b' = streamed b" and "generated b' = generated b @ [t]"
    and "prompt b' = prompt b" and "active b' = [t]"
proof -
  let ?n = "current_length b"
  note f = advance_with_token_fields [OF assms]
  have inv': "tb_inv b'" by (rule advance_with_token_inv [OF assms])
  have n: "0 \<le> prompt_length b" "prompt_length b \<le> r_start (completion_range b)"
      "r_start (completion_range b) \<le> ?n" "?n \<le> int (length (array b))"
    using assms(1) by (auto simp: tb_inv_def range_ok_def)
  have n': "?n + 1 \<le> int (length (array b'))"
    using inv' f by (simp add: tb_inv_def)
  have all: "py_slice (array b') 0 (?n + 1) = py_slice (array b) 0 ?n @ [t]"
    using f(7) f(3) by (simp add: tokens_all_def)
  have len: "length (py_slice (array b) 0 ?n) = nat ?n"
    using n by (simp add: py_slice_nonneg)
  have "py_slice (array b') 0 ?n = take (nat ?n) (py_slice (array b') 0 (?n + 1))"
    using n n' by (simp add: py_slice_nonneg)
  also have "\<dots> = py_slice (array b) 0 ?n"
    unfolding all using len by simp
  finally have same: "py_slice (array b') 0 ?n = py_slice (array b) 0 ?n" .
  have sl: "py_slice (array b') x y = py_slice (array b) x y" if "0 \<le> x" "x \<le> y" "y \<le> ?n" for x y
    using that n n' same by (intro py_slice_take [where c = ?n, OF _ _ _ _ _ same]) auto
  have last: "py_slice (array b') ?n (?n + 1) = [t]"
  proof -
    have "py_slice (array b') 0 ?n @ py_slice (array b') ?n (?n + 1) = py_slice (array b') 0 (?n + 1)"
      using n n' by (intro py_slice_join) auto
    then show ?thesis using all same by simp
  qed
  show "streamed b' = streamed b"
    using n by (simp add: streamed_def f sl)
  show "prompt b' = prompt b"
    using n by (simp add: prompt_def f sl)
  show "active b' = [t]"
    using last by (simp add: active_def f)
  have "generated b' = py_slice (array b') (prompt_length b) ?n @ py_slice (array b') ?n (?n + 1)"
    unfolding generated_def f(3,4) using n n' by (intro py_slice_join [symmetric]) auto
  then show "generated b' = generated b @ [t]"
    using last sl n by (simp add: generated_def)
qed

lemma silent_streamed:
  assumes "tb_ready b" and sil: "silent_op b p" and ex: "tb_exec junk b p = Inr b'"
  shows "streamed b' = streamed b" and "tb_ready b'"
proof -
  have inv: "tb_inv b" using assms(1) by (simp add: tb_ready_def)
  have "op_ok p" using sil by (cases p) (simp_all add: silent_op_def op_ok_def)
  from tb_exec_ready [OF assms(1) this ex] show "tb_ready b'" .
  show "streamed b' = streamed b"
  proof (cases p)
    case (AdvanceToken t)
    then show ?thesis using ex by (intro advance_streamed(1) [OF inv, of junk t]) simp
  next
    case (Overwrite k t)
    let ?i = "nat (current_length b - k)"
    have le: "nat (r_start (completion_range b)) \<le> ?i"
      using sil Overwrite inv
      by (auto simp: silent_op_def range_len_def tb_inv_def range_ok_def)
    have b': "b' = b\<lparr>array := (array b)[?i := t]\<rparr>"
      using ex Overwrite
      by (auto simp: overwrite_token_at_offset_from_end_def py_store_def seq_simps Let_def result_Inr
          split: if_splits)
    have "0 \<le> prompt_length b" "prompt_length b \<le> r_start (completion_range b)"
        "r_start (completion_range b) \<le> int (length (array b))"
      using inv by (auto simp: tb_inv_def range_ok_def)
    moreover from this le
    have "nat (prompt_length b) + nat (r_start (completion_range b) - prompt_length b) \<le> ?i"
      by simp
    ultimately show ?thesis
      by (simp add: b' streamed_def py_slice_nonneg take_drop_update)
  qed (use ex sil in \<open>auto simp: streamed_def silent_op_def rewind_processing_def skip_processing_def
      chunk_def advance_chunk_def reset_offset_def apply_processing_offset_def result_Inr Let_def
      split: if_splits\<close>)
qed

lemma consume_streamed:
  assumes "tb_ready b" and "0 \<le> k" and co: "consume_recently_generated_tokens k b = Inr (ts, b')"
  shows "streamed b' = streamed b @ ts" and "tb_ready b'"
proof -
  show "tb_ready b'"
    using tb_exec_ready [OF assms(1), of "Consume k"] assms(2) co by (simp add: op_ok_def)
  show "streamed b' = streamed b @ ts"
    using co assms(1,2)
    by (auto simp: consume_recently_generated_tokens_def streamed_def result_Inr range_defs
        tb_ready_def tb_inv_def py_slice_join)
qed

lemma tb_stream_invariant:
  "tb_stream junk b out b' \<Longrightarrow> tb_ready b \<Longrightarrow> tb_ready b' \<and> streamed b' = streamed b @ out"
proof (induction rule: tb_stream.induct)
  case (stop b)
  then show ?case by simp
next
  case (emit k b ts b' out b'')
  from consume_streamed [OF emit.prems emit.hyps(2,1)] emit.IH show ?case by simp
next
  case (silent b p b' out b'')
  from silent_streamed [OF silent.prems silent.hyps(1,2)] silent.IH show ?case by simp
qed


definition example_buffer :: token_buffer where
  "example_buffer = \<lparr>array = [10, 11, 12, 13], processing_range = \<lparr>r_start = 0, r_end = 4\<rparr>,
     processing_offset = 0, completion_range = \<lparr>r_start = 4, r_end = 4\<rparr>, prompt_length = 4,
     current_length = 4, actively_chunked = False\<rparr>"

lemma example_buffer_init: "TokenBuffer_init 1 True [10, 11, 12, 13] = Inr example_buffer"
  by (simp add: TokenBuffer_init_def Range_init_def example_buffer_def)

lemma example_buffer_ready: "tb_ready example_buffer"
  by (rule TokenBuffer_init_ready [OF example_buffer_init])

lemmas tb_run_simps = tb_op_defs range_defs active_length_def generated_length_def
  advance_with_token_def expand_capacity_def np_copyto_def grow_size.simps example_buffer_def
  py_slice_def slice_bound_def


text \<open>
  C31. Appending a token to a well-formed, unchunked buffer always succeeds, whatever the fresh
  memory holds: the token becomes the last one, it is the only active token, and prompt and
  earlier tokens are unchanged.
\<close>

theorem advance_with_token_appends:
  assumes "tb_inv b" and "\<not> actively_chunked b"
  shows "\<exists>b'. advance_with_token junk t b = Inr b' \<and> tb_inv b' \<and>
    tokens_all b' = tokens_all b @ [t] \<and> generated b' = generated b @ [t] \<and>
    prompt b' = prompt b \<and> active b' = [t] \<and> processed_length b' = tb_len b"
proof -
  from advance_with_token_ok [OF assms, of junk t] obtain b' where
    adv: "advance_with_token junk t b = Inr b'" by blast
  show ?thesis
    using adv advance_with_token_inv [OF assms(1) adv] advance_with_token_fields [OF assms(1) adv]
      advance_streamed [OF assms(1) adv] tb_len_current [OF assms(1)]
    by (auto simp: processed_length_def)
qed

theorem advance_with_token_appends_witness:
  "\<exists>b'. advance_with_token (\<lambda>_. 0) 14 example_buffer = Inr b' \<and>
     tokens_all b' = [10, 11, 12, 13, 14] \<and> active b' = [14]"
proof -
  have inv: "tb_inv example_buffer" "\<not> actively_chunked example_buffer"
    and all: "tokens_all example_buffer = [10, 11, 12, 13]"
    using example_buffer_ready
    by (simp_all add: tb_ready_def example_buffer_def tokens_all_def py_slice_def slice_bound_def)
  show ?thesis
    using advance_with_token_appends [OF inv, of "\<lambda>_. 0" 14] all by auto
qed

text \<open>
  C14. Chunked prefill processes every active token exactly once and in order: for any chunk
  sizes the buffer accepts, the windows seen between \<open>chunk\<close> and \<open>advance_chunk\<close>, followed by
  the final window, concatenate to the window there was at the start, and no token changes.
\<close>

theorem chunked_prefill_partition:
  assumes "tb_ready b" and "\<not> actively_chunked b" and "prefill_windows ns b = Inr (ws, b')"
  shows "concat ws = active b \<and> tokens_all b' = tokens_all b"
  using prefill_windows_split [OF assms] by simp

theorem chunked_prefill_partition_witness:
  "\<exists>ws b'. prefill_windows [1, 2] example_buffer = Inr (ws, b') \<and>
     concat ws = active example_buffer"
proof -
  have "\<exists>ws b'. prefill_windows [1, 2] example_buffer = Inr (ws, b')"
    by (simp add: tb_run_simps)
  then obtain ws b' where w: "prefill_windows [1, 2] example_buffer = Inr (ws, b')" by blast
  have "\<not> actively_chunked example_buffer" by (simp add: example_buffer_def)
  from chunked_prefill_partition [OF example_buffer_ready this w] w show ?thesis by blast
qed



text \<open>
  \<open>reset_as_new_prompt\<close> keeps an applied processing offset, so after resetting a buffer
  with a negative offset \<open>active_length\<close> is larger than the number of active tokens.
\<close>

theorem reset_keeps_offset:
  assumes "tb_inv b" and "processing_offset b < 0" and "reset_as_new_prompt 0 b = Inr b'"
  shows "processing_offset b' = processing_offset b \<and> int (length (active b')) < active_length b'"
proof -
  have b': "processing_offset b' = processing_offset b" "array b' = array b"
      "processing_range b' = \<lparr>r_start = 0, r_end = current_length b\<rparr>"
    using assms(3) by (auto simp: reset_as_new_prompt_def result_Inr range_defs)
  have n: "0 \<le> current_length b" "current_length b \<le> int (length (array b))"
    using tb_invD [OF assms(1)] by simp_all
  have "int (length (active b')) \<le> current_length b"
    using n by (simp add: active_def b' py_slice_def slice_bound_def Let_def)
  also have "\<dots> < active_length b'"
    using assms(2) n by (simp add: active_length_def b' range_len_def)
  finally show ?thesis by (simp add: b')
qed

theorem reset_keeps_offset_witness:
  "\<exists>b b'. skip_processing 2 example_buffer = Inr b \<and> apply_processing_offset (- 1) b = Inr b' \<and>
     (\<exists>b''. reset_as_new_prompt 0 b' = Inr b'' \<and> int (length (active b'')) < active_length b'')"
proof -
  have "\<exists>b. skip_processing 2 example_buffer = Inr b \<and>
      (\<exists>b'. apply_processing_offset (- 1) b = Inr b' \<and> processing_offset b' < 0 \<and>
        (\<exists>b''. reset_as_new_prompt 0 b' = Inr b''))"
    by (simp add: tb_run_simps)
  then obtain b b' b'' where e: "skip_processing 2 example_buffer = Inr b"
    "apply_processing_offset (- 1) b = Inr b'" "processing_offset b' < 0"
    "reset_as_new_prompt 0 b' = Inr b''" by blast
  have "tb_inv example_buffer" using example_buffer_ready by (simp add: tb_ready_def)
  then have "tb_inv b'" using e(1,2) by (blast intro: skip_processing_inv apply_processing_offset_inv)
  from reset_keeps_offset [OF this e(3,4)] e show ?thesis by blast
qed

end
