(* ===== verification/EOS_Tracking.thy ===== *)
theory EOS_Tracking
  imports Prelude "HOL-Library.Sublist"
begin

text \<open>
  End-of-sequence tracking, \<open>max/pipelines/context/eos_tracking.py\<close>, and the generation
  status of \<open>max/pipelines/context/status.py\<close>. A Python string is the list of its code
  points. The set \<open>eos_token_ids\<close> is the list of its elements in iteration order.
\<close>

section \<open>Status\<close>

datatype generation_status = ACTIVE | END_OF_SEQUENCE | MAXIMUM_LENGTH | CANCELLED

definition is_done :: "generation_status \<Rightarrow> bool" where
  "is_done s \<longleftrightarrow> s \<noteq> ACTIVE"

section \<open>Tracker\<close>

type_synonym pystr = "nat list"

record eos_tracker =
  eos_token_ids :: "int list"
  eos_sequences :: "int list list"
  eos_stop_strings :: "pystr list"
  max_stop_length :: int
  max_eos_seq_len :: int
  continuation_tail :: pystr

fun max_default :: "int \<Rightarrow> int list \<Rightarrow> int" where
  "max_default d [] = d"
| "max_default d (x # xs) = foldl max x xs"

text \<open>Construction with its \<open>model_post_init\<close> hook.\<close>

definition EOSTracker_init :: "int list \<Rightarrow> int list list \<Rightarrow> pystr list \<Rightarrow> eos_tracker" where
  "EOSTracker_init ids seqs stops =
     \<lparr>eos_token_ids = ids, eos_sequences = seqs, eos_stop_strings = stops,
      max_stop_length = max_default 0 (map (\<lambda>s. int (length s)) stops),
      max_eos_seq_len = max_default 1 (map (\<lambda>s. int (length s)) seqs),
      continuation_tail = []\<rparr>"

definition ends_with :: "int list \<Rightarrow> int list \<Rightarrow> bool" where
  "ends_with generated_tokens eos =
     (if length generated_tokens < length eos then False
      else py_slice generated_tokens (int (length generated_tokens) - int (length eos))
             (int (length generated_tokens)) = eos)"

definition is_eos_from_tokens :: "eos_tracker \<Rightarrow> int list \<Rightarrow> bool result" where
  "is_eos_from_tokens t generated_tokens =
     raise_if (length generated_tokens = 0) ValueError
     (Inr (if last generated_tokens \<in> set (eos_token_ids t) then True
           else if eos_sequences t = [] then False
           else list_ex (ends_with generated_tokens) (eos_sequences t)))"

text \<open>The loop \<open>for offset in range(len(new_tokens))\<close>.\<close>

fun first_eos_loop :: "eos_tracker \<Rightarrow> int list \<Rightarrow> int \<Rightarrow> int list \<Rightarrow> int option result" where
  "first_eos_loop t span n_tail [] = Inr None"
| "first_eos_loop t span n_tail (offset # offsets) =
     bind_r (is_eos_from_tokens t (py_slice span 0 (n_tail + offset + 1))) (\<lambda>hit.
       if hit then Inr (Some offset) else first_eos_loop t span n_tail offsets)"

definition first_eos_offset :: "eos_tracker \<Rightarrow> int list \<Rightarrow> int list \<Rightarrow> int option result" where
  "first_eos_offset t prior_generated new_tokens =
     (let keep = max_eos_seq_len t - 1;
          n = int (length prior_generated);
          tail = (if keep \<noteq> 0 then py_slice prior_generated (max 0 (n - keep)) n
                  else py_slice prior_generated 0 0);
          span = tail @ new_tokens
      in first_eos_loop t span (int (length tail)) (map int [0..<length new_tokens]))"

text \<open>\<open>str.find\<close>: the position of the first occurrence, or -1.\<close>

fun py_find_from :: "int \<Rightarrow> pystr \<Rightarrow> pystr \<Rightarrow> int" where
  "py_find_from i [] s = (if s = [] then i else -1)"
| "py_find_from i (x # xs) s = (if prefix s (x # xs) then i else py_find_from (i + 1) xs s)"

definition py_find :: "pystr \<Rightarrow> pystr \<Rightarrow> int" where
  "py_find hay s = py_find_from 0 hay s"

text \<open>The scan for the leftmost stop string.\<close>

fun best_stop :: "pystr \<Rightarrow> int \<Rightarrow> pystr option \<Rightarrow> pystr list \<Rightarrow> pystr option" where
  "best_stop tail best_pos best_match [] = best_match"
| "best_stop tail best_pos best_match (s # ss) =
     (let pos = py_find tail s in
      if 0 \<le> pos \<and> pos < best_pos then best_stop tail pos (Some s) ss
      else best_stop tail best_pos best_match ss)"

definition is_eos_from_string :: "pystr \<Rightarrow> eos_tracker \<Rightarrow> pystr option \<times> eos_tracker" where
  "is_eos_from_string next_token_decoded t =
     (if eos_stop_strings t = [] then (None, t)
      else
        let tail = continuation_tail t @ next_token_decoded;
            tail = (if int (length tail) > 8 * max_stop_length t
                    then py_slice tail (- max_stop_length t) (int (length tail)) else tail)
        in (best_stop tail (int (length tail)) None (eos_stop_strings t),
            t\<lparr>continuation_tail := tail\<rparr>))"

section \<open>Reference definitions\<close>

text \<open>Token-at-a-time decoding: test the whole history after every token of the span.\<close>

fun first_eos_ref :: "eos_tracker \<Rightarrow> int list \<Rightarrow> int \<Rightarrow> int list \<Rightarrow> int option result" where
  "first_eos_ref t history i [] = Inr None"
| "first_eos_ref t history i (x # xs) =
     bind_r (is_eos_from_tokens t (history @ [x])) (\<lambda>hit.
       if hit then Inr (Some i) else first_eos_ref t (history @ [x]) (i + 1) xs)"

definition eos_tracker_ok :: "eos_tracker \<Rightarrow> bool" where
  "eos_tracker_ok t \<longleftrightarrow>
     max_stop_length t = max_default 0 (map (\<lambda>s. int (length s)) (eos_stop_strings t)) \<and>
     max_eos_seq_len t = max_default 1 (map (\<lambda>s. int (length s)) (eos_sequences t))"

definition occurs :: "pystr \<Rightarrow> pystr \<Rightarrow> bool" where
  "occurs s hay \<longleftrightarrow> sublist s hay"

text \<open>Feeding the decoded pieces one by one; the matches reported.\<close>

fun feed_strings :: "eos_tracker \<Rightarrow> pystr list \<Rightarrow> pystr option list \<times> eos_tracker" where
  "feed_strings t [] = ([], t)"
| "feed_strings t (p # ps) =
     (let (m, t1) = is_eos_from_string p t; (ms, t2) = feed_strings t1 ps in (m # ms, t2))"

section \<open>Lemmas\<close>

lemma foldl_max_le: "x \<in> insert a (set xs) \<Longrightarrow> x \<le> foldl max (a::int) xs"
proof (induction xs arbitrary: a x)
  case (Cons y ys)
  then consider "x \<le> max a y" | "x \<in> set ys" by auto
  then show ?case
  proof cases
    case 1
    also have "max a y \<le> foldl max (max a y) ys" by (rule Cons.IH) simp
    finally show ?thesis by simp
  next
    case 2
    then show ?thesis using Cons.IH [of x "max a y"] by simp
  qed
qed simp

lemma max_default_ge: "x \<in> set xs \<Longrightarrow> x \<le> max_default d xs"
  by (cases xs) (auto intro: foldl_max_le)

lemma EOSTracker_init_ok: "eos_tracker_ok (EOSTracker_init ids seqs stops)"
  by (simp add: EOSTracker_init_def eos_tracker_ok_def)

lemma ends_with_suffix: "ends_with g eos \<longleftrightarrow> suffix eos g"
proof (cases "length g < length eos")
  case True
  then show ?thesis by (auto simp: ends_with_def dest: suffix_length_le)
next
  case False
  then have "py_slice g (int (length g) - int (length eos)) (int (length g)) =
      drop (length g - length eos) g"
    by (simp add: py_slice_nonneg nat_diff_distrib)
  with False show ?thesis
    by (auto simp: ends_with_def suffix_def) (metis append_take_drop_id)
qed

text \<open>A stop sequence of length at most \<open>k + 1\<close> ends the history iff it ends the tail of \<open>k\<close>.\<close>

lemma suffix_bounded_tail:
  assumes "ys \<noteq> []" and "length eos \<le> Suc k"
  shows "suffix eos (drop (length xs - k) xs @ ys) \<longleftrightarrow> suffix eos (xs @ ys)"
proof
  assume "suffix eos (drop (length xs - k) xs @ ys)"
  moreover have "suffix (drop (length xs - k) xs @ ys) (xs @ ys)"
    by (simp add: suffix_drop)
  ultimately show "suffix eos (xs @ ys)" by (rule suffix_order.trans)
next
  assume s: "suffix eos (xs @ ys)"
  have t: "suffix (drop (length xs - k) xs @ ys) (xs @ ys)" by (simp add: suffix_drop)
  show "suffix eos (drop (length xs - k) xs @ ys)"
  proof (cases "length xs \<le> k")
    case True
    with s show ?thesis by simp
  next
    case False
    then have "length eos \<le> length (drop (length xs - k) xs @ ys)"
      using assms by (cases ys) auto
    with s t show ?thesis by (rule suffix_length_suffix)
  qed
qed

lemma is_eos_nonempty:
  "g \<noteq> [] \<Longrightarrow> is_eos_from_tokens t g =
     Inr (last g \<in> set (eos_token_ids t) \<or> list_ex (ends_with g) (eos_sequences t))"
  by (simp add: is_eos_from_tokens_def)

lemma is_eos_tail:
  assumes "eos_tracker_ok t" and "ys \<noteq> []" and "k = nat (max_eos_seq_len t - 1)"
  shows "is_eos_from_tokens t (drop (length xs - k) xs @ ys) = is_eos_from_tokens t (xs @ ys)"
proof -
  have "ends_with (drop (length xs - k) xs @ ys) eos = ends_with (xs @ ys) eos"
    if "eos \<in> set (eos_sequences t)" for eos
  proof -
    have "int (length eos) \<le> max_eos_seq_len t"
      using that assms(1) by (auto simp: eos_tracker_ok_def intro!: max_default_ge)
    then have "length eos \<le> Suc k" using assms(3) by simp
    with assms(2) show ?thesis by (simp add: ends_with_suffix suffix_bounded_tail)
  qed
  then have "list_ex (ends_with (drop (length xs - k) xs @ ys)) (eos_sequences t) =
      list_ex (ends_with (xs @ ys)) (eos_sequences t)"
    by (auto simp: list_ex_iff)
  with assms(2) show ?thesis by (simp add: is_eos_nonempty)
qed

lemma first_eos_loop_ref:
  assumes "eos_tracker_ok t" and "k = nat (max_eos_seq_len t - 1)"
    and "tail = drop (length prior - k) prior" and "new = done @ rest"
  shows "first_eos_loop t (tail @ new) (int (length tail)) (map int [length done..<length new]) =
     first_eos_ref t (prior @ done) (int (length done)) rest"
  using assms(4)
proof (induction rest arbitrary: "done")
  case Nil
  then show ?case by simp
next
  case (Cons x rest)
  let ?i = "length done"
  have up: "[?i..<length new] = ?i # [Suc ?i..<length new]"
    by (rule upt_conv_Cons) (use Cons.prems in simp)
  have sl: "py_slice (tail @ new) 0 (int (length tail) + int ?i + 1) = tail @ (done @ [x])"
    using Cons.prems by (simp add: py_slice_nonneg nat_add_distrib)
  have hit: "is_eos_from_tokens t (tail @ (done @ [x])) = is_eos_from_tokens t (prior @ done @ [x])"
    unfolding assms(3) using assms(1,2) by (intro is_eos_tail) simp_all
  have IH: "first_eos_loop t (tail @ new) (int (length tail)) (map int [Suc ?i..<length new]) =
      first_eos_ref t (prior @ done @ [x]) (int ?i + 1) rest"
    using Cons.IH [of "done @ [x]"] Cons.prems by (simp add: add.commute)
  show ?case
    by (simp only: up list.map first_eos_loop.simps first_eos_ref.simps sl hit IH append_assoc)
qed

lemma first_eos_offset_ref:
  assumes "eos_tracker_ok t"
  shows "first_eos_offset t prior new = first_eos_ref t prior 0 new"
proof -
  define k where "k = nat (max_eos_seq_len t - 1)"
  define tail where "tail = drop (length prior - k) prior"
  have "(if max_eos_seq_len t - 1 \<noteq> 0
         then py_slice prior (max 0 (int (length prior) - (max_eos_seq_len t - 1))) (int (length prior))
         else py_slice prior 0 0) = tail"
    by (auto simp: tail_def k_def py_slice_def slice_bound_def Let_def max_def min_def
        nat_diff_distrib')
  then show ?thesis
    using first_eos_loop_ref [OF assms k_def tail_def, of new "[]" new]
    by (simp add: first_eos_offset_def Let_def)
qed

text \<open>\<open>str.find\<close> finds the first occurrence, if there is one.\<close>

lemma py_find_from_bounds: "py_find_from i xs s = -1 \<or> i \<le> py_find_from i xs s" if "0 \<le> i"
  using that
proof (induction xs arbitrary: i)
  case (Cons x xs)
  then have "0 \<le> i + 1" by simp
  from Cons.IH [OF this] Cons.prems show ?case by auto
qed auto

lemma py_find_from_occurs: "0 \<le> i \<Longrightarrow> py_find_from i xs s \<noteq> -1 \<longleftrightarrow> sublist s xs"
proof (induction xs arbitrary: i)
  case Nil
  then show ?case by auto
next
  case (Cons x xs)
  then show ?case using Cons.IH [of "i + 1"] by (auto simp: sublist_Cons_right)
qed

lemma py_find_occurs: "0 \<le> py_find hay s \<longleftrightarrow> occurs s hay"
  using py_find_from_occurs [of 0 hay s] py_find_from_bounds [of 0 hay s]
  by (auto simp: py_find_def occurs_def)

lemma py_find_from_upper: "0 \<le> i \<Longrightarrow> s \<noteq> [] \<Longrightarrow> py_find_from i xs s < i + int (length xs)"
proof (induction xs arbitrary: i)
  case (Cons x xs)
  then have "0 \<le> i + 1" by simp
  from Cons.IH [OF this] Cons.prems show ?case by auto
qed auto

lemma py_find_upper: "s \<noteq> [] \<Longrightarrow> py_find hay s < int (length hay)"
  using py_find_from_upper [of 0 s hay] by (simp add: py_find_def)

lemma best_stop_sound:
  "best_stop hay p m ss = Some s \<Longrightarrow> m = Some s \<or> s \<in> set ss \<and> occurs s hay"
  by (induction ss arbitrary: p m) (auto simp: Let_def py_find_occurs split: if_splits)

lemma best_stop_keeps: "best_stop hay p (Some m) ss \<noteq> None"
  by (induction ss arbitrary: p m) (auto simp: Let_def)

lemma best_stop_complete:
  "best_stop hay p None ss = None \<Longrightarrow> s \<in> set ss \<Longrightarrow> \<not> (0 \<le> py_find hay s \<and> py_find hay s < p)"
proof (induction ss)
  case (Cons a ss)
  then show ?case by (auto simp: Let_def best_stop_keeps split: if_splits)
qed simp

text \<open>Of all stop strings that occur, none starts before the one reported.\<close>

lemma best_stop_leftmost:
  "best_stop hay p m ss = Some s \<Longrightarrow> (\<forall>s'. m = Some s' \<longrightarrow> py_find hay s' = p) \<Longrightarrow>
   s' \<in> set ss \<Longrightarrow> 0 \<le> py_find hay s' \<Longrightarrow> py_find hay s' < p \<Longrightarrow> py_find hay s \<le> py_find hay s'"
proof (induction ss arbitrary: p m)
  case (Cons a ss)
  have mono: "py_find hay s \<le> p'" if "best_stop hay p' (Some a') ss' = Some s" "py_find hay a' = p'"
    for p' a' ss'
    using that by (induction ss' arbitrary: p' a') (auto simp: Let_def split: if_splits, force)
  show ?case
  proof (cases "0 \<le> py_find hay a \<and> py_find hay a < p")
    case True
    with Cons.prems(1) have r: "best_stop hay (py_find hay a) (Some a) ss = Some s"
      by (simp add: Let_def)
    from mono [OF r] have le: "py_find hay s \<le> py_find hay a" by simp
    show ?thesis
    proof (cases "s' \<in> set ss \<and> py_find hay s' < py_find hay a")
      case True
      then show ?thesis using Cons.IH [OF r] Cons.prems by simp
    next
      case False
      with le Cons.prems(3) show ?thesis by auto
    qed
  next
    case False
    then show ?thesis using Cons by (auto simp: Let_def)
  qed
qed simp

lemma is_eos_from_string_fields [simp]:
  "eos_stop_strings (snd (is_eos_from_string p t)) = eos_stop_strings t"
  "max_stop_length (snd (is_eos_from_string p t)) = max_stop_length t"
  by (simp_all add: is_eos_from_string_def Let_def)

lemma feed_strings_fields [simp]:
  "eos_stop_strings (snd (feed_strings t ps)) = eos_stop_strings t"
  "max_stop_length (snd (feed_strings t ps)) = max_stop_length t"
proof (induction ps arbitrary: t)
  case (Cons p ps)
  { case 1 from Cons.IH(1) [of "snd (is_eos_from_string p t)"] show ?case
      by (simp add: case_prod_beta) }
  { case 2 from Cons.IH(2) [of "snd (is_eos_from_string p t)"] show ?case
      by (simp add: case_prod_beta) }
qed simp_all

text \<open>The tail kept is the end of all the text fed; it is all of it until the first truncation.\<close>

lemma py_slice_suffix: "suffix (py_slice xs a (int (length xs))) xs"
proof -
  have "slice_bound (int (length xs)) (int (length xs)) = int (length xs)"
    and "slice_bound (int (length xs)) a \<le> int (length xs)" and "0 \<le> slice_bound (int (length xs)) a"
    by (auto simp: slice_bound_def)
  then have "py_slice xs a (int (length xs)) = drop (nat (slice_bound (int (length xs)) a)) xs"
    by (simp add: py_slice_def Let_def)
  then show ?thesis by (simp add: suffix_drop)
qed

lemma tail_suffix:
  "eos_stop_strings t \<noteq> [] \<Longrightarrow>
   suffix (continuation_tail (snd (is_eos_from_string p t))) (continuation_tail t @ p)"
  using py_slice_suffix [of "continuation_tail t @ p" "- max_stop_length t"]
  by (simp add: is_eos_from_string_def Let_def)

lemma feed_tail_suffix:
  "eos_stop_strings t \<noteq> [] \<Longrightarrow>
   suffix (continuation_tail (snd (feed_strings t ps))) (continuation_tail t @ concat ps)"
proof (induction ps arbitrary: t)
  case (Cons p ps)
  let ?t = "snd (is_eos_from_string p t)"
  have "suffix (continuation_tail (snd (feed_strings ?t ps))) (continuation_tail ?t @ concat ps)"
    using Cons by simp
  also have "suffix \<dots> ((continuation_tail t @ p) @ concat ps)"
    using tail_suffix [OF Cons.prems, of p] by (auto simp: suffix_def)
  finally show ?case by (simp add: case_prod_beta)
qed simp

lemma feed_tail_exact:
  "eos_stop_strings t \<noteq> [] \<Longrightarrow>
   int (length (continuation_tail t @ concat ps)) \<le> 8 * max_stop_length t \<Longrightarrow>
   continuation_tail (snd (feed_strings t ps)) = continuation_tail t @ concat ps"
proof (induction ps arbitrary: t)
  case (Cons p ps)
  let ?t = "snd (is_eos_from_string p t)"
  have "continuation_tail ?t = continuation_tail t @ p"
    using Cons.prems by (simp add: is_eos_from_string_def Let_def)
  with Cons.IH [of ?t] Cons.prems show ?case by (simp add: case_prod_beta)
qed simp

section \<open>Properties\<close>

text \<open>
  C32. The bounded look-back of \<open>first_eos_offset\<close> is exact: for every tracker it returns the
  offset at which decoding one token at a time, with the whole history inspected after each
  token, would first stop, and \<open>None\<close> when it would not stop inside the span.
\<close>

theorem first_eos_offset_equiv:
  "first_eos_offset (EOSTracker_init ids seqs stops) prior_generated new_tokens =
   first_eos_ref (EOSTracker_init ids seqs stops) prior_generated 0 new_tokens"
  by (rule first_eos_offset_ref [OF EOSTracker_init_ok])

text \<open>
  A reported stop string is real: whatever decoded pieces were fed before, a match returned
  for the next piece is one of the stop strings and occurs in the text fed so far.
\<close>

theorem stop_string_sound:
  assumes "fst (is_eos_from_string p (snd (feed_strings (EOSTracker_init ids seqs stops) ps))) = Some s"
  shows "s \<in> set stops \<and> occurs s (concat ps @ p)"
proof -
  let ?tr = "EOSTracker_init ids seqs stops"
  let ?t = "snd (feed_strings ?tr ps)"
  have st: "eos_stop_strings ?tr = stops" "continuation_tail ?tr = []"
    by (simp_all add: EOSTracker_init_def)
  have ne: "stops \<noteq> []"
    using assms by (auto simp: is_eos_from_string_def st split: if_splits)
  let ?t' = "snd (is_eos_from_string p ?t)"
  have "suffix (continuation_tail ?t') (continuation_tail ?t @ p)"
    using tail_suffix [of ?t p] ne st by simp
  also have "suffix \<dots> (concat ps @ p)"
    using feed_tail_suffix [of ?tr ps] ne st by (auto simp: suffix_def)
  finally have suf: "suffix (continuation_tail ?t') (concat ps @ p)" .
  have "best_stop (continuation_tail ?t') (int (length (continuation_tail ?t'))) None stops = Some s"
    using assms ne st by (simp add: is_eos_from_string_def Let_def)
  from best_stop_sound [OF this] have "s \<in> set stops" "occurs s (continuation_tail ?t')" by auto
  with suf show ?thesis
    by (auto simp: occurs_def intro: sublist_order.order_trans suffix_imp_sublist)
qed

theorem stop_string_sound_witness:
  "fst (is_eos_from_string [2, 3] (snd (feed_strings (EOSTracker_init [] [] [[1, 2]]) [[9, 1]]))) =
     Some [1, 2] \<and> occurs [1, 2] (concat [[9, 1]] @ [2, 3])"
proof -
  have h: "fst (is_eos_from_string [2, 3] (snd (feed_strings (EOSTracker_init [] [] [[1, 2]]) [[9, 1]])))
      = Some [1, 2]"
    by (simp add: is_eos_from_string_def EOSTracker_init_def py_find_def Let_def)
  from stop_string_sound [OF h] h show ?thesis by simp
qed

text \<open>
  C33. As long as the text fed fits in eight times the longest stop string, detection is exact:
  a match is reported for a piece iff some stop string occurs in the text so far, and no other
  stop string starts to the left of the one reported.
\<close>

theorem stop_string_exact:
  assumes "[] \<notin> set stops" and "stops \<noteq> []"
    and "int (length (concat ps @ p)) \<le> 8 * max_default 0 (map (\<lambda>s. int (length s)) stops)"
  shows "(fst (is_eos_from_string p (snd (feed_strings (EOSTracker_init ids seqs stops) ps))) \<noteq> None
      \<longleftrightarrow> (\<exists>s \<in> set stops. occurs s (concat ps @ p))) \<and>
    (\<forall>s s'. fst (is_eos_from_string p (snd (feed_strings (EOSTracker_init ids seqs stops) ps))) = Some s
      \<longrightarrow> s' \<in> set stops \<longrightarrow> occurs s' (concat ps @ p) \<longrightarrow>
      py_find (concat ps @ p) s \<le> py_find (concat ps @ p) s')"
proof -
  let ?tr = "EOSTracker_init ids seqs stops"
  let ?t = "snd (feed_strings ?tr ps)"
  let ?hay = "concat ps @ p"
  have st: "eos_stop_strings ?tr = stops" "continuation_tail ?tr = []"
    and mx: "max_stop_length ?tr = max_default 0 (map (\<lambda>s. int (length s)) stops)"
    by (simp_all add: EOSTracker_init_def)
  have tail: "continuation_tail ?t = concat ps"
    using feed_tail_exact [of ?tr ps] assms st mx by simp
  have eq: "fst (is_eos_from_string p ?t) = best_stop ?hay (int (length ?hay)) None stops"
    using assms st mx tail by (simp add: is_eos_from_string_def Let_def)
  have up: "py_find ?hay s < int (length ?hay)" if "s \<in> set stops" for s
    using that assms(1) by (intro py_find_upper) auto
  have ex: "best_stop ?hay (int (length ?hay)) None stops \<noteq> None \<longleftrightarrow> (\<exists>s \<in> set stops. occurs s ?hay)"
  proof
    assume "best_stop ?hay (int (length ?hay)) None stops \<noteq> None"
    then show "\<exists>s \<in> set stops. occurs s ?hay" by (auto dest: best_stop_sound)
  next
    assume "\<exists>s \<in> set stops. occurs s ?hay"
    then obtain s where "s \<in> set stops" "0 \<le> py_find ?hay s"
      by (auto simp: py_find_occurs)
    with up [of s] show "best_stop ?hay (int (length ?hay)) None stops \<noteq> None"
      using best_stop_complete [of ?hay "int (length ?hay)" stops s] by auto
  qed
  have left: "py_find ?hay s \<le> py_find ?hay s'"
    if "best_stop ?hay (int (length ?hay)) None stops = Some s" "s' \<in> set stops" "occurs s' ?hay" for s s'
    using best_stop_leftmost [OF that(1) _ that(2)] that(3) up [OF that(2)]
    by (simp add: py_find_occurs)
  show ?thesis unfolding eq using ex left by blast
qed

theorem stop_string_exact_witness:
  "fst (is_eos_from_string [2] (snd (feed_strings (EOSTracker_init [] [] [[1, 2]]) [[1]]))) \<noteq> None"
proof -
  have h: "[] \<notin> set [[1, 2 :: nat]]" "[[1, 2 :: nat]] \<noteq> []"
    "int (length (concat [[1 :: nat]] @ [2])) \<le> 8 * max_default 0 (map (\<lambda>s. int (length s)) [[1, 2 :: nat]])"
    by simp_all
  have "\<exists>s \<in> set [[1, 2 :: nat]]. occurs s (concat [[1]] @ [2])"
    by (simp add: occurs_def)
  with stop_string_exact [OF h, of "[]" "[]"] show ?thesis by blast
qed

text \<open>
  When a piece makes the buffered text exceed eight times the longest stop string, the text
  is cut to that many characters before it is searched: a stop string that occurs in the text
  but in no stop-string-long end of it is missed, and it can never be found later.
\<close>

theorem stop_string_missed:
  assumes "eos_stop_strings t \<noteq> []"
    and "8 * max_stop_length t < int (length (continuation_tail t @ p))"
    and "\<And>s. s \<in> set (eos_stop_strings t) \<Longrightarrow>
      \<not> occurs s (py_slice (continuation_tail t @ p) (- max_stop_length t)
                    (int (length (continuation_tail t @ p))))"
  shows "fst (is_eos_from_string p t) = None"
proof -
  let ?tail = "py_slice (continuation_tail t @ p) (- max_stop_length t)
    (int (length (continuation_tail t @ p)))"
  have "fst (is_eos_from_string p t) =
      best_stop ?tail (int (length ?tail)) None (eos_stop_strings t)"
    using assms(1,2) by (simp add: is_eos_from_string_def Let_def)
  with assms(3) show ?thesis
    by (cases "best_stop ?tail (int (length ?tail)) None (eos_stop_strings t)")
      (auto dest: best_stop_sound)
qed

theorem stop_string_missed_witness:
  "let t = snd (feed_strings (EOSTracker_init [] [] [[1, 2]]) [[0,0,0,0,0,0,0,0,0,0,0,0,0,0,0,1]])
   in occurs [1, 2] (continuation_tail t @ [2, 0, 0]) \<and> fst (is_eos_from_string [2, 0, 0] t) = None"
proof -
  define t where "t = snd (feed_strings (EOSTracker_init [] [] [[1, 2]])
    [[0,0,0,0,0,0,0,0,0,0,0,0,0,0,0,1]])"
  have t: "eos_stop_strings t = [[1, 2]]" "max_stop_length t = 2"
    "continuation_tail t = [0,0,0,0,0,0,0,0,0,0,0,0,0,0,0,1]"
    by (simp_all add: t_def EOSTracker_init_def is_eos_from_string_def Let_def)
  have "fst (is_eos_from_string [2, 0, 0] t) = None"
    by (rule stop_string_missed)
      (simp_all add: t py_slice_def slice_bound_def occurs_def sublist_Cons_right)
  moreover have "occurs [1, 2] (continuation_tail t @ [2, 0, 0])"
    by (simp add: t occurs_def sublist_Cons_right)
  ultimately show ?thesis by (simp add: t_def Let_def)
qed

end
