(* ===== verification/Free_Queue.thy ===== *)
theory Free_Queue
  imports Prelude
begin

text \<open>
  The free-block queue of the paged KV cache, the class \<open>_FreeKVCacheBlockQueue\<close> of
  \<open>max/pipelines/kv_cache/paged_kv_cache/block_utils.py\<close>: a doubly linked list threaded
  through the blocks themselves, with a counter and a set of the free block ids.

  Blocks are objects with identity; within a pool the identity of a block is its \<open>bid\<close>, and
  the generated dataclass equality the code uses on blocks agrees with it. The two link
  attributes of the blocks, which only the queue manipulates, are the fields
  \<open>prev_free_block\<close> and \<open>next_free_block\<close>, functions from the block to its neighbour
  (the heap split by field). The interface locale \<open>lru_queue\<close> states what the pool relies
  on; the linked list is its instance.
\<close>

type_synonym bid = nat

section \<open>The linked list\<close>

record free_queue =
  num_free_blocks :: int
  free_blocks :: "bid set"
  free_list_head :: "bid option"
  free_list_tail :: "bid option"
  prev_free_block :: "bid \<Rightarrow> bid option"
  next_free_block :: "bid \<Rightarrow> bid option"

text \<open>One iteration of the constructor's linking loop over fresh blocks.\<close>

definition fq_link :: "bid list \<Rightarrow> free_queue \<Rightarrow> nat \<Rightarrow> free_queue" where
  "fq_link blocks q i =
     (let q = (if i > 0 then q\<lparr>prev_free_block := (prev_free_block q)(blocks ! i := Some (blocks ! (i - 1)))\<rparr>
               else q)
      in if i + 1 < length blocks
         then q\<lparr>next_free_block := (next_free_block q)(blocks ! i := Some (blocks ! (i + 1)))\<rparr>
         else q)"

definition fq_init :: "bid list \<Rightarrow> free_queue" where
  "fq_init blocks =
     foldl (fq_link blocks)
       \<lparr>num_free_blocks = int (length blocks), free_blocks = set blocks,
        free_list_head = (if blocks \<noteq> [] then Some (hd blocks) else None),
        free_list_tail = (if blocks \<noteq> [] then Some (last blocks) else None),
        prev_free_block = (\<lambda>_. None), next_free_block = (\<lambda>_. None)\<rparr>
       [0..<length blocks]"

definition fq_len :: "free_queue \<Rightarrow> int" where
  "fq_len q = num_free_blocks q"

definition fq_contains :: "bid \<Rightarrow> free_queue \<Rightarrow> bool" where
  "fq_contains b q \<longleftrightarrow> b \<in> free_blocks q"

definition fq_remove :: "bid \<Rightarrow> free_queue \<Rightarrow> free_queue result" where
  "fq_remove block q =
     (let q = (case prev_free_block q block of None \<Rightarrow> q
               | Some p \<Rightarrow> q\<lparr>next_free_block := (next_free_block q)(p := next_free_block q block)\<rparr>);
          q = (case next_free_block q block of None \<Rightarrow> q
               | Some n \<Rightarrow> q\<lparr>prev_free_block := (prev_free_block q)(n := prev_free_block q block)\<rparr>);
          q = (if free_list_head q = Some block
               then q\<lparr>free_list_head := next_free_block q block\<rparr> else q);
          q = (if free_list_tail q = Some block
               then q\<lparr>free_list_tail := prev_free_block q block\<rparr> else q);
          q = q\<lparr>prev_free_block := (prev_free_block q)(block := None),
                next_free_block := (next_free_block q)(block := None),
                num_free_blocks := num_free_blocks q - 1\<rparr>
      in raise_if (block \<notin> free_blocks q) KeyError
           (Inr (q\<lparr>free_blocks := free_blocks q - {block}\<rparr>)))"

definition fq_popleft :: "free_queue \<Rightarrow> (bid \<times> free_queue) result" where
  "fq_popleft q =
     (case free_list_head q of None \<Rightarrow> Inl ValueError
      | Some block \<Rightarrow> bind_r (fq_remove block q) (\<lambda>q. Inr (block, q)))"

definition fq_append :: "bid \<Rightarrow> free_queue \<Rightarrow> free_queue result" where
  "fq_append block q =
     bind_r
       (case free_list_tail q of
          Some t \<Rightarrow> Inr (q\<lparr>next_free_block := (next_free_block q)(t := Some block),
                         prev_free_block := (prev_free_block q)(block := Some t),
                         free_list_tail := Some block\<rparr>)
        | None \<Rightarrow> assert_r (free_list_head q = None)
            (Inr (q\<lparr>free_list_head := Some block, free_list_tail := Some block\<rparr>)))
       (\<lambda>q. Inr (q\<lparr>next_free_block := (next_free_block q)(block := None),
                   num_free_blocks := num_free_blocks q + 1,
                   free_blocks := insert block (free_blocks q)\<rparr>))"

section \<open>What the queue represents\<close>

text \<open>
  \<open>dseg P N p xs n\<close>: the blocks \<open>xs\<close> are chained in order by the links, the first one's
  predecessor is \<open>p\<close> and the last one's successor is \<open>n\<close>.
\<close>

fun dseg :: "(bid \<Rightarrow> bid option) \<Rightarrow> (bid \<Rightarrow> bid option) \<Rightarrow> bid option \<Rightarrow> bid list \<Rightarrow> bid option \<Rightarrow> bool" where
  "dseg P N p [] n = True"
| "dseg P N p [x] n = (P x = p \<and> N x = n)"
| "dseg P N p (x # y # xs) n = (P x = p \<and> N x = Some y \<and> dseg P N (Some x) (y # xs) n)"

definition hd_opt :: "'a list \<Rightarrow> 'a option" where
  "hd_opt xs = (if xs = [] then None else Some (hd xs))"

definition last_opt :: "'a list \<Rightarrow> 'a option" where
  "last_opt xs = (if xs = [] then None else Some (last xs))"

definition fq_rel :: "free_queue \<Rightarrow> bid list \<Rightarrow> bool" where
  "fq_rel q xs \<longleftrightarrow>
     distinct xs \<and> num_free_blocks q = int (length xs) \<and> free_blocks q = set xs \<and>
     free_list_head q = hd_opt xs \<and> free_list_tail q = last_opt xs \<and>
     dseg (prev_free_block q) (next_free_block q) None xs None \<and>
     (\<forall>b. b \<notin> set xs \<longrightarrow> prev_free_block q b = None \<and> next_free_block q b = None)"

text \<open>Walking the links from the head; the counter bounds the walk.\<close>

fun fq_walk :: "nat \<Rightarrow> (bid \<Rightarrow> bid option) \<Rightarrow> bid option \<Rightarrow> bid list" where
  "fq_walk 0 N p = []"
| "fq_walk (Suc k) N p = (case p of None \<Rightarrow> [] | Some b \<Rightarrow> b # fq_walk k N (N b))"

definition fq_abs :: "free_queue \<Rightarrow> bid list" where
  "fq_abs q = fq_walk (nat (num_free_blocks q)) (next_free_block q) (free_list_head q)"

definition fq_inv :: "free_queue \<Rightarrow> bool" where
  "fq_inv q \<longleftrightarrow> fq_rel q (fq_abs q)"

lemma hd_opt_simps [simp]: "hd_opt [] = None" "hd_opt (x # xs) = Some x"
  by (simp_all add: hd_opt_def)

lemma last_opt_simps [simp]: "last_opt [] = None" "last_opt (xs @ [x]) = Some x"
  by (simp_all add: last_opt_def)

lemma hd_opt_append: "hd_opt (xs @ ys) = (if xs = [] then hd_opt ys else hd_opt xs)"
  by (cases xs) simp_all

lemma last_opt_append: "last_opt (xs @ ys) = (if ys = [] then last_opt xs else last_opt ys)"
  by (simp add: last_opt_def)

lemma last_opt_Cons [simp]: "last_opt (x # xs) = (if xs = [] then Some x else last_opt xs)"
  by (simp add: last_opt_def)

lemma hd_opt_in: "hd_opt xs = Some b \<Longrightarrow> b \<in> set xs"
  by (cases xs) simp_all

lemma last_opt_in: "last_opt xs = Some b \<Longrightarrow> b \<in> set xs"
  by (auto simp: last_opt_def split: if_splits)

lemma dseg_Cons:
  "dseg P N p (x # xs) n \<longleftrightarrow>
     P x = p \<and> N x = (if xs = [] then n else hd_opt xs) \<and> dseg P N (Some x) xs n"
  by (cases xs) simp_all

lemma dseg_append:
  "dseg P N p (xs @ ys) n \<longleftrightarrow>
     dseg P N p xs (if ys = [] then n else hd_opt ys) \<and>
     dseg P N (if xs = [] then p else last_opt xs) ys n"
proof (induction xs arbitrary: p)
  case (Cons x xs)
  show ?case
    unfolding append_Cons dseg_Cons Cons.IH by (auto simp: hd_opt_append last_opt_Cons)
qed simp

lemma dseg_cong:
  "(\<And>x. x \<in> set xs \<Longrightarrow> P x = P' x) \<Longrightarrow> (\<And>x. x \<in> set xs \<Longrightarrow> N x = N' x) \<Longrightarrow>
   dseg P N p xs n = dseg P' N' p xs n"
  by (induction xs arbitrary: p) (auto simp: dseg_Cons)

lemma dseg_upd [simp]:
  "b \<notin> set xs \<Longrightarrow> dseg (P(b := v)) N p xs n = dseg P N p xs n"
  "b \<notin> set xs \<Longrightarrow> dseg P (N(b := v)) p xs n = dseg P N p xs n"
  by (auto intro!: dseg_cong)

lemma fq_walk_dseg: "dseg P N p xs None \<Longrightarrow> length xs \<le> k \<Longrightarrow> fq_walk k N (hd_opt xs) = xs"
proof (induction xs arbitrary: p k)
  case Nil
  then show ?case by (cases k) simp_all
next
  case (Cons x xs)
  then obtain k' where k: "k = Suc k'" by (cases k) auto
  from Cons.prems have "N x = hd_opt xs" "dseg P N (Some x) xs None"
    by (cases xs; simp add: dseg_Cons)+
  with Cons.IH [of "Some x" k'] Cons.prems k show ?case by simp
qed

lemma fq_rel_abs: "fq_rel q xs \<Longrightarrow> fq_abs q = xs"
  by (auto simp: fq_rel_def fq_abs_def intro: fq_walk_dseg)

lemma fq_rel_inv: "fq_rel q xs \<Longrightarrow> fq_inv q"
  by (simp add: fq_inv_def fq_rel_abs)

section \<open>The operations on the represented list\<close>

text \<open>The constructor links the given blocks in order.\<close>

lemma fq_link_fields [simp]:
  "prev_free_block (fq_link xs q i) =
     (if 0 < i then (prev_free_block q)(xs ! i := Some (xs ! (i - 1))) else prev_free_block q)"
  "next_free_block (fq_link xs q i) =
     (if Suc i < length xs then (next_free_block q)(xs ! i := Some (xs ! Suc i)) else next_free_block q)"
  "num_free_blocks (fq_link xs q i) = num_free_blocks q"
  "free_blocks (fq_link xs q i) = free_blocks q"
  "free_list_head (fq_link xs q i) = free_list_head q"
  "free_list_tail (fq_link xs q i) = free_list_tail q"
  by (simp_all add: fq_link_def Let_def)

lemma fq_link_fold_frame:
  "num_free_blocks (foldl (fq_link xs) q is) = num_free_blocks q"
  "free_blocks (foldl (fq_link xs) q is) = free_blocks q"
  "free_list_head (foldl (fq_link xs) q is) = free_list_head q"
  "free_list_tail (foldl (fq_link xs) q is) = free_list_tail q"
  by (induction "is" arbitrary: q) simp_all

lemma fq_link_fold_links:
  assumes "distinct xs" and "k \<le> length xs"
    and "prev_free_block q = (\<lambda>_. None)" and "next_free_block q = (\<lambda>_. None)"
  shows "(\<forall>i < length xs.
      prev_free_block (foldl (fq_link xs) q [0..<k]) (xs ! i) =
        (if 0 < i \<and> i < k then Some (xs ! (i - 1)) else None) \<and>
      next_free_block (foldl (fq_link xs) q [0..<k]) (xs ! i) =
        (if i < k \<and> Suc i < length xs then Some (xs ! Suc i) else None)) \<and>
    (\<forall>b. b \<notin> set xs \<longrightarrow> prev_free_block (foldl (fq_link xs) q [0..<k]) b = None \<and>
      next_free_block (foldl (fq_link xs) q [0..<k]) b = None)"
  using assms(2)
proof (induction k)
  case 0
  then show ?case using assms by simp
next
  case (Suc k)
  then have IH: "(\<forall>i < length xs.
      prev_free_block (foldl (fq_link xs) q [0..<k]) (xs ! i) =
        (if 0 < i \<and> i < k then Some (xs ! (i - 1)) else None) \<and>
      next_free_block (foldl (fq_link xs) q [0..<k]) (xs ! i) =
        (if i < k \<and> Suc i < length xs then Some (xs ! Suc i) else None))"
    "(\<forall>b. b \<notin> set xs \<longrightarrow> prev_free_block (foldl (fq_link xs) q [0..<k]) b = None \<and>
      next_free_block (foldl (fq_link xs) q [0..<k]) b = None)" by simp_all
  have "k < length xs" using Suc.prems by simp
  with IH assms(1) show ?case
    by (auto simp: nth_eq_iff_index_eq less_Suc_eq)
qed

lemma dseg_nth:
  "dseg P N p xs n \<longleftrightarrow>
   (\<forall>i < length xs. P (xs ! i) = (if i = 0 then p else Some (xs ! (i - 1))) \<and>
      N (xs ! i) = (if Suc i < length xs then Some (xs ! Suc i) else n))"
proof (induction xs arbitrary: p)
  case (Cons x xs)
  have hd: "(if xs = [] then n else hd_opt xs) = (if Suc 0 < length (x # xs) then Some (xs ! 0) else n)"
    by (cases xs) simp_all
  have eq: "(if i = 0 then Some x else Some (xs ! (i - 1))) = Some ((x # xs) ! i)" for i
    by (cases i) simp_all
  show ?case
    unfolding dseg_Cons Cons.IH hd eq by (simp add: All_less_Suc2)
qed simp

lemma fq_init_rel:
  assumes "distinct xs"
  shows "fq_rel (fq_init xs) xs"
proof -
  let ?q = "\<lparr>num_free_blocks = int (length xs), free_blocks = set xs,
        free_list_head = (if xs \<noteq> [] then Some (hd xs) else None),
        free_list_tail = (if xs \<noteq> [] then Some (last xs) else None),
        prev_free_block = (\<lambda>_. None), next_free_block = (\<lambda>_. None)\<rparr>"
  have l: "(\<forall>i < length xs.
      prev_free_block (fq_init xs) (xs ! i) = (if 0 < i then Some (xs ! (i - 1)) else None) \<and>
      next_free_block (fq_init xs) (xs ! i) = (if Suc i < length xs then Some (xs ! Suc i) else None)) \<and>
    (\<forall>b. b \<notin> set xs \<longrightarrow> prev_free_block (fq_init xs) b = None \<and> next_free_block (fq_init xs) b = None)"
    using fq_link_fold_links [OF assms order_refl, of ?q] by (simp add: fq_init_def)
  then have "dseg (prev_free_block (fq_init xs)) (next_free_block (fq_init xs)) None xs None"
    unfolding dseg_nth by auto
  with assms l show ?thesis
    by (cases xs) (simp_all add: fq_rel_def last_opt_def fq_init_def fq_link_fold_frame)
qed

text \<open>\<open>remove\<close> takes the block out of the chain, wherever it is.\<close>

lemma fq_remove_rel:
  assumes "fq_rel q (as @ b # bs)"
  shows "\<exists>q'. fq_remove b q = Inr q' \<and> fq_rel q' (as @ bs)"
proof -
  let ?P = "prev_free_block q" and ?N = "next_free_block q"
  have d: "distinct (as @ b # bs)" and segs: "dseg ?P ?N None as (Some b)"
      "dseg ?P ?N (Some b) bs None"
    and pb: "?P b = last_opt as" and nb: "?N b = hd_opt bs"
    using assms by (auto simp: fq_rel_def dseg_append dseg_Cons last_opt_def split: if_splits)
  have hd: "free_list_head q = hd_opt (as @ b # bs)" and tl: "free_list_tail q = last_opt (as @ b # bs)"
    and fr: "free_blocks q = set (as @ b # bs)" and nm: "num_free_blocks q = int (length (as @ b # bs))"
    and out: "\<And>c. c \<notin> set (as @ b # bs) \<Longrightarrow> ?P c = None \<and> ?N c = None"
    using assms by (auto simp: fq_rel_def)
  show ?thesis
  proof (cases as rule: rev_cases)
    case Nil
    show ?thesis
    proof (cases bs)
      case Nil
      with \<open>as = []\<close> show ?thesis
        using pb nb hd tl fr nm out
        by (simp add: fq_remove_def Let_def fq_rel_def last_opt_def)
    next
      case (Cons y ys)
      with \<open>as = []\<close> show ?thesis
        using pb nb hd tl fr nm out d segs
        by (auto simp add: fq_remove_def Let_def fq_rel_def last_opt_def dseg_Cons)
    qed
  next
    case (snoc xs x)
    show ?thesis
    proof (cases bs)
      case Nil
      with snoc show ?thesis
        using pb nb hd tl fr nm out d segs
        by (auto simp add: fq_remove_def Let_def fq_rel_def last_opt_append hd_opt_append dseg_append dest: hd_opt_in)
    next
      case (Cons y ys)
      with snoc show ?thesis
        using pb nb hd tl fr nm out d segs
        by (auto simp add: fq_remove_def Let_def fq_rel_def last_opt_append
            hd_opt_append dseg_append dseg_Cons dest: hd_opt_in last_opt_in)
    qed
  qed
qed

lemma fq_append_rel:
  assumes "fq_rel q xs" and "b \<notin> set xs"
  shows "\<exists>q'. fq_append b q = Inr q' \<and> fq_rel q' (xs @ [b])"
proof (cases xs rule: rev_cases)
  case Nil
  with assms show ?thesis
    by (auto simp: fq_append_def fq_rel_def last_opt_def)
next
  case (snoc ys y)
  with assms show ?thesis
    by (auto simp: fq_append_def fq_rel_def dseg_append last_opt_append hd_opt_append split: if_splits)
qed

lemma fq_remove_missing:
  assumes "fq_rel q xs" and "b \<notin> set xs"
  shows "fq_remove b q = Inl KeyError"
  using assms by (auto simp: fq_remove_def fq_rel_def Let_def split: option.splits)

lemma fq_popleft_rel:
  assumes "fq_rel q xs"
  shows "xs = [] \<and> fq_popleft q = Inl ValueError \<or>
    (\<exists>b bs q'. xs = b # bs \<and> fq_popleft q = Inr (b, q') \<and> fq_rel q' bs)"
proof (cases xs)
  case Nil
  with assms show ?thesis by (simp add: fq_popleft_def fq_rel_def)
next
  case (Cons b bs)
  with fq_remove_rel [of q "[]" b bs] assms obtain q' where
    "fq_remove b q = Inr q'" "fq_rel q' bs" by auto
  moreover have "free_list_head q = Some b" using assms Cons by (simp add: fq_rel_def)
  ultimately show ?thesis using Cons by (simp add: fq_popleft_def)
qed

section \<open>The interface\<close>

text \<open>
  What the block pools rely on: a queue of distinct blocks in least-recently-freed order,
  from which the front block or any given block can be taken and to whose back a block can be
  returned.
\<close>

locale lru_queue =
  fixes popleft :: "'q \<Rightarrow> (bid \<times> 'q) result"
    and remove :: "bid \<Rightarrow> 'q \<Rightarrow> 'q result"
    and append :: "bid \<Rightarrow> 'q \<Rightarrow> 'q result"
    and len :: "'q \<Rightarrow> int"
    and contains :: "bid \<Rightarrow> 'q \<Rightarrow> bool"
    and abs :: "'q \<Rightarrow> bid list"
    and inv :: "'q \<Rightarrow> bool"
  assumes inv_distinct: "inv q \<Longrightarrow> distinct (abs q)"
    and len_abs: "inv q \<Longrightarrow> len q = int (length (abs q))"
    and contains_abs: "inv q \<Longrightarrow> contains b q \<longleftrightarrow> b \<in> set (abs q)"
    and popleft_Nil: "inv q \<Longrightarrow> abs q = [] \<Longrightarrow> popleft q = Inl ValueError"
    and popleft_Cons: "inv q \<Longrightarrow> abs q = b # bs \<Longrightarrow>
      \<exists>q'. popleft q = Inr (b, q') \<and> inv q' \<and> abs q' = bs"
    and remove_in: "inv q \<Longrightarrow> b \<in> set (abs q) \<Longrightarrow>
      \<exists>q'. remove b q = Inr q' \<and> inv q' \<and> abs q' = remove1 b (abs q)"
    and remove_notin: "inv q \<Longrightarrow> b \<notin> set (abs q) \<Longrightarrow> remove b q = Inl KeyError"
    and append_abs: "inv q \<Longrightarrow> b \<notin> set (abs q) \<Longrightarrow>
      \<exists>q'. append b q = Inr q' \<and> inv q' \<and> abs q' = abs q @ [b]"
begin

lemma popleft_iff:
  assumes "inv q"
  shows "popleft q = Inr (b, q') \<Longrightarrow> inv q' \<and> abs q = b # abs q'"
  using assms popleft_Nil [OF assms] popleft_Cons [OF assms] by (cases "abs q") force+

lemma remove_iff:
  assumes "inv q" and "remove b q = Inr q'"
  shows "inv q' \<and> b \<in> set (abs q) \<and> abs q' = remove1 b (abs q) \<and> len q' = len q - 1"
proof -
  have b: "b \<in> set (abs q)" using assms remove_notin [OF assms(1), of b] by auto
  then have "inv q'" "abs q' = remove1 b (abs q)"
    using remove_in [OF assms(1) b] assms(2) by auto
  moreover have "length (abs q) > 0" using b by (cases "abs q") auto
  ultimately show ?thesis
    using b assms(1) by (simp add: len_abs length_remove1 of_nat_diff Suc_leI)
qed

lemma append_iff:
  assumes "inv q" and "b \<notin> set (abs q)" and "append b q = Inr q'"
  shows "inv q' \<and> abs q' = abs q @ [b] \<and> len q' = len q + 1"
  using append_abs [OF assms(1,2)] assms(1,3) by (auto simp: len_abs)

text \<open>Returning a list of blocks appends them in order.\<close>

lemma append_all:
  assumes "inv q" and "distinct bs" and "set bs \<inter> set (abs q) = {}"
  shows "\<exists>q'. fold_r (\<lambda>q b. append b q) q bs = Inr q' \<and> inv q' \<and> abs q' = abs q @ bs"
  using assms
proof (induction bs arbitrary: q)
  case Nil
  then show ?case by simp
next
  case (Cons b bs)
  then obtain q1 where q1: "append b q = Inr q1" "inv q1" "abs q1 = abs q @ [b]"
    using append_abs [of q b] by auto
  from Cons.IH [OF q1(2)] Cons.prems q1 show ?case by auto
qed

text \<open>Taking blocks repeatedly hands them out in queue order.\<close>

lemma popleft_all:
  assumes "inv q" and "k \<le> length (abs q)"
  shows "\<exists>q'. fold_r (\<lambda>(out, q) (_ :: nat). bind_r (popleft q) (\<lambda>(b, q). Inr (out @ [b], q)))
      ([], q) [0..<k] = Inr (take k (abs q), q') \<and> inv q' \<and> abs q' = drop k (abs q)"
  using assms(2)
proof (induction k)
  case 0
  then show ?case using assms(1) by simp
next
  case (Suc k)
  then obtain q1 where q1: "inv q1" "abs q1 = drop k (abs q)"
    "fold_r (\<lambda>(out, q) (_ :: nat). bind_r (popleft q) (\<lambda>(b, q). Inr (out @ [b], q)))
      ([], q) [0..<k] = Inr (take k (abs q), q1)" by auto
  have "abs q1 = abs q ! k # drop (Suc k) (abs q)"
    using q1(2) Suc.prems by (simp add: Cons_nth_drop_Suc)
  from popleft_Cons [OF q1(1) this] q1(3) Suc.prems show ?case
    by (auto simp: fold_r_append take_Suc_conv_app_nth)
qed

end

text \<open>The linked list implements the interface.\<close>

lemma fq_rel_fields: "fq_rel q xs \<Longrightarrow> distinct xs \<and> num_free_blocks q = int (length xs) \<and> free_blocks q = set xs"
  by (simp add: fq_rel_def)

interpretation fq: lru_queue fq_popleft fq_remove fq_append fq_len fq_contains fq_abs fq_inv
proof (unfold_locales, goal_cases)
  case (1 q)
  then show ?case by (auto simp: fq_inv_def dest: fq_rel_fields)
next
  case (2 q)
  then show ?case by (auto simp: fq_inv_def fq_len_def dest: fq_rel_fields)
next
  case (3 q b)
  then show ?case by (auto simp: fq_inv_def fq_contains_def dest: fq_rel_fields)
next
  case (4 q)
  then show ?case using fq_popleft_rel [of q "fq_abs q"] by (auto simp: fq_inv_def)
next
  case (5 q b bs)
  then obtain q' where "fq_popleft q = Inr (b, q')" "fq_rel q' bs"
    using fq_popleft_rel [of q "fq_abs q"] by (auto simp: fq_inv_def)
  then show ?case using fq_rel_inv fq_rel_abs by blast
next
  case (6 q b)
  then obtain as bs where ab: "fq_abs q = as @ b # bs" "b \<notin> set as"
    using split_list_first by fast
  with 6 obtain q' where "fq_remove b q = Inr q'" "fq_rel q' (as @ bs)"
    using fq_remove_rel [of q as b bs] by (auto simp: fq_inv_def)
  moreover have "remove1 b (fq_abs q) = as @ bs" using ab by (simp add: remove1_append)
  ultimately show ?case using fq_rel_inv fq_rel_abs by metis
next
  case (7 q b)
  then show ?case using fq_remove_missing by (auto simp: fq_inv_def)
next
  case (8 q b)
  then show ?case using fq_append_rel [of q "fq_abs q" b] fq_rel_inv fq_rel_abs
    by (metis fq_inv_def)
qed

section \<open>Properties\<close>

text \<open>
  C37. The doubly linked free list refines an ordinary list: on a well-formed queue that
  contains the block, \<open>remove\<close> succeeds from any position and deletes exactly that block,
  and the queue's order, counter, id set and links stay consistent.
\<close>

theorem free_queue_remove_refines:
  assumes "fq_inv q" and "b \<in> set (fq_abs q)"
  shows "\<exists>q'. fq_remove b q = Inr q' \<and> fq_inv q' \<and> fq_abs q' = remove1 b (fq_abs q) \<and>
    fq_len q' = fq_len q - 1 \<and> \<not> fq_contains b q'"
proof -
  from fq.remove_in [OF assms] obtain q' where
    q': "fq_remove b q = Inr q'" "fq_inv q'" "fq_abs q' = remove1 b (fq_abs q)" by blast
  with fq.remove_iff [OF assms(1) q'(1)] fq.inv_distinct [OF assms(1)] show ?thesis
    by (auto simp: fq.contains_abs)
qed

lemma fq_init_inv: "distinct xs \<Longrightarrow> fq_inv (fq_init xs) \<and> fq_abs (fq_init xs) = xs"
  using fq_init_rel fq_rel_inv fq_rel_abs by blast

theorem free_queue_remove_refines_witness:
  "\<exists>q'. fq_remove 1 (fq_init [0, 1, 2]) = Inr q' \<and> fq_abs q' = [0, 2]"
proof -
  have i: "fq_inv (fq_init [0, 1, 2])" "fq_abs (fq_init [0, 1, 2]) = [0, 1, 2]"
    using fq_init_inv [of "[0, 1, 2]"] by simp_all
  then have "1 \<in> set (fq_abs (fq_init [0, 1, 2]))" by simp
  from free_queue_remove_refines [OF i(1) this] i(2) show ?thesis by auto
qed

text \<open>
  Eviction order is first in, first out: blocks returned to a well-formed queue are handed
  out again by \<open>popleft\<close> only after every block that was already waiting, and in the order
  in which they were returned.
\<close>

theorem free_queue_fifo:
  assumes "fq_inv q" and "distinct bs" and "set bs \<inter> set (fq_abs q) = {}"
  shows "\<exists>q1 q2. fold_r (\<lambda>q b. fq_append b q) q bs = Inr q1 \<and>
    fold_r (\<lambda>(out, q) (_ :: nat). bind_r (fq_popleft q) (\<lambda>(b, q). Inr (out @ [b], q)))
      ([], q1) [0..<length (fq_abs q) + length bs] = Inr (fq_abs q @ bs, q2) \<and> fq_len q2 = 0"
proof -
  from fq.append_all [OF assms] obtain q1 where
    q1: "fold_r (\<lambda>q b. fq_append b q) q bs = Inr q1" "fq_inv q1" "fq_abs q1 = fq_abs q @ bs" by blast
  then have "length (fq_abs q) + length bs \<le> length (fq_abs q1)" by simp
  from fq.popleft_all [OF q1(2) this] q1 show ?thesis
    by (auto simp: fq.len_abs)
qed

theorem free_queue_fifo_witness:
  "\<exists>q1 q2. fold_r (\<lambda>q b. fq_append b q) (fq_init [3, 4]) [1, 0] = Inr q1 \<and>
    fold_r (\<lambda>(out, q) (_ :: nat). bind_r (fq_popleft q) (\<lambda>(b, q). Inr (out @ [b], q)))
      ([], q1) [0..<4] = Inr ([3, 4, 1, 0], q2) \<and> fq_len q2 = 0"
proof -
  have i: "fq_inv (fq_init [3, 4])" "fq_abs (fq_init [3, 4]) = [3, 4]"
    using fq_init_inv [of "[3, 4]"] by simp_all
  have "distinct [1, 0 :: bid]" "set [1, 0] \<inter> set (fq_abs (fq_init [3, 4])) = {}"
    using i by simp_all
  note fifo = free_queue_fifo [OF i(1) this]
  have "length (fq_abs (fq_init [3, 4])) + length [1, 0 :: bid] = 4" using i by simp
  from fifo [unfolded this, unfolded i(2)] show ?thesis by simp
qed

end
