(* ===== verification/Block_Pool.thy ===== *)
theory Block_Pool
  imports Free_Queue
begin

text \<open>
  The device block pool, \<open>max/pipelines/kv_cache/paged_kv_cache/block_pool.py\<close>, with the
  block metadata \<open>KVCacheBlock\<close> of \<open>block_utils.py\<close>: reference counts, the free queue,
  and the prefix cache from block hashes to committed blocks. The blocks live in the store
  \<open>blocks\<close>, indexed by block id; the reserved null block has the id \<open>total_num_blocks\<close>.
  The link attributes of a block are part of the queue's state (theory \<open>Free_Queue\<close>).
  The logging call of \<open>reset_prefix_cache\<close> is not modelled.
\<close>

section \<open>State and operations\<close>

record kv_block =
  ref_cnt :: int
  block_hash :: "bytes option"
  is_null :: bool

record block_pool =
  total_num_blocks :: nat
  enable_runtime_checks :: bool
  blocks :: "bid \<Rightarrow> kv_block"
  free_block_queue :: free_queue
  prefix_cache :: "(bytes, bid) dict"
  null_block :: bid

definition BlockPool_init :: "nat \<Rightarrow> bool \<Rightarrow> block_pool" where
  "BlockPool_init n checks =
     \<lparr>total_num_blocks = n, enable_runtime_checks = checks,
      blocks = (\<lambda>_. \<lparr>ref_cnt = 0, block_hash = None, is_null = False\<rparr>)
        (n := \<lparr>ref_cnt = 42, block_hash = None, is_null = True\<rparr>),
      free_block_queue = fq_init [0..<n], prefix_cache = [], null_block = n\<rparr>"

definition upd_block :: "bid \<Rightarrow> (kv_block \<Rightarrow> kv_block) \<Rightarrow> block_pool \<Rightarrow> block_pool" where
  "upd_block b f p = p\<lparr>blocks := (blocks p)(b := f (blocks p b))\<rparr>"

definition set_hash :: "bid \<Rightarrow> bytes option \<Rightarrow> block_pool \<Rightarrow> block_pool" where
  "set_hash b h p = upd_block b (\<lambda>k. k\<lparr>block_hash := h\<rparr>) p"

definition add_ref :: "bid \<Rightarrow> int \<Rightarrow> block_pool \<Rightarrow> block_pool" where
  "add_ref b d p = upd_block b (\<lambda>k. k\<lparr>ref_cnt := ref_cnt k + d\<rparr>) p"

definition commit_into_prefix_cache :: "bytes \<Rightarrow> bid \<Rightarrow> block_pool \<Rightarrow> block_pool result" where
  "commit_into_prefix_cache h b p =
     raise_if (is_null (blocks p b)) ValueError
     (assert_r (block_hash (blocks p b) = None)
     (let p = set_hash b (Some h) p in
      assert_r (map_of (prefix_cache p) h = None)
        (Inr (p\<lparr>prefix_cache := AList.update h b (prefix_cache p)\<rparr>))))"

definition touch :: "bid \<Rightarrow> block_pool \<Rightarrow> block_pool result" where
  "touch b p =
     bind_r
       (if ref_cnt (blocks p b) = 0
        then bind_r (fq_remove b (free_block_queue p)) (\<lambda>q. Inr (p\<lparr>free_block_queue := q\<rparr>))
        else Inr p)
       (\<lambda>p. Inr (add_ref b 1 p))"

definition free_block :: "bid \<Rightarrow> block_pool \<Rightarrow> block_pool result" where
  "free_block b p =
     (if is_null (blocks p b) then Inr p
      else
        let p = add_ref b (- 1) p in
        assert_r (ref_cnt (blocks p b) \<ge> 0)
          (if ref_cnt (blocks p b) = 0
           then bind_r (fq_append b (free_block_queue p)) (\<lambda>q. Inr (p\<lparr>free_block_queue := q\<rparr>))
           else Inr p))"

definition get_or_commit_into_prefix_cache ::
  "bytes \<Rightarrow> bid \<Rightarrow> block_pool \<Rightarrow> (bid option \<times> block_pool) result" where
  "get_or_commit_into_prefix_cache h b p =
     (case map_of (prefix_cache p) h of
        Some cached \<Rightarrow>
          if b = cached then Inr (None, p)
          else bind_r (touch cached p) (\<lambda>p.
               assert_r (block_hash (blocks p b) = None)
               (bind_r (free_block b p) (\<lambda>p. Inr (Some cached, p))))
      | None \<Rightarrow> bind_r (commit_into_prefix_cache h b p) (\<lambda>p. Inr (None, p)))"

definition uncommit_block :: "bid \<Rightarrow> block_pool \<Rightarrow> block_pool result" where
  "uncommit_block b p =
     (case block_hash (blocks p b) of
        None \<Rightarrow> Inl AssertionError
      | Some h \<Rightarrow>
          if map_of (prefix_cache p) h = None then Inr p
          else Inr (set_hash b None (p\<lparr>prefix_cache := AList.delete h (prefix_cache p)\<rparr>)))"

definition alloc_block :: "block_pool \<Rightarrow> ((bid \<times> bytes option) \<times> block_pool) result" where
  "alloc_block p =
     bind_r (fq_popleft (free_block_queue p)) (\<lambda>(b, q).
     let p = p\<lparr>free_block_queue := q\<rparr> in
     assert_r (ref_cnt (blocks p b) = 0)
     (let h = block_hash (blocks p b) in
      bind_r (if h \<noteq> None then uncommit_block b p else Inr p) (\<lambda>p.
      let p = add_ref b 1 p in
      assert_r (block_hash (blocks p b) = None) (Inr ((b, h), p)))))"

definition pool_free_blocks :: "block_pool \<Rightarrow> bid set" where
  "pool_free_blocks p = free_blocks (free_block_queue p)"

definition pool_num_free_blocks :: "block_pool \<Rightarrow> int" where
  "pool_num_free_blocks p = num_free_blocks (free_block_queue p)"

text \<open>The first loop of \<open>reset_prefix_cache\<close>: clear the hash of unreferenced blocks.\<close>

definition purge_entry ::
  "block_pool \<times> bytes list \<Rightarrow> bytes \<times> bid \<Rightarrow> (block_pool \<times> bytes list) result" where
  "purge_entry st entry =
     (let (p, blocks_to_purge) = st; (h, b) = entry in
      assert_r (block_hash (blocks p b) \<noteq> None)
        (if ref_cnt (blocks p b) > 0 then Inr (p, blocks_to_purge)
         else Inr (set_hash b None p, blocks_to_purge @ [h])))"

definition pool_reset_prefix_cache :: "block_pool \<Rightarrow> block_pool result" where
  "pool_reset_prefix_cache p =
     bind_r (fold_r purge_entry (p, []) (prefix_cache p)) (\<lambda>(p, blocks_to_purge).
       Inr (foldl (\<lambda>p h. p\<lparr>prefix_cache := AList.delete h (prefix_cache p)\<rparr>) p blocks_to_purge))"

definition pool_assert_runtime_invariants :: "bid list \<Rightarrow> block_pool \<Rightarrow> unit result" where
  "pool_assert_runtime_invariants active_bids p =
     (if \<not> enable_runtime_checks p then Inr ()
      else
        assert_r (list_all (\<lambda>(h, b). block_hash (blocks p b) \<noteq> None \<and>
                                     block_hash (blocks p b) = Some h) (prefix_cache p))
        (assert_r (pool_num_free_blocks p + int (card (set active_bids)) = int (total_num_blocks p))
           (Inr ())))"

section \<open>The pool invariant\<close>

text \<open>
  The free queue holds exactly the unreferenced blocks, counts are non-negative, only the null
  block is null, and the prefix cache and the blocks' own hashes say the same thing.
\<close>

definition pool_inv :: "block_pool \<Rightarrow> bool" where
  "pool_inv p \<longleftrightarrow>
     fq_inv (free_block_queue p) \<and>
     set (fq_abs (free_block_queue p)) = {b. b < total_num_blocks p \<and> ref_cnt (blocks p b) = 0} \<and>
     (\<forall>b < total_num_blocks p. 0 \<le> ref_cnt (blocks p b) \<and> \<not> is_null (blocks p b)) \<and>
     null_block p = total_num_blocks p \<and> is_null (blocks p (total_num_blocks p)) \<and>
     block_hash (blocks p (total_num_blocks p)) = None \<and>
     0 < ref_cnt (blocks p (total_num_blocks p)) \<and>
     distinct (map fst (prefix_cache p)) \<and>
     (\<forall>h b. map_of (prefix_cache p) h = Some b \<longleftrightarrow>
        b < total_num_blocks p \<and> block_hash (blocks p b) = Some h)"

abbreviation free_list :: "block_pool \<Rightarrow> bid list" where
  "free_list p \<equiv> fq_abs (free_block_queue p)"

lemma upd_block_simps [simp]:
  "blocks (upd_block b f p) = (blocks p)(b := f (blocks p b))"
  "total_num_blocks (upd_block b f p) = total_num_blocks p"
  "enable_runtime_checks (upd_block b f p) = enable_runtime_checks p"
  "free_block_queue (upd_block b f p) = free_block_queue p"
  "prefix_cache (upd_block b f p) = prefix_cache p"
  "null_block (upd_block b f p) = null_block p"
  by (simp_all add: upd_block_def)

lemma pool_invD:
  assumes "pool_inv p"
  shows "fq_inv (free_block_queue p)"
    and "set (free_list p) = {b. b < total_num_blocks p \<and> ref_cnt (blocks p b) = 0}"
    and "b < total_num_blocks p \<Longrightarrow> 0 \<le> ref_cnt (blocks p b)"
    and "b < total_num_blocks p \<Longrightarrow> \<not> is_null (blocks p b)"
    and "distinct (map fst (prefix_cache p))"
    and "map_of (prefix_cache p) h = Some b \<longleftrightarrow>
      b < total_num_blocks p \<and> block_hash (blocks p b) = Some h"
  using assms by (auto simp: pool_inv_def)

lemma pool_num_free: "pool_inv p \<Longrightarrow> pool_num_free_blocks p = int (length (free_list p))"
  using fq.len_abs [of "free_block_queue p"]
  by (simp add: pool_inv_def pool_num_free_blocks_def fq_len_def)

lemma BlockPool_init_inv: "pool_inv (BlockPool_init n checks)"
  using fq_init_inv [of "[0..<n]"] by (auto simp: pool_inv_def BlockPool_init_def)

lemma BlockPool_init_free: "free_list (BlockPool_init n checks) = [0..<n]"
  using fq_init_inv [of "[0..<n]"] by (simp add: BlockPool_init_def)

definition pool_frame :: "block_pool \<Rightarrow> block_pool \<Rightarrow> bool" where
  "pool_frame p p' \<longleftrightarrow> total_num_blocks p' = total_num_blocks p \<and> null_block p' = null_block p \<and>
     enable_runtime_checks p' = enable_runtime_checks p"

lemma pool_frame_refl [simp]: "pool_frame p p"
  by (simp add: pool_frame_def)

lemma pool_frame_trans: "pool_frame p q \<Longrightarrow> pool_frame q r \<Longrightarrow> pool_frame p r"
  by (simp add: pool_frame_def)

section \<open>Every operation succeeds and keeps the invariant\<close>

lemma pool_inv_ref:
  assumes "pool_inv p" and "pool_frame p p'" and "prefix_cache p' = prefix_cache p"
    and "\<And>c. block_hash (blocks p' c) = block_hash (blocks p c)"
    and "\<And>c. is_null (blocks p' c) = is_null (blocks p c)"
    and "fq_inv (free_block_queue p')"
    and "set (free_list p') = {b. b < total_num_blocks p \<and> ref_cnt (blocks p' b) = 0}"
    and "\<And>c. c < total_num_blocks p \<Longrightarrow> 0 \<le> ref_cnt (blocks p' c)"
    and "0 < ref_cnt (blocks p' (total_num_blocks p))"
  shows "pool_inv p'"
  using assms by (simp add: pool_inv_def pool_frame_def)

lemma pool_inv_null: "pool_inv p \<Longrightarrow> null_block p = total_num_blocks p \<and>
    is_null (blocks p (total_num_blocks p)) \<and> block_hash (blocks p (total_num_blocks p)) = None \<and>
    0 < ref_cnt (blocks p (total_num_blocks p))"
  unfolding pool_inv_def by metis

lemma fresh_block: "\<not> is_null k \<Longrightarrow> k\<lparr>ref_cnt := r, block_hash := None\<rparr> =
    \<lparr>ref_cnt = r, block_hash = None, is_null = False\<rparr>"
  by (cases k) simp

lemma take_first_inv:
  assumes inv: "pool_inv p" and fl: "free_list p = b # bs" and q: "fq_inv q" "fq_abs q = bs"
  shows "pool_inv (p\<lparr>free_block_queue := q,
     prefix_cache := (case block_hash (blocks p b) of None \<Rightarrow> prefix_cache p | Some h \<Rightarrow> AList.delete h (prefix_cache p)),
     blocks := (blocks p)(b := (blocks p b)\<lparr>ref_cnt := 1, block_hash := None\<rparr>)\<rparr>)"
    (is "pool_inv ?p'")
proof -
  define c where "c = (case block_hash (blocks p b) of None \<Rightarrow> prefix_cache p
        | Some h \<Rightarrow> AList.delete h (prefix_cache p))"
  define p' where "p' = p\<lparr>free_block_queue := q, prefix_cache := c,
     blocks := (blocks p)(b := (blocks p b)\<lparr>ref_cnt := 1, block_hash := None\<rparr>)\<rparr>"
  have d: "distinct (b # bs)" using fq.inv_distinct [OF pool_invD(1) [OF inv]] fl by simp
  have "b \<in> set (free_list p)" using fl by simp
  then have b: "b < total_num_blocks p" "ref_cnt (blocks p b) = 0"
    using pool_invD(2) [OF inv] by auto
  have cached: "map_of (prefix_cache p) h = Some b" if "block_hash (blocks p b) = Some h" for h
    using that b pool_invD(6) [OF inv] by blast
  have "pool_inv p'"
    unfolding pool_inv_def
  proof (intro conjI allI impI)
    have mem: "c \<in> set (b # bs) \<longleftrightarrow> c < total_num_blocks p \<and> ref_cnt (blocks p c) = 0" for c
      using pool_invD(2) [OF inv] fl by auto
    show "set (free_list p') = {b. b < total_num_blocks p' \<and> ref_cnt (blocks p' b) = 0}"
    proof (rule set_eqI)
      fix c
      show "c \<in> set (free_list p') \<longleftrightarrow> c \<in> {b. b < total_num_blocks p' \<and> ref_cnt (blocks p' b) = 0}"
        using mem [of c] d q by (cases "c = b") (simp_all add: p'_def)
    qed
    show "distinct (map fst (prefix_cache p'))"
      using pool_invD(5) [OF inv] by (auto simp: p'_def c_def split: option.split intro: distinct_delete)
    fix h e
    show "map_of (prefix_cache p') h = Some e \<longleftrightarrow>
        e < total_num_blocks p' \<and> block_hash (blocks p' e) = Some h"
    proof (cases "block_hash (blocks p b)")
      case None
      then show ?thesis using pool_invD(6) [OF inv, of h e]
        by (cases "e = b") (simp_all add: p'_def c_def)
    next
      case (Some k)
      have k: "map_of (prefix_cache p) k = Some b" by (rule cached [OF Some])
      show ?thesis
      proof (cases "e = b")
        case True
        then show ?thesis using pool_invD(6) [OF inv, of h b] Some
          by (simp add: p'_def c_def delete_conv')
      next
        case False
        then show ?thesis using pool_invD(6) [OF inv, of h e] Some k
          by (cases "h = k") (simp_all add: p'_def c_def delete_conv')
      qed
    qed
  qed (use q b pool_invD(3,4) [OF inv] pool_inv_null [OF inv] in \<open>simp_all add: p'_def\<close>)
  then show ?thesis by (simp only: p'_def c_def)
qed

lemma alloc_block_ok:
  assumes inv: "pool_inv p" and fl: "free_list p = b # bs"
  obtains p' where "alloc_block p = Inr ((b, block_hash (blocks p b)), p')"
    and "pool_inv p'" and "free_list p' = bs" and "pool_frame p p'"
    and "blocks p' = (blocks p)(b := \<lparr>ref_cnt = 1, block_hash = None, is_null = False\<rparr>)"
    and "prefix_cache p' = (case block_hash (blocks p b) of None \<Rightarrow> prefix_cache p
        | Some h \<Rightarrow> AList.delete h (prefix_cache p))"
proof -
  from fq.popleft_Cons [OF pool_invD(1) [OF inv] fl] obtain q where
    q: "fq_popleft (free_block_queue p) = Inr (b, q)" "fq_inv q" "fq_abs q = bs" by blast
  have "b \<in> set (free_list p)" using fl by simp
  then have b: "b < total_num_blocks p" "ref_cnt (blocks p b) = 0"
    using pool_invD(2) [OF inv] by auto
  have bb: "\<not> is_null (blocks p b)" using pool_invD(4) [OF inv b(1)] .
  define c where "c = (case block_hash (blocks p b) of None \<Rightarrow> prefix_cache p
        | Some h \<Rightarrow> AList.delete h (prefix_cache p))"
  define p' where "p' = p\<lparr>free_block_queue := q, prefix_cache := c,
     blocks := (blocks p)(b := (blocks p b)\<lparr>ref_cnt := 1, block_hash := None\<rparr>)\<rparr>"
  have cached: "map_of (prefix_cache p) h = Some b" if "block_hash (blocks p b) = Some h" for h
    using that b pool_invD(6) [OF inv] by blast
  have al: "alloc_block p = Inr ((b, block_hash (blocks p b)), p')"
  proof (cases "block_hash (blocks p b)")
    case None
    then have eq: "(blocks p b)\<lparr>ref_cnt := 1, block_hash := None\<rparr> = (blocks p b)\<lparr>ref_cnt := 1\<rparr>"
      by (cases "blocks p b") simp
    show ?thesis
      using None q b by (simp add: alloc_block_def Let_def add_ref_def upd_block_def p'_def c_def eq)
  next
    case (Some h)
    have eq: "(blocks p b)\<lparr>block_hash := None, ref_cnt := 1\<rparr> =
        (blocks p b)\<lparr>ref_cnt := 1, block_hash := None\<rparr>"
      by (cases "blocks p b") simp
    show ?thesis
      using Some q b cached by (simp add: alloc_block_def Let_def add_ref_def upd_block_def p'_def c_def
          uncommit_block_def set_hash_def eq)
  qed
  have "pool_inv p'"
    unfolding p'_def c_def by (rule take_first_inv [OF inv fl q(2,3)])
  with al q show thesis
    by (intro that [of p']) (simp_all add: p'_def pool_frame_def c_def fresh_block bb)
qed

lemma alloc_block_empty: "pool_inv p \<Longrightarrow> free_list p = [] \<Longrightarrow> alloc_block p = Inl ValueError"
  using fq.popleft_Nil [of "free_block_queue p"] by (simp add: alloc_block_def pool_inv_def)

lemma touch_ok:
  assumes inv: "pool_inv p" and b: "b < total_num_blocks p"
  obtains p' where "touch b p = Inr p'" and "pool_inv p'" and "pool_frame p p'"
    and "blocks p' = (blocks p)(b := (blocks p b)\<lparr>ref_cnt := ref_cnt (blocks p b) + 1\<rparr>)"
    and "prefix_cache p' = prefix_cache p" and "free_list p' = remove1 b (free_list p)"
proof -
  have ge: "0 \<le> ref_cnt (blocks p b)" by (rule pool_invD(3) [OF inv b])
  have ex: "\<exists>q. (if ref_cnt (blocks p b) = 0 then bind_r (fq_remove b (free_block_queue p))
        (\<lambda>q. Inr (p\<lparr>free_block_queue := q\<rparr>)) else Inr p) = Inr (p\<lparr>free_block_queue := q\<rparr>)
      \<and> fq_inv q \<and> fq_abs q = remove1 b (free_list p)"
  proof (cases "ref_cnt (blocks p b) = 0")
    case True
    then have "b \<in> set (free_list p)" using pool_invD(2) [OF inv] b by simp
    from fq.remove_in [OF pool_invD(1) [OF inv] this] True show ?thesis by auto
  next
    case False
    then have "b \<notin> set (free_list p)" using pool_invD(2) [OF inv] by simp
    with False pool_invD(1) [OF inv] show ?thesis by (auto simp: remove1_idem intro!: exI [of _ "free_block_queue p"])
  qed
  then obtain q where q: "touch b p = Inr (add_ref b 1 (p\<lparr>free_block_queue := q\<rparr>))" "fq_inv q"
    "fq_abs q = remove1 b (free_list p)"
    by (auto simp: touch_def)
  let ?p = "add_ref b 1 (p\<lparr>free_block_queue := q\<rparr>)"
  have "pool_inv ?p"
  proof (rule pool_inv_ref [OF inv])
    show "set (free_list ?p) = {c. c < total_num_blocks p \<and> ref_cnt (blocks ?p c) = 0}"
      using q fq.inv_distinct [OF pool_invD(1) [OF inv]] pool_invD(2) [OF inv] ge
      by (auto simp: add_ref_def)
  qed (use inv q b ge pool_invD(3) [OF inv] pool_inv_null [OF inv] in \<open>auto simp: add_ref_def pool_frame_def\<close>)
  then show thesis
    using q by (intro that [of ?p]) (simp_all add: add_ref_def pool_frame_def)
qed

lemma free_block_run:
  assumes inv: "pool_inv p" and b: "b < total_num_blocks p" and pos: "0 < ref_cnt (blocks p b)"
  shows "\<exists>q. free_block b p = Inr ((add_ref b (- 1) p)\<lparr>free_block_queue := q\<rparr>) \<and> fq_inv q \<and>
    fq_abs q = (if ref_cnt (blocks p b) = 1 then free_list p @ [b] else free_list p)"
proof -
  have nn: "\<not> is_null (blocks p b)" using pool_invD(4) [OF inv b] .
  have bl: "b \<notin> set (free_list p)" using pool_invD(2) [OF inv] pos by simp
  let ?r = "ref_cnt (blocks p b)"
  have fb: "free_block b p = (let p' = add_ref b (- 1) p in
      if ?r = 1 then bind_r (fq_append b (free_block_queue p)) (\<lambda>q. Inr (p'\<lparr>free_block_queue := q\<rparr>))
      else Inr p')"
    using nn pos by (simp add: free_block_def add_ref_def Let_def)
  show ?thesis
  proof (cases "?r = 1")
    case True
    with fq.append_abs [OF pool_invD(1) [OF inv] bl] fb show ?thesis by (auto simp: Let_def)
  next
    case False
    have "(add_ref b (- 1) p)\<lparr>free_block_queue := free_block_queue p\<rparr> = add_ref b (- 1) p"
      by (simp add: add_ref_def upd_block_def)
    with False fb pool_invD(1) [OF inv] show ?thesis
      by (intro exI [of _ "free_block_queue p"]) (simp add: Let_def)
  qed
qed

lemma free_block_ok:
  assumes inv: "pool_inv p" and b: "b < total_num_blocks p" and pos: "0 < ref_cnt (blocks p b)"
  obtains p' where "free_block b p = Inr p'" and "pool_inv p'" and "pool_frame p p'"
    and "blocks p' = (blocks p)(b := (blocks p b)\<lparr>ref_cnt := ref_cnt (blocks p b) - 1\<rparr>)"
    and "prefix_cache p' = prefix_cache p"
    and "free_list p' = (if ref_cnt (blocks p b) = 1 then free_list p @ [b] else free_list p)"
proof -
  from free_block_run [OF assms] obtain q where
    q: "free_block b p = Inr ((add_ref b (- 1) p)\<lparr>free_block_queue := q\<rparr>)" "fq_inv q"
      "fq_abs q = (if ref_cnt (blocks p b) = 1 then free_list p @ [b] else free_list p)" by blast
  define p' where "p' = (add_ref b (- 1) p)\<lparr>free_block_queue := q\<rparr>"
  have bl: "blocks p' = (blocks p)(b := (blocks p b)\<lparr>ref_cnt := ref_cnt (blocks p b) - 1\<rparr>)"
    and frame: "pool_frame p p'" "prefix_cache p' = prefix_cache p" "free_block_queue p' = q"
    by (simp_all add: p'_def add_ref_def pool_frame_def)
  have "pool_inv p'"
  proof (rule pool_inv_ref [OF inv frame(1,2)])
    have mem: "c \<in> set (free_list p) \<longleftrightarrow> c < total_num_blocks p \<and> ref_cnt (blocks p c) = 0" for c
      using pool_invD(2) [OF inv] by auto
    show "set (free_list p') = {c. c < total_num_blocks p \<and> ref_cnt (blocks p' c) = 0}"
    proof (rule set_eqI)
      fix c
      show "c \<in> set (free_list p') \<longleftrightarrow> c \<in> {c. c < total_num_blocks p \<and> ref_cnt (blocks p' c) = 0}"
        using b pos by (cases "c = b") (simp_all add: frame(3) bl q(3) mem)
    qed
  qed (use q b pos pool_invD(3) [OF inv] pool_inv_null [OF inv] in \<open>simp_all add: frame bl\<close>)
  with q bl frame show thesis by (intro that [of p']) (simp_all add: p'_def)
qed

lemma free_block_null: "pool_inv p \<Longrightarrow> free_block (null_block p) p = Inr p"
  using pool_inv_null [of p] by (simp add: free_block_def)

lemma commit_ok:
  assumes inv: "pool_inv p" and b: "b < total_num_blocks p"
    and h: "block_hash (blocks p b) = None" "map_of (prefix_cache p) h = None"
  obtains p' where "commit_into_prefix_cache h b p = Inr p'" and "pool_inv p'" and "pool_frame p p'"
    and "blocks p' = (blocks p)(b := (blocks p b)\<lparr>block_hash := Some h\<rparr>)"
    and "prefix_cache p' = AList.update h b (prefix_cache p)"
    and "free_list p' = free_list p"
proof -
  define p' where "p' = (set_hash b (Some h) p)\<lparr>prefix_cache := AList.update h b (prefix_cache p)\<rparr>"
  have "pool_inv p'"
    unfolding pool_inv_def
  proof (intro conjI allI impI)
    show "set (free_list p') = {b. b < total_num_blocks p' \<and> ref_cnt (blocks p' b) = 0}"
      using pool_invD(2) [OF inv] by (auto simp: p'_def set_hash_def)
    fix k c
    show "map_of (prefix_cache p') k = Some c \<longleftrightarrow>
        c < total_num_blocks p' \<and> block_hash (blocks p' c) = Some k"
      using pool_invD(6) [OF inv, of k c] b h by (auto simp: p'_def set_hash_def update_conv')
  qed (use inv b pool_invD [OF inv] pool_inv_null [OF inv] in
      \<open>auto simp: p'_def set_hash_def distinct_update\<close>)
  then show thesis
    using pool_invD(4) [OF inv b] h
    by (intro that [of p'])
      (simp_all add: p'_def commit_into_prefix_cache_def set_hash_def pool_frame_def Let_def)
qed

lemma uncommit_ok:
  assumes inv: "pool_inv p" and h: "block_hash (blocks p b) = Some h" and b: "b < total_num_blocks p"
  obtains p' where "uncommit_block b p = Inr p'" and "pool_inv p'" and "pool_frame p p'"
    and "blocks p' = (blocks p)(b := (blocks p b)\<lparr>block_hash := None\<rparr>)"
    and "prefix_cache p' = AList.delete h (prefix_cache p)" and "free_list p' = free_list p"
proof -
  define p' where "p' = set_hash b None (p\<lparr>prefix_cache := AList.delete h (prefix_cache p)\<rparr>)"
  have cached: "map_of (prefix_cache p) h = Some b" using h b pool_invD(6) [OF inv] by blast
  have "pool_inv p'"
    unfolding pool_inv_def
  proof (intro conjI allI impI)
    show "set (free_list p') = {b. b < total_num_blocks p' \<and> ref_cnt (blocks p' b) = 0}"
      using pool_invD(2) [OF inv] by (auto simp: p'_def set_hash_def)
    show "distinct (map fst (prefix_cache p'))"
      using pool_invD(5) [OF inv] by (auto simp: p'_def set_hash_def intro: distinct_delete)
    fix k e
    show "map_of (prefix_cache p') k = Some e \<longleftrightarrow>
        e < total_num_blocks p' \<and> block_hash (blocks p' e) = Some k"
      using pool_invD(6) [OF inv, of k e] cached h
      by (cases "e = b"; cases "k = h") (simp_all add: p'_def set_hash_def delete_conv')
  qed (use b pool_invD(1,3,4) [OF inv] pool_inv_null [OF inv] in \<open>auto simp: p'_def set_hash_def\<close>)
  then show thesis
    using h cached by (intro that [of p'])
      (simp_all add: p'_def uncommit_block_def set_hash_def pool_frame_def)
qed

lemma get_or_commit_ok:
  assumes inv: "pool_inv p" and b: "b < total_num_blocks p"
    and h: "block_hash (blocks p b) = None \<or> map_of (prefix_cache p) h = Some b"
    and pos: "0 < ref_cnt (blocks p b)"
  obtains r p' where "get_or_commit_into_prefix_cache h b p = Inr (r, p')" and "pool_inv p'"
    and "pool_frame p p'"
    and "r = (if map_of (prefix_cache p) h = None \<or> map_of (prefix_cache p) h = Some b then None
              else map_of (prefix_cache p) h)"
    and "map_of (prefix_cache p') h = Some (case r of None \<Rightarrow> b | Some c \<Rightarrow> c)"
    and "\<And>c. ref_cnt (blocks p' c) = ref_cnt (blocks p c) +
          (if r = Some c then 1 else 0) - (if r \<noteq> None \<and> c = b then 1 else 0)"
proof (cases "map_of (prefix_cache p) h")
  case None
  with h have "block_hash (blocks p b) = None" by simp
  from commit_ok [OF inv b this None] obtain p' where
    p': "commit_into_prefix_cache h b p = Inr p'" "pool_inv p'" "pool_frame p p'"
      "blocks p' = (blocks p)(b := (blocks p b)\<lparr>block_hash := Some h\<rparr>)"
      "prefix_cache p' = AList.update h b (prefix_cache p)" by blast
  show thesis
    by (rule that [of None p'])
      (use p' None in \<open>simp_all add: get_or_commit_into_prefix_cache_def update_conv'\<close>)
next
  case (Some c)
  show thesis
  proof (cases "b = c")
    case True
    show thesis
      by (rule that [of None p]) (use Some True inv in \<open>simp_all add: get_or_commit_into_prefix_cache_def\<close>)
  next
    case False
    with h Some have hb: "block_hash (blocks p b) = None" by simp
    have c: "c < total_num_blocks p" using pool_invD(6) [OF inv, of h c] Some by simp
    obtain p1 where p1: "touch c p = Inr p1" "pool_inv p1" "pool_frame p p1"
      "blocks p1 = (blocks p)(c := (blocks p c)\<lparr>ref_cnt := ref_cnt (blocks p c) + 1\<rparr>)"
      "prefix_cache p1 = prefix_cache p"
      using touch_ok [OF inv c] by blast
    have b1: "b < total_num_blocks p1" "0 < ref_cnt (blocks p1 b)"
      using b pos p1 False by (simp_all add: pool_frame_def)
    obtain p2 where p2: "free_block b p1 = Inr p2" "pool_inv p2" "pool_frame p1 p2"
      "blocks p2 = (blocks p1)(b := (blocks p1 b)\<lparr>ref_cnt := ref_cnt (blocks p1 b) - 1\<rparr>)"
      "prefix_cache p2 = prefix_cache p1"
      using free_block_ok [OF p1(2) b1] by blast
    show thesis
    proof (rule that [of "Some c" p2])
      show "get_or_commit_into_prefix_cache h b p = Inr (Some c, p2)"
        using Some False p1 p2 hb by (simp add: get_or_commit_into_prefix_cache_def)
      show "ref_cnt (blocks p2 e) = ref_cnt (blocks p e) + (if Some c = Some e then 1 else 0) -
          (if Some c \<noteq> None \<and> e = b then 1 else 0)" for e
        using p1(4) p2(4) False by simp
    qed (use Some False p1 p2 in \<open>auto intro: pool_frame_trans\<close>)
  qed
qed

text \<open>Resetting: the first loop clears exactly the hashes of unreferenced cached blocks.\<close>

abbreviation unhash :: "block_pool \<Rightarrow> bid set \<Rightarrow> block_pool \<Rightarrow> block_pool" where
  "unhash p B q \<equiv> q\<lparr>blocks := (\<lambda>b. if b \<in> B \<and> \<not> ref_cnt (blocks p b) > 0
                           then (blocks q b)\<lparr>block_hash := None\<rparr> else blocks q b)\<rparr>"

lemma unhash_insert:
  assumes "b \<notin> B"
  shows "unhash p (insert b B) q = (if ref_cnt (blocks p b) > 0 then unhash p B q else unhash p B (set_hash b None q))"
proof (cases "ref_cnt (blocks p b) > 0")
  case True
  have "(\<lambda>c. if c \<in> insert b B \<and> \<not> 0 < ref_cnt (blocks p c) then (blocks q c)\<lparr>block_hash := None\<rparr> else blocks q c) =
      (\<lambda>c. if c \<in> B \<and> \<not> 0 < ref_cnt (blocks p c) then (blocks q c)\<lparr>block_hash := None\<rparr> else blocks q c)"
    using True by auto
  then show ?thesis using True by simp
next
  case False
  have "(\<lambda>c. if c \<in> insert b B \<and> \<not> 0 < ref_cnt (blocks p c) then (blocks q c)\<lparr>block_hash := None\<rparr> else blocks q c) =
      (\<lambda>c. if c \<in> B \<and> \<not> 0 < ref_cnt (blocks p c) then (blocks (set_hash b None q) c)\<lparr>block_hash := None\<rparr>
        else blocks (set_hash b None q) c)"
    using False assms by (intro ext) (simp add: set_hash_def)
  then show ?thesis using False by (simp add: set_hash_def upd_block_def)
qed

lemma purge_fold:
  assumes "pool_inv p" and "set es \<subseteq> set (prefix_cache p)" and "distinct (map fst es)"
    and "\<And>h b. (h, b) \<in> set es \<Longrightarrow> block_hash (blocks q b) = Some h"
    and "\<And>b. ref_cnt (blocks q b) = ref_cnt (blocks p b)"
  shows "\<exists>q'. fold_r purge_entry (q, ks) es =
      Inr (q', ks @ map fst (filter (\<lambda>(h, b). \<not> ref_cnt (blocks p b) > 0) es)) \<and>
    q' = unhash p (snd ` set es) q"
  using assms(2-)
proof (induction es arbitrary: q ks)
  case Nil
  then show ?case by simp
next
  case (Cons e es)
  obtain h b where e: "e = (h, b)" by (cases e)
  have hb: "block_hash (blocks q b) = Some h" using Cons.prems(3) e by simp
  have uniq: "b \<notin> snd ` set es"
  proof
    assume "b \<in> snd ` set es"
    then obtain k where k: "(k, b) \<in> set es" by auto
    with Cons.prems(3) hb have "k = h" by force
    with k Cons.prems(2) e show False by force
  qed
  note un = unhash_insert [OF uniq, of p q]
  show ?case
  proof (cases "ref_cnt (blocks p b) > 0")
    case True
    have "purge_entry (q, ks) e = Inr (q, ks)"
      using True hb Cons.prems(4) by (simp add: purge_entry_def e)
    then show ?thesis using Cons.IH [of q ks] Cons.prems True un by (simp add: e)
  next
    case False
    let ?q = "set_hash b None q"
    have st: "purge_entry (q, ks) e = Inr (?q, ks @ [h])"
      using False hb Cons.prems(4) by (simp add: purge_entry_def e)
    have hq: "block_hash (blocks ?q b') = Some h'" if "(h', b') \<in> set es" for h' b'
    proof -
      from that uniq have "b' \<noteq> b" by force
      with that Cons.prems(3) [of h' b'] show ?thesis by (simp add: set_hash_def)
    qed
    have rq: "ref_cnt (blocks ?q c) = ref_cnt (blocks p c)" for c
      using Cons.prems(4) [of c] by (cases "c = b") (simp_all add: set_hash_def)
    have "\<exists>q'. fold_r purge_entry (?q, ks @ [h]) es =
        Inr (q', (ks @ [h]) @ map fst (filter (\<lambda>(h, b). \<not> ref_cnt (blocks p b) > 0) es)) \<and>
      q' = unhash p (snd ` set es) ?q"
      by (rule Cons.IH) (use Cons.prems(1,2) hq rq in auto)
    with st False un show ?thesis by (simp add: e)
  qed
qed

lemma foldl_delete:
  "foldl (\<lambda>p h. p\<lparr>prefix_cache := AList.delete h (prefix_cache p)\<rparr>) p hs =
   p\<lparr>prefix_cache := foldl (\<lambda>c h. AList.delete h c) (prefix_cache p) hs\<rparr>"
  by (induction hs arbitrary: p) simp_all

lemma map_of_foldl_delete:
  "map_of (foldl (\<lambda>c h. AList.delete h c) c hs) k = (if k \<in> set hs then None else map_of c k)"
  by (induction hs arbitrary: c) (auto simp: delete_conv')

lemma distinct_foldl_delete:
  "distinct (map fst c) \<Longrightarrow> distinct (map fst (foldl (\<lambda>c h. AList.delete h c) c hs))"
  by (induction hs arbitrary: c) (auto intro: distinct_delete)

definition unreferenced :: "block_pool \<Rightarrow> bytes \<times> bid \<Rightarrow> bool" where
  "unreferenced p e \<longleftrightarrow> \<not> 0 < ref_cnt (blocks p (snd e))"

lemma reset_eq:
  assumes inv: "pool_inv p"
  shows "pool_reset_prefix_cache p = Inr (p\<lparr>
      blocks := (\<lambda>b. if b \<in> snd ` set (prefix_cache p) \<and> \<not> ref_cnt (blocks p b) > 0
                     then (blocks p b)\<lparr>block_hash := None\<rparr> else blocks p b),
      prefix_cache := foldl (\<lambda>c h. AList.delete h c) (prefix_cache p)
        (map fst (filter (unreferenced p) (prefix_cache p)))\<rparr>)"
proof -
  have un: "(\<lambda>(h, b). \<not> ref_cnt (blocks p b) > 0) = unreferenced p"
    by (auto simp: unreferenced_def)
  have hs: "block_hash (blocks p b) = Some h" if "(h, b) \<in> set (prefix_cache p)" for h b
    using that pool_invD(5) [OF inv] pool_invD(6) [OF inv, of h b] by (simp add: map_of_is_SomeI)
  have "\<exists>q'. fold_r purge_entry (p, []) (prefix_cache p) =
      Inr (q', [] @ map fst (filter (\<lambda>(h, b). \<not> ref_cnt (blocks p b) > 0) (prefix_cache p))) \<and>
    q' = p\<lparr>blocks := (\<lambda>b. if b \<in> snd ` set (prefix_cache p) \<and> \<not> ref_cnt (blocks p b) > 0
                           then (blocks p b)\<lparr>block_hash := None\<rparr> else blocks p b)\<rparr>"
    by (rule purge_fold [OF inv]) (use hs pool_invD(5) [OF inv] in auto)
  then show ?thesis
    unfolding pool_reset_prefix_cache_def un by (auto simp: foldl_delete)
qed

lemma reset_ok:
  assumes inv: "pool_inv p"
  obtains p' where "pool_reset_prefix_cache p = Inr p'" and "pool_inv p'" and "pool_frame p p'"
    and "free_list p' = free_list p" and "\<And>c. ref_cnt (blocks p' c) = ref_cnt (blocks p c)"
    and "\<And>h. map_of (prefix_cache p') h = (case map_of (prefix_cache p) h of None \<Rightarrow> None
        | Some b \<Rightarrow> if 0 < ref_cnt (blocks p b) then Some b else None)"
proof -
  let ?hs = "map fst (filter (unreferenced p) (prefix_cache p))"
  define p' where "p' = p\<lparr>
      blocks := (\<lambda>b. if b \<in> snd ` set (prefix_cache p) \<and> \<not> ref_cnt (blocks p b) > 0
                     then (blocks p b)\<lparr>block_hash := None\<rparr> else blocks p b),
      prefix_cache := foldl (\<lambda>c h. AList.delete h c) (prefix_cache p) ?hs\<rparr>"
  have run: "pool_reset_prefix_cache p = Inr p'" using reset_eq [OF inv] by (simp add: p'_def)
  have d: "distinct (map fst (prefix_cache p))" by (rule pool_invD(5) [OF inv])
  have hs: "h \<in> set ?hs \<longleftrightarrow> (\<exists>b. map_of (prefix_cache p) h = Some b \<and> \<not> 0 < ref_cnt (blocks p b))" for h
    using d by (force simp: unreferenced_def image_iff)
  have img: "b \<in> snd ` set (prefix_cache p) \<longleftrightarrow> (\<exists>h. map_of (prefix_cache p) h = Some b)" for b
    using d by (force simp: image_iff)
  have lookup: "map_of (prefix_cache p') h = (case map_of (prefix_cache p) h of None \<Rightarrow> None
        | Some b \<Rightarrow> if 0 < ref_cnt (blocks p b) then Some b else None)" for h
    unfolding p'_def using hs [of h] by (auto simp: map_of_foldl_delete split: option.split)
  have refs: "ref_cnt (blocks p' c) = ref_cnt (blocks p c)" "is_null (blocks p' c) = is_null (blocks p c)" for c
    by (simp_all add: p'_def)
  have hash: "block_hash (blocks p' c) = (if c \<in> snd ` set (prefix_cache p) \<and> \<not> 0 < ref_cnt (blocks p c)
      then None else block_hash (blocks p c))" for c
    by (simp add: p'_def)
  have frame: "pool_frame p p'" "free_block_queue p' = free_block_queue p"
    by (simp_all add: p'_def pool_frame_def)
  have tot: "total_num_blocks p' = total_num_blocks p" "null_block p' = null_block p"
    using frame(1) by (simp_all add: pool_frame_def)
  have "pool_inv p'"
    unfolding pool_inv_def
  proof (intro conjI allI impI)
    show "distinct (map fst (prefix_cache p'))"
      unfolding p'_def using distinct_foldl_delete [OF d] by simp
    fix h b
    show "map_of (prefix_cache p') h = Some b \<longleftrightarrow>
        b < total_num_blocks p' \<and> block_hash (blocks p' b) = Some h"
    proof (cases "0 < ref_cnt (blocks p b)")
      case True
      then show ?thesis
        unfolding lookup hash tot using pool_invD(6) [OF inv, of h b] by (auto split: option.splits)
    next
      case False
      then show ?thesis
        unfolding lookup hash tot img using pool_invD(6) [OF inv, of _ b] by (auto split: option.splits)
    qed
  qed (use pool_invD(1-4) [OF inv] pool_inv_null [OF inv] in \<open>simp_all add: refs hash frame(2) tot\<close>)
  with run frame lookup refs show thesis by (intro that [of p']) simp_all
qed

section \<open>Runs of the pool\<close>

text \<open>
  A client of the pool is a sequence of calls. Calls that misuse the pool (freeing a block that
  is not referenced, committing a committed block) raise; a call that returns keeps the pool
  consistent, whatever the client did before.
\<close>

datatype pool_op =
    AllocBlock | FreeBlock bid | Touch bid | Commit bytes bid | GetOrCommit bytes bid
  | Uncommit bid | ResetCache

fun pool_exec :: "block_pool \<Rightarrow> pool_op \<Rightarrow> block_pool result" where
  "pool_exec p AllocBlock = bind_r (alloc_block p) (\<lambda>(_, p). Inr p)"
| "pool_exec p (FreeBlock b) = free_block b p"
| "pool_exec p (Touch b) = touch b p"
| "pool_exec p (Commit h b) = commit_into_prefix_cache h b p"
| "pool_exec p (GetOrCommit h b) = bind_r (get_or_commit_into_prefix_cache h b p) (\<lambda>(_, p). Inr p)"
| "pool_exec p (Uncommit b) = uncommit_block b p"
| "pool_exec p ResetCache = pool_reset_prefix_cache p"

fun op_bids :: "pool_op \<Rightarrow> bid set" where
  "op_bids (FreeBlock b) = {b}" | "op_bids (Touch b) = {b}" | "op_bids (Commit _ b) = {b}"
| "op_bids (GetOrCommit _ b) = {b}" | "op_bids (Uncommit b) = {b}" | "op_bids _ = {}"

lemma free_block_returns:
  assumes inv: "pool_inv p" and b: "b < total_num_blocks p" and run: "free_block b p = Inr p'"
  shows "0 < ref_cnt (blocks p b)"
  using run pool_invD(4) [OF inv b]
  by (simp add: free_block_def add_ref_def Let_def assert_r_eq_Inr)

lemma commit_returns:
  assumes "commit_into_prefix_cache h b p = Inr p'"
  shows "block_hash (blocks p b) = None" and "map_of (prefix_cache p) h = None"
  using assms by (simp_all add: commit_into_prefix_cache_def set_hash_def Let_def result_Inr)

lemma get_or_commit_returns:
  assumes inv: "pool_inv p" and b: "b < total_num_blocks p"
    and run: "get_or_commit_into_prefix_cache h b p = Inr (r, p')"
  shows "pool_inv p' \<and> pool_frame p p'"
proof (cases "map_of (prefix_cache p) h")
  case None
  with run have c: "commit_into_prefix_cache h b p = Inr p'"
    by (auto simp: get_or_commit_into_prefix_cache_def result_Inr)
  show ?thesis using commit_ok [OF inv b commit_returns [OF c]] c by (metis sum.inject(2))
next
  case (Some c)
  have c: "c < total_num_blocks p" using pool_invD(6) [OF inv, of h c] Some by simp
  show ?thesis
  proof (cases "b = c")
    case True
    with Some run inv show ?thesis by (simp add: get_or_commit_into_prefix_cache_def)
  next
    case False
    obtain p1 where p1: "touch c p = Inr p1" "pool_inv p1" "pool_frame p p1"
      using touch_ok [OF inv c] by blast
    with Some False run have f: "free_block b p1 = Inr p'"
      by (auto simp: get_or_commit_into_prefix_cache_def result_Inr)
    have b1: "b < total_num_blocks p1" using b p1(3) by (simp add: pool_frame_def)
    show ?thesis
      using free_block_ok [OF p1(2) b1 free_block_returns [OF p1(2) b1 f]] f pool_frame_trans [OF p1(3)]
      by (metis sum.inject(2))
  qed
qed

lemma alloc_block_returns:
  assumes inv: "pool_inv p" and run: "alloc_block p = Inr ((b, h), p')"
  obtains bs where "free_list p = b # bs"
proof (cases "free_list p")
  case Nil
  with alloc_block_empty [OF inv] run show thesis by simp
next
  case (Cons c bs)
  from alloc_block_ok [OF inv Cons] run that Cons show thesis by (metis prod.inject sum.inject(2))
qed

lemma pool_exec_inv:
  assumes inv: "pool_inv p" and bids: "op_bids op \<subseteq> {..<total_num_blocks p}"
    and run: "pool_exec p op = Inr p'"
  shows "pool_inv p' \<and> pool_frame p p'"
proof (cases op)
  case AllocBlock
  with run obtain b h where a: "alloc_block p = Inr ((b, h), p')" by (auto simp: result_Inr)
  obtain bs where "free_list p = b # bs" using alloc_block_returns [OF inv a] .
  from alloc_block_ok [OF inv this] a show ?thesis by (metis prod.inject sum.inject(2))
next
  case (FreeBlock b)
  with bids run have b: "b < total_num_blocks p" and f: "free_block b p = Inr p'" by auto
  from free_block_ok [OF inv b free_block_returns [OF inv b f]] f show ?thesis by (metis sum.inject(2))
next
  case (Touch b)
  with bids run have b: "b < total_num_blocks p" and f: "touch b p = Inr p'" by auto
  from touch_ok [OF inv b] f show ?thesis by (metis sum.inject(2))
next
  case (Commit h b)
  with bids run have b: "b < total_num_blocks p" and f: "commit_into_prefix_cache h b p = Inr p'" by auto
  from commit_ok [OF inv b commit_returns [OF f]] f show ?thesis by (metis sum.inject(2))
next
  case (GetOrCommit h b)
  with bids run obtain r where b: "b < total_num_blocks p"
    and f: "get_or_commit_into_prefix_cache h b p = Inr (r, p')" by (auto simp: result_Inr)
  from get_or_commit_returns [OF inv b f] show ?thesis .
next
  case (Uncommit b)
  with bids run have b: "b < total_num_blocks p" and f: "uncommit_block b p = Inr p'" by auto
  then obtain h where h: "block_hash (blocks p b) = Some h"
    by (auto simp: uncommit_block_def split: option.splits)
  from uncommit_ok [OF inv h b] f show ?thesis by (metis sum.inject(2))
next
  case ResetCache
  with run have "pool_reset_prefix_cache p = Inr p'" by simp
  with reset_ok [OF inv] show ?thesis by (metis sum.inject(2))
qed

definition client_ok :: "nat \<Rightarrow> pool_op list \<Rightarrow> bool" where
  "client_ok n ops \<longleftrightarrow> list_all (\<lambda>op. op_bids op \<subseteq> {..<n}) ops"

lemma pool_run_inv:
  assumes ops: "client_ok n ops" and run: "fold_r pool_exec (BlockPool_init n checks) ops = Inr p"
  shows "pool_inv p \<and> pool_frame (BlockPool_init n checks) p"
proof (rule fold_r_invariant [OF run])
  show "pool_inv (BlockPool_init n checks) \<and> pool_frame (BlockPool_init n checks) (BlockPool_init n checks)"
    by (simp add: BlockPool_init_inv)
next
  fix s op t
  assume s: "pool_inv s \<and> pool_frame (BlockPool_init n checks) s" and op: "op \<in> set ops"
    and step: "pool_exec s op = Inr t"
  have "total_num_blocks s = n" using s by (simp add: pool_frame_def BlockPool_init_def)
  with op ops have "op_bids op \<subseteq> {..<total_num_blocks s}" by (auto simp: client_ok_def list_all_iff)
  from pool_exec_inv [OF _ this step] s pool_frame_trans
  show "pool_inv t \<and> pool_frame (BlockPool_init n checks) t" by blast
qed

definition referenced :: "block_pool \<Rightarrow> bid list" where
  "referenced p = filter (\<lambda>b. 0 < ref_cnt (blocks p b)) [0..<total_num_blocks p]"

lemma free_and_referenced:
  assumes inv: "pool_inv p"
  shows "pool_num_free_blocks p + int (length (referenced p)) = int (total_num_blocks p)"
proof -
  let ?n = "total_num_blocks p"
  have "set (free_list p) = set (filter (\<lambda>b. \<not> 0 < ref_cnt (blocks p b)) [0..<?n])"
    using pool_invD(2) [OF inv] pool_invD(3) [OF inv] by (auto intro: order_antisym)
  moreover have "distinct (free_list p)" by (rule fq.inv_distinct [OF pool_invD(1) [OF inv]])
  ultimately have "length (free_list p) = length (filter (\<lambda>b. \<not> 0 < ref_cnt (blocks p b)) [0..<?n])"
    by (metis distinct_card distinct_filter distinct_upt)
  with sum_length_filter_compl [of "\<lambda>b. 0 < ref_cnt (blocks p b)" "[0..<?n]"] pool_num_free [OF inv]
  show ?thesis by (simp add: referenced_def)
qed

lemma runtime_check_passes:
  assumes inv: "pool_inv p" and act: "set active = set (referenced p)"
  shows "pool_assert_runtime_invariants active p = Inr ()"
proof -
  have "card (set active) = length (referenced p)"
    unfolding act by (rule distinct_card) (simp add: referenced_def)
  moreover have "block_hash (blocks p b) = Some h" if "(h, b) \<in> set (prefix_cache p)" for h b
    using that pool_invD(5) [OF inv] pool_invD(6) [OF inv, of h b] by (simp add: map_of_is_SomeI)
  ultimately show ?thesis
    using free_and_referenced [OF inv]
    by (auto simp: pool_assert_runtime_invariants_def list_all_iff assert_r_def)
qed

section \<open>Properties\<close>

text \<open>
  C11. Whatever sequence of calls a client makes on a fresh pool, when it returns the pool
  accounts for every block: reference counts are non-negative, the number of free blocks plus
  the number of referenced ones is the pool's size, every cached hash names the block that
  carries it, and the pool's own runtime check passes on exactly the referenced blocks.
\<close>
theorem pool_accounts_for_every_block:
  assumes "client_ok n ops" and "fold_r pool_exec (BlockPool_init n checks) ops = Inr p"
  shows "(\<forall>b < n. 0 \<le> ref_cnt (blocks p b)) \<and>
    pool_num_free_blocks p + int (length (referenced p)) = int n \<and>
    (\<forall>h b. map_of (prefix_cache p) h = Some b \<longleftrightarrow> b < n \<and> block_hash (blocks p b) = Some h) \<and>
    pool_assert_runtime_invariants (referenced p) p = Inr ()"
proof -
  have inv: "pool_inv p" and n: "total_num_blocks p = n"
    using pool_run_inv [OF assms] by (simp_all add: pool_frame_def BlockPool_init_def)
  show ?thesis
    using pool_invD(3,6) [OF inv] free_and_referenced [OF inv] runtime_check_passes [OF inv, of "referenced p"]
    unfolding n by simp
qed

theorem pool_accounts_for_every_block_witness:
  "\<exists>p. fold_r pool_exec (BlockPool_init 2 True) [AllocBlock, Commit [7] 0, Touch 0, FreeBlock 0] = Inr p \<and>
    pool_num_free_blocks p + int (length (referenced p)) = 2"
proof -
  let ?ops = "[AllocBlock, Commit [7] 0, Touch 0, FreeBlock 0]"
  let ?p = "projr (fold_r pool_exec (BlockPool_init 2 True) ?ops)"
  have run: "fold_r pool_exec (BlockPool_init 2 True) ?ops = Inr ?p"
    by (simp add: BlockPool_init_def fq_init_def fq_link_def alloc_block_def fq_popleft_def fq_remove_def
        Let_def add_ref_def upd_block_def set_hash_def commit_into_prefix_cache_def touch_def free_block_def
        upt_conv_Cons)
  have ok: "client_ok 2 ?ops" by (simp add: client_ok_def)
  show ?thesis using pool_accounts_for_every_block [OF ok run] run by (intro exI [of _ ?p]) auto
qed

text \<open>
  C35. Allocation recycles least-recently-freed blocks and never a referenced one: on a
  consistent pool it raises exactly when every block is referenced; otherwise it hands out the
  front of the free list with one reference and no hash, evicts that block's own cache entry
  and no other, and leaves every other block alone.
\<close>
theorem alloc_block_evicts_lru:
  assumes "pool_inv p"
  shows "case free_list p of
     [] \<Rightarrow> alloc_block p = Inl ValueError \<and> length (referenced p) = total_num_blocks p
   | b # bs \<Rightarrow> \<exists>p'. alloc_block p = Inr ((b, block_hash (blocks p b)), p') \<and> pool_inv p' \<and>
       ref_cnt (blocks p b) = 0 \<and> b < total_num_blocks p \<and> free_list p' = bs \<and>
       blocks p' = (blocks p)(b := \<lparr>ref_cnt = 1, block_hash = None, is_null = False\<rparr>) \<and>
       (\<forall>h. map_of (prefix_cache p') h =
          (if block_hash (blocks p b) = Some h then None else map_of (prefix_cache p) h))"
proof (cases "free_list p")
  case Nil
  then show ?thesis
    using alloc_block_empty [OF assms] free_and_referenced [OF assms] pool_num_free [OF assms] by simp
next
  case (Cons b bs)
  then have b: "b < total_num_blocks p" "ref_cnt (blocks p b) = 0"
    using pool_invD(2) [OF assms] by auto
  obtain p' where p': "alloc_block p = Inr ((b, block_hash (blocks p b)), p')" "pool_inv p'"
    "free_list p' = bs" "blocks p' = (blocks p)(b := \<lparr>ref_cnt = 1, block_hash = None, is_null = False\<rparr>)"
    "prefix_cache p' = (case block_hash (blocks p b) of None \<Rightarrow> prefix_cache p
        | Some h \<Rightarrow> AList.delete h (prefix_cache p))"
    using alloc_block_ok [OF assms Cons] by blast
  then have "map_of (prefix_cache p') h =
      (if block_hash (blocks p b) = Some h then None else map_of (prefix_cache p) h)" for h
    by (auto simp: delete_conv' split: option.split)
  with p' b Cons show ?thesis by auto
qed

theorem alloc_block_evicts_lru_witness:
  "\<exists>p'. alloc_block (BlockPool_init 2 True) = Inr ((0, None), p') \<and> free_list p' = [1]"
proof -
  have "free_list (BlockPool_init 2 True) = [0, 1]"
    by (simp add: BlockPool_init_free upt_rec)
  with alloc_block_evicts_lru [OF BlockPool_init_inv [of 2 True]] show ?thesis
    by (auto simp: BlockPool_init_def)
qed

text \<open>
  C36. Committing a referenced block under a hash always succeeds on a consistent pool and
  de-duplicates: if the hash is already cached for another block the caller is handed that
  block, its reference moving from its own block to the cached one; afterwards the hash is
  cached exactly for the block the caller holds, and no reference is created or lost.
\<close>
theorem get_or_commit_moves_reference:
  assumes inv: "pool_inv p" and b: "b < total_num_blocks p" and pos: "0 < ref_cnt (blocks p b)"
    and h: "block_hash (blocks p b) = None \<or> map_of (prefix_cache p) h = Some b"
  shows "\<exists>r p' held. get_or_commit_into_prefix_cache h b p = Inr (r, p') \<and> pool_inv p' \<and>
     held = (case r of None \<Rightarrow> b | Some c \<Rightarrow> c) \<and>
     held = (case map_of (prefix_cache p) h of None \<Rightarrow> b | Some c \<Rightarrow> c) \<and>
     map_of (prefix_cache p') h = Some held \<and>
     (\<forall>c. ref_cnt (blocks p' c) = ref_cnt (blocks p c) +
        (if c = held then 1 else 0) - (if c = b then 1 else 0))"
proof -
  obtain r p' where g: "get_or_commit_into_prefix_cache h b p = Inr (r, p')" "pool_inv p'" "pool_frame p p'"
    "r = (if map_of (prefix_cache p) h = None \<or> map_of (prefix_cache p) h = Some b then None
          else map_of (prefix_cache p) h)"
    "map_of (prefix_cache p') h = Some (case r of None \<Rightarrow> b | Some c \<Rightarrow> c)"
    "\<And>c. ref_cnt (blocks p' c) = ref_cnt (blocks p c) +
          (if r = Some c then 1 else 0) - (if r \<noteq> None \<and> c = b then 1 else 0)"
    by (rule get_or_commit_ok [OF inv b h pos]) (rule that)
  define held where "held = (case r of None \<Rightarrow> b | Some c \<Rightarrow> c)"
  have "held = (case map_of (prefix_cache p) h of None \<Rightarrow> b | Some c \<Rightarrow> c)"
    unfolding held_def g(4) by (cases "map_of (prefix_cache p) h") simp_all
  moreover have "ref_cnt (blocks p' c) = ref_cnt (blocks p c) +
        (if c = held then 1 else 0) - (if c = b then 1 else 0)" for c
    unfolding g(6) held_def by (cases r) simp_all
  moreover note g(1,2) held_def g(5) [folded held_def]
  ultimately show ?thesis by (intro exI conjI allI)
qed

theorem get_or_commit_moves_reference_witness:
  "\<exists>p r p'. fold_r pool_exec (BlockPool_init 2 True) [AllocBlock] = Inr p \<and>
     get_or_commit_into_prefix_cache [7] 0 p = Inr (r, p') \<and> map_of (prefix_cache p') [7] = Some 0"
proof -
  have fl: "free_list (BlockPool_init 2 True) = [0, 1]" by (simp add: BlockPool_init_free upt_rec)
  obtain p where p: "alloc_block (BlockPool_init 2 True) = Inr ((0, None), p)" "pool_inv p"
    "blocks p = (blocks (BlockPool_init 2 True))(0 := \<lparr>ref_cnt = 1, block_hash = None, is_null = False\<rparr>)"
    "prefix_cache p = []" "total_num_blocks p = 2"
    by (rule alloc_block_ok [OF BlockPool_init_inv fl]) (simp add: BlockPool_init_def pool_frame_def)
  have "fold_r pool_exec (BlockPool_init 2 True) [AllocBlock] = Inr p" using p by simp
  moreover have "\<exists>r p'. get_or_commit_into_prefix_cache [7] 0 p = Inr (r, p') \<and>
      map_of (prefix_cache p') [7] = Some 0"
    using get_or_commit_moves_reference [OF p(2), of 0 "[7]"] p(3-5) by auto
  ultimately show ?thesis by blast
qed

text \<open>
  Resetting the prefix cache of a consistent pool always succeeds and purges exactly the
  unreferenced entries: a hash is found afterwards iff it was cached for a block still in use;
  no reference count changes and the free list is untouched.
\<close>
theorem reset_purges_unreferenced:
  assumes "pool_inv p"
  shows "\<exists>p'. pool_reset_prefix_cache p = Inr p' \<and> pool_inv p' \<and> free_list p' = free_list p \<and>
     (\<forall>c. ref_cnt (blocks p' c) = ref_cnt (blocks p c)) \<and>
     (\<forall>h b. map_of (prefix_cache p') h = Some b \<longleftrightarrow>
        map_of (prefix_cache p) h = Some b \<and> 0 < ref_cnt (blocks p b))"
proof -
  obtain p' where p': "pool_reset_prefix_cache p = Inr p'" "pool_inv p'" "pool_frame p p'"
    "free_list p' = free_list p" "\<And>c. ref_cnt (blocks p' c) = ref_cnt (blocks p c)"
    "\<And>h. map_of (prefix_cache p') h = (case map_of (prefix_cache p) h of None \<Rightarrow> None
        | Some b \<Rightarrow> if 0 < ref_cnt (blocks p b) then Some b else None)"
    by (rule reset_ok [OF assms]) (rule that)
  then show ?thesis by (auto split: option.splits)
qed

theorem reset_purges_unreferenced_witness:
  "\<exists>p'. pool_reset_prefix_cache (BlockPool_init 2 True) = Inr p' \<and> free_list p' = [0, 1]"
  using reset_purges_unreferenced [OF BlockPool_init_inv [of 2 True]]
  by (auto simp: BlockPool_init_free upt_rec)

end
