(* ===== verification/Token_Budget.thy ===== *)
theory Token_Budget
  imports Token_Buffer
begin

text \<open>
  Token budgets of the batch constructor,
  \<open>max/serve/scheduler/batch_constructor/token_budget.py\<close>: the budget on active tokens of
  a step (which may chunk the context it is asked about), the budget on total context length,
  and the collection that applies several of them. Of a \<open>TextContext\<close> the budgets only use
  \<open>context.tokens\<close>, so they take and return the token buffer. The locale
  \<open>token_budget_contract\<close> states the contract written in the docstring of \<open>TokenBudget\<close>,
  with the admission loop of the batch constructor proved once against it.
\<close>

section \<open>Budgets\<close>

datatype request_type = TG | CE | MIXED | UNKNOWN

definition RequestType_all :: "request_type list" where
  "RequestType_all = [TG, CE, MIXED]"

datatype budget_status = BUDGET_AVAILABLE | BUDGET_EXHAUSTED | BUDGET_REACHED

record token_budget =
  capacity :: int
  allow_chunking :: bool
  applicable_types :: "request_type list"
  min_chunk_tokens :: int
  used :: int
  active_request_type :: request_type

record total_context_budget = token_budget +
  cost_alignment :: int

definition TokenBudget_init :: "int \<Rightarrow> bool \<Rightarrow> request_type list \<Rightarrow> int \<Rightarrow> token_budget" where
  "TokenBudget_init cap chunking types min_chunk =
     \<lparr>capacity = cap, allow_chunking = chunking, applicable_types = types,
      min_chunk_tokens = min_chunk, used = 0, active_request_type = UNKNOWN\<rparr>"

definition TotalContextTokenBudget_init ::
  "int \<Rightarrow> bool \<Rightarrow> request_type list \<Rightarrow> int \<Rightarrow> total_context_budget" where
  "TotalContextTokenBudget_init cap chunking types align =
     token_budget.extend (TokenBudget_init cap chunking types 0)
       (total_context_budget.fields align)"

definition remaining :: "'a token_budget_scheme \<Rightarrow> int" where
  "remaining b = capacity b - used b"

subsection \<open>ActiveTokenBudget\<close>

text \<open>The cut point: where the window is chunked, or \<open>None\<close> when the floor allows no cut.\<close>

definition chunk_size_for :: "token_budget \<Rightarrow> token_buffer \<Rightarrow> int option" where
  "chunk_size_for b t =
     (let chunk_size = remaining b in
      if min_chunk_tokens b > 0 then
        let chunk_size = (if active_length t - chunk_size < min_chunk_tokens b
                          then active_length t - min_chunk_tokens b else chunk_size)
        in if chunk_size < min_chunk_tokens b then None else Some chunk_size
      else Some chunk_size)"

definition active_status_after_context ::
  "token_budget \<Rightarrow> request_type \<Rightarrow> token_buffer \<Rightarrow> (budget_status \<times> token_buffer) result" where
  "active_status_after_context b rt t =
     (if active_request_type b \<notin> set (applicable_types b) \<and> rt \<notin> set (applicable_types b)
      then Inr (BUDGET_AVAILABLE, t)
      else if remaining b \<le> 0 then Inr (BUDGET_EXHAUSTED, t)
      else if active_length t = remaining b then Inr (BUDGET_REACHED, t)
      else if active_length t < remaining b then Inr (BUDGET_AVAILABLE, t)
      else if \<not> allow_chunking b then Inr (BUDGET_REACHED, t)
      else case chunk_size_for b t of
        None \<Rightarrow> Inr (BUDGET_EXHAUSTED, t)
      | Some chunk_size \<Rightarrow>
          (case chunk chunk_size t of
             Inr t' \<Rightarrow> Inr (BUDGET_REACHED, t')
           | Inl e \<Rightarrow> if e = ValueError then Inr (BUDGET_EXHAUSTED, t) else Inl e))"

definition active_add_to_budget ::
  "token_budget \<Rightarrow> request_type \<Rightarrow> token_buffer \<Rightarrow> token_budget result" where
  "active_add_to_budget b rt t =
     (let b = (if active_request_type b \<noteq> MIXED \<and> rt \<noteq> active_request_type b
               then b\<lparr>active_request_type := rt\<rparr> else b)
      in Inr (b\<lparr>used := used b + active_length t\<rparr>))"

subsection \<open>TotalContextTokenBudget\<close>

definition align_up :: "int \<Rightarrow> int \<Rightarrow> int result" where
  "align_up x align = raise_if (align = 0) ZeroDivisionError (Inr ((x + align - 1) div align * align))"

definition total_status_after_context ::
  "total_context_budget \<Rightarrow> request_type \<Rightarrow> token_buffer \<Rightarrow> (budget_status \<times> token_buffer) result" where
  "total_status_after_context b rt t =
     (if rt \<notin> set (applicable_types b) then Inr (BUDGET_AVAILABLE, t)
      else if remaining b \<le> 0 then Inr (BUDGET_EXHAUSTED, t)
      else bind_r (align_up (tb_len t) (cost_alignment b)) (\<lambda>total_length.
        Inr (if total_length < remaining b then BUDGET_AVAILABLE
             else if total_length = remaining b then BUDGET_REACHED
             else BUDGET_EXHAUSTED, t)))"

definition total_add_to_budget ::
  "total_context_budget \<Rightarrow> request_type \<Rightarrow> token_buffer \<Rightarrow> total_context_budget result" where
  "total_add_to_budget b rt t =
     bind_r (align_up (tb_len t) (cost_alignment b)) (\<lambda>c. Inr (b\<lparr>used := used b + c\<rparr>))"

subsection \<open>TokenBudgetCollection\<close>

datatype budget = ActiveTokenBudget token_budget | TotalContextTokenBudget total_context_budget

fun budget_remaining :: "budget \<Rightarrow> int" where
  "budget_remaining (ActiveTokenBudget b) = remaining b"
| "budget_remaining (TotalContextTokenBudget b) = remaining b"

fun budget_status_after ::
  "budget \<Rightarrow> request_type \<Rightarrow> token_buffer \<Rightarrow> (budget_status \<times> token_buffer) result" where
  "budget_status_after (ActiveTokenBudget b) rt t = active_status_after_context b rt t"
| "budget_status_after (TotalContextTokenBudget b) rt t = total_status_after_context b rt t"

fun budget_add :: "budget \<Rightarrow> request_type \<Rightarrow> token_buffer \<Rightarrow> budget result" where
  "budget_add (ActiveTokenBudget b) rt t =
     bind_r (active_add_to_budget b rt t) (\<lambda>b. Inr (ActiveTokenBudget b))"
| "budget_add (TotalContextTokenBudget b) rt t =
     bind_r (total_add_to_budget b rt t) (\<lambda>b. Inr (TotalContextTokenBudget b))"

text \<open>\<open>min_val\<close> is \<open>None\<close> while it is still the float infinity.\<close>

definition collection_remaining :: "budget list \<Rightarrow> int result" where
  "collection_remaining bs =
     (case foldl (\<lambda>min_val b. Some (case min_val of None \<Rightarrow> budget_remaining b
                                    | Some m \<Rightarrow> min m (budget_remaining b))) None bs of
        None \<Rightarrow> Inl ValueError | Some m \<Rightarrow> Inr m)"

fun collection_status_after_context ::
  "budget list \<Rightarrow> request_type \<Rightarrow> token_buffer \<Rightarrow> (budget_status \<times> token_buffer) result" where
  "collection_status_after_context [] rt t = Inr (BUDGET_AVAILABLE, t)"
| "collection_status_after_context (b # bs) rt t =
     bind_r (budget_status_after b rt t) (\<lambda>(status, t).
       if status \<noteq> BUDGET_AVAILABLE then Inr (status, t)
       else collection_status_after_context bs rt t)"

fun collection_add_to_budget ::
  "budget list \<Rightarrow> request_type \<Rightarrow> token_buffer \<Rightarrow> budget list result" where
  "collection_add_to_budget [] rt t = Inr []"
| "collection_add_to_budget (b # bs) rt t =
     bind_r (budget_add b rt t) (\<lambda>b. bind_r (collection_add_to_budget bs rt t) (\<lambda>bs. Inr (b # bs)))"

text \<open>
  \<open>_create_new_token_budget\<close> of the text batch constructor: the collection the scheduler
  builds for every batch.
\<close>

definition create_new_token_budget ::
  "int option \<Rightarrow> int \<Rightarrow> bool \<Rightarrow> int \<Rightarrow> int option \<Rightarrow> int \<Rightarrow> budget list" where
  "create_new_token_budget ce_capacity target_tokens_per_batch_ce enable_chunked_prefill
     chunked_prefill_min_chunk_size max_batch_total_tokens page_size =
     [ActiveTokenBudget (TokenBudget_init
        (case ce_capacity of Some c \<Rightarrow> c | None \<Rightarrow> target_tokens_per_batch_ce)
        enable_chunked_prefill RequestType_all chunked_prefill_min_chunk_size)] @
     (case max_batch_total_tokens of None \<Rightarrow> []
      | Some m \<Rightarrow> [TotalContextTokenBudget
          (TotalContextTokenBudget_init m enable_chunked_prefill [CE, MIXED] page_size)])"

section \<open>The budget contract\<close>

text \<open>
  The admission loop around a budget: a context whose status is exhausted ends the loop
  without being admitted, one that reaches the budget is admitted and ends the loop.
  The result is the budget, the admitted contexts and the ones left.
\<close>

fun admit ::
  "('b \<Rightarrow> request_type \<Rightarrow> token_buffer \<Rightarrow> (budget_status \<times> token_buffer) result) \<Rightarrow>
   ('b \<Rightarrow> request_type \<Rightarrow> token_buffer \<Rightarrow> 'b result) \<Rightarrow> request_type \<Rightarrow> 'b \<Rightarrow> token_buffer list \<Rightarrow>
   ('b \<times> token_buffer list \<times> token_buffer list) result" where
  "admit status add rt b [] = Inr (b, [], [])"
| "admit status add rt b (t # ts) =
     bind_r (status b rt t) (\<lambda>(s, t).
       case s of
         BUDGET_EXHAUSTED \<Rightarrow> Inr (b, [], t # ts)
       | BUDGET_REACHED \<Rightarrow> bind_r (add b rt t) (\<lambda>b. Inr (b, [t], ts))
       | BUDGET_AVAILABLE \<Rightarrow> bind_r (add b rt t) (\<lambda>b.
           bind_r (admit status add rt b ts) (\<lambda>(b, admitted, rest). Inr (b, t # admitted, rest))))"

text \<open>The same tokens, with the window possibly shortened at its end.\<close>

definition shortened :: "token_buffer \<Rightarrow> token_buffer \<Rightarrow> bool" where
  "shortened t t' \<longleftrightarrow> tokens_all t' = tokens_all t \<and> processed_length t' = processed_length t \<and>
     active_length t' \<le> active_length t \<and> 0 < active_length t'"

locale token_budget_contract =
  fixes status :: "'b \<Rightarrow> request_type \<Rightarrow> token_buffer \<Rightarrow> (budget_status \<times> token_buffer) result"
    and add :: "'b \<Rightarrow> request_type \<Rightarrow> token_buffer \<Rightarrow> 'b result"
    and spent :: "'b \<Rightarrow> int" and cap :: "'b \<Rightarrow> int" and cost :: "'b \<Rightarrow> token_buffer \<Rightarrow> int"
    and hard :: "request_type \<Rightarrow> 'b \<Rightarrow> bool"
  assumes status_returns: "hard rt b \<Longrightarrow> tb_ready t \<Longrightarrow>
      \<exists>s t'. status b rt t = Inr (s, t') \<and> tb_ready t' \<and> shortened t t'"
    and exhausted_same: "status b rt t = Inr (BUDGET_EXHAUSTED, t') \<Longrightarrow> t' = t"
    and accepted_fits: "hard rt b \<Longrightarrow> tb_ready t \<Longrightarrow> status b rt t = Inr (s, t') \<Longrightarrow>
      s \<noteq> BUDGET_EXHAUSTED \<Longrightarrow> spent b + cost b t' \<le> cap b"
    and add_charges: "hard rt b \<Longrightarrow> \<exists>b'. add b rt t = Inr b' \<and> spent b' = spent b + cost b t \<and>
      cap b' = cap b \<and> cost b' = cost b \<and> hard rt b'"
begin

lemma admit_within_capacity:
  assumes "hard rt b" and "spent b \<le> cap b" and "\<forall>t \<in> set ts. tb_ready t"
  shows "\<exists>b' admitted rest. admit status add rt b ts = Inr (b', admitted, rest) \<and>
    spent b' = spent b + (\<Sum>t\<leftarrow>admitted. cost b t) \<and> spent b' \<le> cap b \<and>
    length admitted \<le> length ts \<and> list_all2 shortened (take (length admitted) ts) admitted \<and>
    rest = drop (length admitted) ts"
  using assms
proof (induction ts arbitrary: b)
  case Nil
  then show ?case by simp
next
  case (Cons t ts)
  from Cons.prems have t: "tb_ready t" by simp
  obtain s t' where s: "status b rt t = Inr (s, t')" "tb_ready t'" "shortened t t'"
    using status_returns [OF Cons.prems(1) t] by blast
  obtain b1 where b1: "add b rt t' = Inr b1" "spent b1 = spent b + cost b t'" "cap b1 = cap b"
    "cost b1 = cost b" "hard rt b1"
    using add_charges [OF Cons.prems(1)] by blast
  show ?case
  proof (cases s)
    case BUDGET_EXHAUSTED
    with s have "admit status add rt b (t # ts) = Inr (b, [], t # ts)"
      using exhausted_same [of b rt t t'] by simp
    then show ?thesis using Cons.prems by simp
  next
    case BUDGET_REACHED
    with s b1 have "admit status add rt b (t # ts) = Inr (b1, [t'], ts)" by simp
    then show ?thesis
      using BUDGET_REACHED accepted_fits [OF Cons.prems(1) t s(1)] b1(2,3) s(3) by simp
  next
    case BUDGET_AVAILABLE
    with accepted_fits [OF Cons.prems(1) t s(1)] b1 have "spent b1 \<le> cap b1" by simp
    moreover have "\<forall>t \<in> set ts. tb_ready t" using Cons.prems(3) by simp
    ultimately obtain b' adm rest where ih:
      "admit status add rt b1 ts = Inr (b', adm, rest)"
      "spent b' = spent b1 + (\<Sum>t\<leftarrow>adm. cost b1 t)" "spent b' \<le> cap b1"
      "length adm \<le> length ts" "list_all2 shortened (take (length adm) ts) adm"
      "rest = drop (length adm) ts" using Cons.IH [OF b1(5)] by blast
    have "admit status add rt b (t # ts) = Inr (b', t' # adm, rest)"
      using BUDGET_AVAILABLE s(1) b1(1) ih(1) by simp
    then show ?thesis
      using ih(2-) s(3) b1(2-4) by (intro exI [of _ b'] exI [of _ "t' # adm"] exI [of _ rest]) simp
  qed
qed

end

section \<open>The budgets meet the contract\<close>

lemma shortened_refl: "tb_ready t \<Longrightarrow> shortened t t"
  by (auto simp: shortened_def tb_ready_def active_length_def range_len_def)

lemma chunk_shortens:
  assumes "tb_ready t" and "0 < n" and "n < active_length t"
  shows "\<exists>t'. chunk n t = Inr t' \<and> tb_ready t' \<and> shortened t t' \<and> active_length t' = n"
proof -
  have inv: "tb_inv t" and off: "processing_offset t = 0"
    using assms(1) by (simp_all add: tb_ready_def)
  obtain t' where c: "chunk n t = Inr t'"
    using assms inv off by (auto simp: chunk_def range_defs tb_inv_def active_length_def)
  have t': "t' = t\<lparr>processing_range := (processing_range t)\<lparr>r_end := r_start (processing_range t) + n\<rparr>,
      actively_chunked := True\<rparr>"
    using chunk_Inr [OF c inv] off by simp
  have "tb_ready t'"
    using tb_exec_ready [OF assms(1), of "Chunk n"] c by (simp add: op_ok_def)
  moreover have "active_length t' = n"
    using assms off by (simp add: t' active_length_def range_len_def)
  ultimately show ?thesis
    using c assms by (simp add: shortened_def t' tokens_all_def processed_length_def)
qed

lemma chunk_size_for_bounds:
  assumes "0 < remaining b" and "remaining b < active_length t" and "chunk_size_for b t = Some n"
  shows "0 < n" and "n \<le> remaining b" and "n < active_length t"
    and "0 < min_chunk_tokens b \<Longrightarrow> min_chunk_tokens b \<le> n \<and> min_chunk_tokens b \<le> active_length t - n"
  using assms by (auto simp: chunk_size_for_def Let_def split: if_splits)

definition active_hard :: "request_type \<Rightarrow> token_budget \<Rightarrow> bool" where
  "active_hard rt b \<longleftrightarrow> allow_chunking b \<and> rt \<in> set (applicable_types b)"

text \<open>With chunking on, an applicable context always gets an answer, and an accepted one fits.\<close>

lemma active_status_ok:
  assumes "active_hard rt b" and t: "tb_ready t"
  obtains s t' where "active_status_after_context b rt t = Inr (s, t')" and "tb_ready t'"
    and "shortened t t'" and "s \<noteq> BUDGET_EXHAUSTED \<Longrightarrow> used b + active_length t' \<le> capacity b"
proof (cases "remaining b \<le> 0 \<or> active_length t \<le> remaining b \<or> chunk_size_for b t = None")
  case True
  then have "\<exists>s. active_status_after_context b rt t = Inr (s, t) \<and>
      (s \<noteq> BUDGET_EXHAUSTED \<longrightarrow> used b + active_length t \<le> capacity b)"
    using assms by (auto simp: active_status_after_context_def active_hard_def remaining_def)
  then show thesis using that [of _ t] t shortened_refl [OF t] by blast
next
  case False
  then obtain n where n: "chunk_size_for b t = Some n" and r: "0 < remaining b" "remaining b < active_length t"
    by auto
  note nb = chunk_size_for_bounds [OF r n]
  obtain t' where "chunk n t = Inr t'" "tb_ready t'" "shortened t t'" "active_length t' = n"
    using chunk_shortens [OF t nb(1,3)] by blast
  moreover from this have "active_status_after_context b rt t = Inr (BUDGET_REACHED, t')"
    using r n assms(1) by (auto simp: active_status_after_context_def active_hard_def)
  ultimately show thesis
    using that [of BUDGET_REACHED t'] nb(2) by (simp add: remaining_def)
qed

lemma active_exhausted_same:
  "active_status_after_context b rt t = Inr (BUDGET_EXHAUSTED, t') \<Longrightarrow> t' = t"
  by (auto simp: active_status_after_context_def split: if_splits option.splits sum.splits)

interpretation active_budget: token_budget_contract active_status_after_context active_add_to_budget
  used capacity "\<lambda>_. active_length" active_hard
proof unfold_locales
  fix rt and b :: token_budget and t
  assume "active_hard rt b" and "tb_ready t"
  then show "\<exists>s t'. active_status_after_context b rt t = Inr (s, t') \<and> tb_ready t' \<and> shortened t t'"
    using active_status_ok by blast
next
  fix rt and b :: token_budget and t s t'
  assume "active_hard rt b" and "tb_ready t" and "active_status_after_context b rt t = Inr (s, t')"
    and "s \<noteq> BUDGET_EXHAUSTED"
  then show "used b + active_length t' \<le> capacity b"
    using active_status_ok [of rt b t] by (metis Pair_inject sum.inject(2))
next
  fix rt and b :: token_budget and t
  assume "active_hard rt b"
  then show "\<exists>b'. active_add_to_budget b rt t = Inr b' \<and> used b' = used b + active_length t \<and>
      capacity b' = capacity b \<and> active_length = active_length \<and> active_hard rt b'"
    by (simp add: active_add_to_budget_def Let_def active_hard_def)
qed (rule active_exhausted_same)

definition aligned_length :: "total_context_budget \<Rightarrow> token_buffer \<Rightarrow> int" where
  "aligned_length b t = (tb_len t + cost_alignment b - 1) div cost_alignment b * cost_alignment b"

definition total_hard :: "request_type \<Rightarrow> total_context_budget \<Rightarrow> bool" where
  "total_hard rt b \<longleftrightarrow> rt \<in> set (applicable_types b) \<and> 0 < cost_alignment b"

lemma align_up_ok: "0 < cost_alignment b \<Longrightarrow> align_up (tb_len t) (cost_alignment b) = Inr (aligned_length b t)"
  by (simp add: align_up_def aligned_length_def)

text \<open>The charged cost is the least multiple of the page size that covers the context.\<close>

lemma aligned_length_covers:
  assumes "0 < cost_alignment b"
  shows "tb_len t \<le> aligned_length b t" and "aligned_length b t < tb_len t + cost_alignment b"
    and "cost_alignment b dvd aligned_length b t"
proof -
  let ?a = "cost_alignment b" and ?x = "tb_len t + cost_alignment b - 1"
  have "?x div ?a * ?a = ?x - ?x mod ?a" by (simp add: minus_mod_eq_div_mult [symmetric])
  moreover have "0 \<le> ?x mod ?a" "?x mod ?a < ?a" using assms by simp_all
  ultimately show "tb_len t \<le> aligned_length b t" and "aligned_length b t < tb_len t + cost_alignment b"
    by (simp_all add: aligned_length_def)
  show "?a dvd aligned_length b t" by (simp add: aligned_length_def)
qed

interpretation total_budget: token_budget_contract total_status_after_context total_add_to_budget
  used capacity aligned_length total_hard
proof unfold_locales
  fix rt b t
  assume "total_hard rt b" and "tb_ready t"
  then show "\<exists>s t'. total_status_after_context b rt t = Inr (s, t') \<and> tb_ready t' \<and> shortened t t'"
    using shortened_refl by (simp add: total_status_after_context_def total_hard_def align_up_ok)
next
  fix b rt t t'
  assume "total_status_after_context b rt t = Inr (BUDGET_EXHAUSTED, t')"
  then show "t' = t" by (auto simp: total_status_after_context_def result_Inr split: if_splits)
next
  fix rt b t s t'
  assume "total_hard rt b" and "tb_ready t" and "total_status_after_context b rt t = Inr (s, t')"
    and "s \<noteq> BUDGET_EXHAUSTED"
  then show "used b + aligned_length b t' \<le> capacity b"
    by (auto simp: total_status_after_context_def total_hard_def align_up_ok remaining_def split: if_splits)
next
  fix rt b t
  assume "total_hard rt b"
  then show "\<exists>b'. total_add_to_budget b rt t = Inr b' \<and> used b' = used b + aligned_length b t \<and>
      capacity b' = capacity b \<and> aligned_length b' = aligned_length b \<and> total_hard rt b'"
    by (auto simp: total_add_to_budget_def total_hard_def align_up_ok aligned_length_def fun_eq_iff)
qed

text \<open>
  The collection the scheduler builds: its first budget is the active-token budget, which is
  therefore always consulted; the rest are total-context budgets, which never chunk.
\<close>

definition step_hard :: "request_type \<Rightarrow> budget list \<Rightarrow> bool" where
  "step_hard rt bs \<longleftrightarrow> (\<exists>b cs. bs = ActiveTokenBudget b # map TotalContextTokenBudget cs \<and>
     active_hard rt b \<and> list_all (\<lambda>c. 0 < cost_alignment c) cs)"

fun step_used :: "budget list \<Rightarrow> int" where
  "step_used (ActiveTokenBudget b # _) = used b" | "step_used _ = 0"

fun step_capacity :: "budget list \<Rightarrow> int" where
  "step_capacity (ActiveTokenBudget b # _) = capacity b" | "step_capacity _ = 0"

lemma total_status_cases:
  "0 < cost_alignment c \<Longrightarrow> \<exists>s. total_status_after_context c rt t = Inr (s, t)"
  by (simp add: total_status_after_context_def align_up_ok)

lemma totals_status: "list_all (\<lambda>c. 0 < cost_alignment c) cs \<Longrightarrow>
    \<exists>s. collection_status_after_context (map TotalContextTokenBudget cs) rt t = Inr (s, t)"
proof (induction cs)
  case (Cons c cs)
  then obtain s where "total_status_after_context c rt t = Inr (s, t)"
    using total_status_cases [of c rt t] by auto
  with Cons show ?case by simp
qed simp

lemma totals_add: "list_all (\<lambda>c. 0 < cost_alignment c) cs \<Longrightarrow>
    \<exists>cs'. collection_add_to_budget (map TotalContextTokenBudget cs) rt t =
       Inr (map TotalContextTokenBudget cs') \<and> list_all (\<lambda>c. 0 < cost_alignment c) cs'"
proof (induction cs)
  case (Cons c cs)
  then obtain cs' where "collection_add_to_budget (map TotalContextTokenBudget cs) rt t =
      Inr (map TotalContextTokenBudget cs')" "list_all (\<lambda>c. 0 < cost_alignment c) cs'" by auto
  moreover define c' where "c' = c\<lparr>used := used c + aligned_length c t\<rparr>"
  moreover have "total_add_to_budget c rt t = Inr c'" "0 < cost_alignment c'"
    using Cons.prems by (simp_all add: total_add_to_budget_def align_up_ok c'_def)
  ultimately show ?case by (intro exI [of _ "c' # cs'"]) simp
qed simp

lemma step_status:
  assumes h: "active_hard rt b" and cs: "list_all (\<lambda>c. 0 < cost_alignment c) cs" and t: "tb_ready t"
  obtains s t' where
    "collection_status_after_context (ActiveTokenBudget b # map TotalContextTokenBudget cs) rt t = Inr (s, t')"
    and "tb_ready t'" and "shortened t t'"
    and "s \<noteq> BUDGET_EXHAUSTED \<Longrightarrow> used b + active_length t' \<le> capacity b"
proof -
  obtain s t' where a: "active_status_after_context b rt t = Inr (s, t')" "tb_ready t'" "shortened t t'"
    "s \<noteq> BUDGET_EXHAUSTED \<Longrightarrow> used b + active_length t' \<le> capacity b"
    by (rule active_status_ok [OF h t]) (rule that)
  obtain s' where c: "collection_status_after_context (map TotalContextTokenBudget cs) rt t' = Inr (s', t')"
    using totals_status [OF cs] by blast
  show thesis
    by (rule that [of "if s \<noteq> BUDGET_AVAILABLE then s else s'" t'])
      (use a c in \<open>simp_all split: if_splits\<close>)
qed

lemma active_available_same:
  "active_status_after_context b rt t = Inr (BUDGET_AVAILABLE, t') \<Longrightarrow> t' = t"
  by (auto simp: active_status_after_context_def split: if_splits option.splits sum.splits)

lemma collection_exhausted_same:
  "collection_status_after_context bs rt t = Inr (BUDGET_EXHAUSTED, t') \<Longrightarrow> t' = t"
proof (induction bs arbitrary: t)
  case (Cons b bs)
  then obtain s t1 where s: "budget_status_after b rt t = Inr (s, t1)" by (auto simp: result_Inr)
  have same: "t1 = t" if "s = BUDGET_EXHAUSTED \<or> s = BUDGET_AVAILABLE"
    using that s active_exhausted_same active_available_same
    by (cases b) (auto simp: total_status_after_context_def result_Inr split: if_splits)
  show ?case
  proof (cases "s = BUDGET_AVAILABLE")
    case True
    with same Cons.prems s Cons.IH [of t] show ?thesis by simp
  next
    case False
    with same Cons.prems s show ?thesis by simp
  qed
qed simp

interpretation step_budget: token_budget_contract collection_status_after_context collection_add_to_budget
  step_used step_capacity "\<lambda>_. active_length" step_hard
proof unfold_locales
  fix rt bs t
  assume "step_hard rt bs" and t: "tb_ready t"
  then obtain b cs where "bs = ActiveTokenBudget b # map TotalContextTokenBudget cs"
    and h: "active_hard rt b" "list_all (\<lambda>c. 0 < cost_alignment c) cs" by (auto simp: step_hard_def)
  with step_status [OF h t]
  show "\<exists>s t'. collection_status_after_context bs rt t = Inr (s, t') \<and> tb_ready t' \<and> shortened t t'"
    by metis
next
  fix rt bs t s t'
  assume "step_hard rt bs" and t: "tb_ready t" and st: "collection_status_after_context bs rt t = Inr (s, t')"
    and ne: "s \<noteq> BUDGET_EXHAUSTED"
  then obtain b cs where bs: "bs = ActiveTokenBudget b # map TotalContextTokenBudget cs"
    and h: "active_hard rt b" "list_all (\<lambda>c. 0 < cost_alignment c) cs" by (auto simp: step_hard_def)
  from step_status [OF h t] st ne show "step_used bs + active_length t' \<le> step_capacity bs"
    unfolding bs by (metis Pair_inject sum.inject(2) step_used.simps(1) step_capacity.simps(1))
next
  fix rt bs t
  assume "step_hard rt bs"
  then obtain b cs where bs: "bs = ActiveTokenBudget b # map TotalContextTokenBudget cs"
    and h: "active_hard rt b" "list_all (\<lambda>c. 0 < cost_alignment c) cs" by (auto simp: step_hard_def)
  obtain b' where b': "active_add_to_budget b rt t = Inr b'" "used b' = used b + active_length t"
    "capacity b' = capacity b" "active_hard rt b'"
    using active_budget.add_charges [OF h(1)] by blast
  obtain cs' where cs': "collection_add_to_budget (map TotalContextTokenBudget cs) rt t =
      Inr (map TotalContextTokenBudget cs')" "list_all (\<lambda>c. 0 < cost_alignment c) cs'"
    using totals_add [OF h(2)] by blast
  have "step_hard rt (ActiveTokenBudget b' # map TotalContextTokenBudget cs')"
    using b'(4) cs'(2) by (auto simp: step_hard_def)
  with b' cs' show "\<exists>bs'. collection_add_to_budget bs rt t = Inr bs' \<and>
      step_used bs' = step_used bs + active_length t \<and> step_capacity bs' = step_capacity bs \<and>
      active_length = active_length \<and> step_hard rt bs'"
    by (simp add: bs)
qed (rule collection_exhausted_same)

section \<open>Properties\<close>

lemma scheduler_budget_hard:
  "0 < page \<Longrightarrow> rt \<noteq> UNKNOWN \<Longrightarrow> step_hard rt (create_new_token_budget (Some cap) tgt True floor tot page)"
  by (cases rt; cases tot) (auto simp: step_hard_def create_new_token_budget_def active_hard_def
      TokenBudget_init_def RequestType_all_def TotalContextTokenBudget_init_def
      token_budget.extend_def total_context_budget.fields_def intro: exI [of _ "[]"] exI [of _ "[_]"])

text \<open>
  C12. With chunked prefill on, the batch the scheduler's budget admits never processes more
  tokens in a step than the configured capacity, whatever contexts are queued: the admission
  loop returns, the active tokens of the admitted contexts add up to at most the capacity, and
  the contexts are admitted in queue order with at most their window cut short.
\<close>
theorem step_budget_never_exceeded:
  assumes "0 \<le> cap" and "0 < page" and "rt \<noteq> UNKNOWN" and "\<forall>t \<in> set ts. tb_ready t"
  shows "\<exists>bs admitted rest.
    admit collection_status_after_context collection_add_to_budget rt
      (create_new_token_budget (Some cap) tgt True floor tot page) ts = Inr (bs, admitted, rest) \<and>
    (\<Sum>t\<leftarrow>admitted. active_length t) \<le> cap \<and>
    list_all2 shortened (take (length admitted) ts) admitted \<and> rest = drop (length admitted) ts"
proof -
  let ?b = "create_new_token_budget (Some cap) tgt True floor tot page"
  have u: "step_used ?b = 0" "step_capacity ?b = cap"
    by (simp_all add: create_new_token_budget_def TokenBudget_init_def)
  then have "step_used ?b \<le> step_capacity ?b" using assms(1) by simp
  from step_budget.admit_within_capacity [OF scheduler_budget_hard [OF assms(2,3)] this assms(4)]
  show ?thesis unfolding u by auto
qed

lemmas budget_run_simps = create_new_token_budget_def TokenBudget_init_def RequestType_all_def
  TotalContextTokenBudget_init_def token_budget.extend_def total_context_budget.fields_def
  active_status_after_context_def active_add_to_budget_def total_status_after_context_def
  total_add_to_budget_def remaining_def chunk_size_for_def chunk_def align_up_def range_defs
  active_length_def tb_len_def tokens_all_def py_slice_def slice_bound_def example_buffer_def

theorem step_budget_never_exceeded_witness:
  "\<exists>bs admitted rest.
    admit collection_status_after_context collection_add_to_budget CE
      (create_new_token_budget (Some 6) 6 True 0 None 1) [example_buffer, example_buffer] =
      Inr (bs, admitted, rest) \<and> (\<Sum>t\<leftarrow>admitted. active_length t) \<le> 6"
  using step_budget_never_exceeded [of 6 1 CE "[example_buffer, example_buffer]" 6 0 None]
    example_buffer_ready by auto

text \<open>
  C34. The total-context budget is a hard limit for the request types it applies to: the
  contexts the admission loop accepts cost, rounded up to pages, at most its capacity, and the
  cost charged for a context is the least multiple of the page size that covers it.
\<close>
theorem total_budget_never_exceeded:
  assumes "rt \<in> set types" and "0 < page" and "0 \<le> cap" and "\<forall>t \<in> set ts. tb_ready t"
  shows "\<exists>b admitted rest.
    admit total_status_after_context total_add_to_budget rt
      (TotalContextTokenBudget_init cap chunking types page) ts = Inr (b, admitted, rest) \<and>
    used b = (\<Sum>t\<leftarrow>admitted. page * ceildiv (tb_len t) page) \<and> used b \<le> cap"
proof -
  let ?b = "TotalContextTokenBudget_init cap chunking types page"
  have u: "used ?b = 0" "capacity ?b = cap" "cost_alignment ?b = page" "total_hard rt ?b"
    using assms(1,2) by (simp_all add: budget_run_simps total_hard_def)
  have "aligned_length ?b t = page * ceildiv (tb_len t) page" for t
  proof -
    obtain k where k: "aligned_length ?b t = page * k"
      using aligned_length_covers(3) [of ?b t] assms(2) u(3) by (auto elim: dvdE)
    have "tb_len t \<le> k * page" "k * page < tb_len t + page"
      using aligned_length_covers(1,2) [of ?b t] assms(2) u(3) k by (simp_all add: mult.commute)
    then have "ceildiv (tb_len t) page \<le> k" "\<not> ceildiv (tb_len t) page \<le> k - 1"
      using ceildiv_least [OF assms(2), of "tb_len t" k] ceildiv_least [OF assms(2), of "tb_len t" "k - 1"]
      by (simp_all add: left_diff_distrib)
    with k show ?thesis by simp
  qed
  moreover have "used ?b \<le> capacity ?b" using u assms(3) by simp
  note total_budget.admit_within_capacity [OF u(4) this assms(4)]
  ultimately show ?thesis unfolding u by auto
qed

theorem total_budget_never_exceeded_witness:
  "\<exists>b admitted rest.
    admit total_status_after_context total_add_to_budget CE
      (TotalContextTokenBudget_init 8 True [CE] 3) [example_buffer] = Inr (b, admitted, rest) \<and> used b \<le> 8"
  using total_budget_never_exceeded [of CE "[CE]" 3 8 "[example_buffer]" True] example_buffer_ready
  by auto

text \<open>
  When the active-token budget accepts a context it does not fit, it has cut the window:
  no piece is smaller than the configured floor, the piece fits the remaining budget, and the
  piece followed by what \<open>advance_chunk\<close> makes active next is the original window.
\<close>
theorem chunk_split_respects_floor:
  assumes t: "tb_ready t" "\<not> actively_chunked t" and ch: "allow_chunking b"
    and app: "rt \<in> set (applicable_types b)" and big: "remaining b < active_length t"
    and st: "active_status_after_context b rt t = Inr (BUDGET_REACHED, t')"
  shows "\<exists>t''. advance_chunk t' = Inr t'' \<and> active t = active t' @ active t'' \<and>
    active_length t' \<le> remaining b \<and>
    max 1 (min_chunk_tokens b) \<le> active_length t' \<and> max 1 (min_chunk_tokens b) \<le> active_length t''"
proof -
  have r: "0 < remaining b"
    using st app by (auto simp: active_status_after_context_def split: if_splits)
  obtain n where n: "chunk_size_for b t = Some n" and c: "chunk n t = Inr t'"
    using st app ch big by (auto simp: active_status_after_context_def split: if_splits option.splits sum.splits)
  note nb = chunk_size_for_bounds [OF r big n]
  have inv: "tb_inv t" using t by (simp add: tb_ready_def)
  have "actively_chunked t' \<and> processing_offset t' = 0"
    using chunk_Inr [OF c inv] t(1) by (simp add: tb_ready_def)
  then obtain t'' where a: "advance_chunk t' = Inr t''"
    by (auto simp: advance_chunk_def reset_offset_def)
  note sp = chunk_split [OF t c a]
  have "int (length (active t)) = active_length t" "int (length (active t'')) = active_length t''"
      "int (length (active t')) = active_length t'"
    using active_eq_slice(1) inv sp(2) chunk_inv [OF inv c] by (simp_all add: tb_ready_def)
  then have "active_length t'' = active_length t - n" using sp(1,5) by simp
  with a sp nb show ?thesis by force
qed

theorem chunk_split_respects_floor_witness:
  "let b = TokenBudget_init 3 True [CE] 2 in
   \<exists>t' t''. active_status_after_context b CE example_buffer = Inr (BUDGET_REACHED, t') \<and>
     advance_chunk t' = Inr t'' \<and> active example_buffer = active t' @ active t'' \<and>
     2 \<le> active_length t' \<and> 2 \<le> active_length t''"
proof -
  let ?b = "TokenBudget_init 3 True [CE] 2"
  let ?t = "example_buffer\<lparr>processing_range := \<lparr>r_start = 0, r_end = 2\<rparr>, actively_chunked := True\<rparr>"
  have st: "active_status_after_context ?b CE example_buffer = Inr (BUDGET_REACHED, ?t)"
    by (simp add: budget_run_simps)
  have "\<not> actively_chunked example_buffer" "allow_chunking ?b" "CE \<in> set (applicable_types ?b)"
    "remaining ?b < active_length example_buffer" "min_chunk_tokens ?b = 2"
    by (simp_all add: budget_run_simps)
  with chunk_split_respects_floor [OF example_buffer_ready _ _ _ _ st] st show ?thesis
    by (simp add: Let_def) blast
qed

text \<open>
  The collection stops at the first budget that does not answer "available", so a context
  that merely reaches the active-token budget is admitted without consulting the total-context
  budget: here the scheduler's own collection with \<open>max_batch_total_tokens = 3\<close> accepts a
  context of four tokens and charges it, although that budget by itself refuses it.
\<close>
theorem reached_skips_total_budget:
  "\<exists>active total. create_new_token_budget None 4 True 0 (Some 3) 1 =
       [ActiveTokenBudget active, TotalContextTokenBudget total] \<and>
     total_status_after_context total CE example_buffer = Inr (BUDGET_EXHAUSTED, example_buffer) \<and>
     collection_status_after_context [ActiveTokenBudget active, TotalContextTokenBudget total] CE
       example_buffer = Inr (BUDGET_REACHED, example_buffer) \<and>
     (\<exists>bs. collection_add_to_budget [ActiveTokenBudget active, TotalContextTokenBudget total] CE
       example_buffer = Inr bs \<and> collection_remaining bs = Inr (- 1))"
  by (simp add: budget_run_simps collection_remaining_def)

end
