(* ===== verification/Grammar_State.thy ===== *)
theory Grammar_State
  imports Prelude "HOL-Library.Sublist"
begin

text \<open>
  Grammar enforcement of constrained decoding, the class \<open>GrammarEnforcementState\<close> of
  \<open>max/pipelines/context/context.py\<close>: a state machine over the sampled tokens that detects
  the delimiters of thinking and tool-call regions with bounded match buffers, and says for
  every token whether the grammar matcher has to consume it. The reference machine at the end
  matches delimiters on the whole stream; the bounded buffers are shown to agree with it.
\<close>

section \<open>State\<close>

record region_delimiters =
  start_token_ids :: "int list option"
  end_token_ids :: "int list option"

record response_format =
  rf_grammar_enforced :: bool
  rf_tools_forced :: bool
  rf_requires_structured_output_flag :: bool
  rf_has_json_schema :: bool

record grammar_state =
  grammar_enforced :: bool
  tools_forced :: bool
  requires_structured_output_flag :: bool
  has_json_schema :: bool
  tool_region :: "region_delimiters option"
  thinking_region_delimiters :: "region_delimiters option"
  in_thinking_region :: bool
  tool_calling_match_buffer :: "int list"
  thinking_match_buffer :: "int list"

record grammar_snapshot =
  snap_in_thinking_region :: bool
  snap_grammar_enforced :: bool
  snap_tool_calling_match_buffer :: "int list"
  snap_thinking_match_buffer :: "int list"

definition GrammarState_default :: grammar_state where
  "GrammarState_default = \<lparr>grammar_enforced = False, tools_forced = False,
     requires_structured_output_flag = False, has_json_schema = False, tool_region = None,
     thinking_region_delimiters = None, in_thinking_region = False,
     tool_calling_match_buffer = [], thinking_match_buffer = []\<rparr>"

definition from_response_format :: "response_format option \<Rightarrow> grammar_state" where
  "from_response_format rf =
     (case rf of None \<Rightarrow> GrammarState_default
      | Some r \<Rightarrow> GrammarState_default\<lparr>grammar_enforced := rf_grammar_enforced r,
          tools_forced := rf_tools_forced r,
          requires_structured_output_flag := rf_requires_structured_output_flag r,
          has_json_schema := rf_has_json_schema r\<rparr>)"

section \<open>Operations\<close>

text \<open>The match buffer holds at most as many tokens as the target; it is emptied on a match.\<close>

definition check_sequence_match_with_buffer :: "int \<Rightarrow> int list \<Rightarrow> int list \<Rightarrow> bool \<times> int list" where
  "check_sequence_match_with_buffer token target buffer =
     (let buffer = buffer @ [token];
          max_len = length target;
          buffer = (if length buffer > max_len then drop (length buffer - max_len) buffer else buffer)
      in if py_slice buffer (- int (length target)) (int (length buffer)) = target
         then (True, []) else (False, buffer))"

definition check_sequence_match :: "int \<Rightarrow> int list \<Rightarrow> grammar_state \<Rightarrow> bool \<times> grammar_state" where
  "check_sequence_match token target g =
     (let (m, buffer) = check_sequence_match_with_buffer token target (tool_calling_match_buffer g)
      in (m, g\<lparr>tool_calling_match_buffer := buffer\<rparr>))"

text \<open>The start marker of the tool region, when one is configured, against the next token.\<close>

definition tool_start_matches :: "int \<Rightarrow> grammar_state \<Rightarrow> bool \<times> grammar_state" where
  "tool_start_matches token g =
     (case tool_region g of None \<Rightarrow> (False, g)
      | Some r \<Rightarrow> (case start_token_ids r of None \<Rightarrow> (False, g)
          | Some ids \<Rightarrow> check_sequence_match token ids g))"

definition tool_end_matches :: "int \<Rightarrow> grammar_state \<Rightarrow> bool \<times> grammar_state" where
  "tool_end_matches token g =
     (case tool_region g of None \<Rightarrow> (False, g)
      | Some r \<Rightarrow> (case end_token_ids r of None \<Rightarrow> (False, g)
          | Some ids \<Rightarrow> check_sequence_match token ids g))"

definition thinking_end_matches :: "int \<Rightarrow> grammar_state \<Rightarrow> bool \<times> grammar_state" where
  "thinking_end_matches token g =
     (case thinking_region_delimiters g of None \<Rightarrow> (False, g)
      | Some r \<Rightarrow> (case end_token_ids r of None \<Rightarrow> (False, g)
          | Some ids \<Rightarrow>
              (let (m, buffer) = check_sequence_match_with_buffer token ids (thinking_match_buffer g)
               in (m, g\<lparr>thinking_match_buffer := buffer\<rparr>))))"

definition update_enforcement_state :: "int \<Rightarrow> grammar_state \<Rightarrow> bool \<times> grammar_state" where
  "update_enforcement_state token g =
     (if thinking_region_delimiters g \<noteq> None \<and> in_thinking_region g then
        (let (m, g) = tool_start_matches token g in
         if m then
           (True, g\<lparr>in_thinking_region := False, thinking_match_buffer := [], grammar_enforced := True\<rparr>)
         else
           (let (m, g) = thinking_end_matches token g in
            if m then
              (let g = g\<lparr>in_thinking_region := False\<rparr> in
               (False, if tools_forced g \<or> has_json_schema g then g\<lparr>grammar_enforced := True\<rparr> else g))
            else (False, g)))
      else if tool_region g \<noteq> None \<and> \<not> tools_forced g then
        (if \<not> grammar_enforced g then
           (let (m, g) = tool_start_matches token g in
            if m then (True, g\<lparr>grammar_enforced := True\<rparr>) else (grammar_enforced g, g))
         else
           (let (m, g) = tool_end_matches token g in
            if m then (True, g\<lparr>grammar_enforced := False, tool_calling_match_buffer := []\<rparr>)
            else (grammar_enforced g, g)))
      else (grammar_enforced g, g))"

definition snapshot :: "grammar_state \<Rightarrow> grammar_snapshot" where
  "snapshot g = \<lparr>snap_in_thinking_region = in_thinking_region g,
     snap_grammar_enforced = grammar_enforced g,
     snap_tool_calling_match_buffer = tool_calling_match_buffer g,
     snap_thinking_match_buffer = thinking_match_buffer g\<rparr>"

definition restore :: "grammar_snapshot \<Rightarrow> grammar_state \<Rightarrow> grammar_state" where
  "restore s g = g\<lparr>in_thinking_region := snap_in_thinking_region s,
     grammar_enforced := snap_grammar_enforced s,
     tool_calling_match_buffer := snap_tool_calling_match_buffer s,
     thinking_match_buffer := snap_thinking_match_buffer s\<rparr>"

text \<open>A run over a list of sampled tokens, with the answer given for each.\<close>

fun update_all :: "int list \<Rightarrow> grammar_state \<Rightarrow> bool list \<times> grammar_state" where
  "update_all [] g = ([], g)"
| "update_all (t # ts) g =
     (let (fed, g) = update_enforcement_state t g; (rest, g) = update_all ts g in (fed # rest, g))"

section \<open>Bounded buffers agree with matching on the whole stream\<close>

text \<open>The last \<open>n\<close> elements.\<close>

definition last_n :: "nat \<Rightarrow> 'a list \<Rightarrow> 'a list" where
  "last_n n xs = drop (length xs - n) xs"

lemma length_last_n [simp]: "length (last_n n xs) = min n (length xs)"
  by (simp add: last_n_def)

lemma last_n_Nil: "last_n n [] = []"
  by (simp add: last_n_def)

lemma last_n_snoc: "last_n n (last_n n xs @ [x]) = last_n n (xs @ [x])"
  by (cases "n \<le> length xs") (auto simp: last_n_def Suc_diff_le)

text \<open>\<open>completes ys xs\<close>: the stream \<open>xs\<close> ends with the marker \<open>ys\<close>.\<close>

definition completes :: "int list \<Rightarrow> int list \<Rightarrow> bool" where
  "completes ys xs \<longleftrightarrow> last_n (length ys) xs = ys"

lemma completes_suffix: "completes ys xs \<longleftrightarrow> suffix ys xs"
proof
  assume "completes ys xs"
  then show "suffix ys xs" by (metis completes_def last_n_def suffix_drop)
qed (auto simp: suffix_def completes_def last_n_def)

lemma check_buffer_spec:
  "check_sequence_match_with_buffer t target (last_n (length target) hist) =
     (if completes target (hist @ [t]) then (True, []) else (False, last_n (length target) (hist @ [t])))"
proof -
  let ?n = "length target" and ?b = "last_n (length target) hist @ [t]"
  have trunc: "(if length ?b > ?n then drop (length ?b - ?n) ?b else ?b) = last_n ?n (hist @ [t])"
    using last_n_snoc [of ?n hist t] by (auto simp: last_n_def)
  have tail: "py_slice xs (- int ?n) (int (length xs)) = xs" if "length xs \<le> ?n" for xs :: "int list"
    using that by (auto simp: py_slice_def slice_bound_def)
  have "py_slice (last_n ?n (hist @ [t])) (- int ?n) (int (length (last_n ?n (hist @ [t])))) =
      last_n ?n (hist @ [t])"
    by (rule tail) simp
  then show ?thesis
    unfolding check_sequence_match_with_buffer_def Let_def trunc completes_def by simp
qed

text \<open>
  Tool regions of \<open>tool_choice=auto\<close>, by matching the delimiters on the tokens since the last
  toggle: for every token whether it is part of a region (delimiters included), and whether
  enforcement is on afterwards.
\<close>

fun tool_regions :: "int list \<Rightarrow> int list \<Rightarrow> bool \<Rightarrow> int list \<Rightarrow> int list \<Rightarrow> (bool \<times> bool) list" where
  "tool_regions st en on hist [] = []"
| "tool_regions st en on hist (t # ts) =
     (if completes (if on then en else st) (hist @ [t])
      then (True, \<not> on) # tool_regions st en (\<not> on) [] ts
      else (on, on) # tool_regions st en on (hist @ [t]) ts)"

definition auto_mode :: "int list \<Rightarrow> int list \<Rightarrow> grammar_state \<Rightarrow> bool" where
  "auto_mode st en g \<longleftrightarrow>
     tool_region g = Some \<lparr>start_token_ids = Some st, end_token_ids = Some en\<rparr> \<and>
     \<not> tools_forced g \<and> \<not> in_thinking_region g"

definition tracks :: "int list \<Rightarrow> int list \<Rightarrow> int list \<Rightarrow> grammar_state \<Rightarrow> bool" where
  "tracks st en hist g \<longleftrightarrow> auto_mode st en g \<and>
     tool_calling_match_buffer g = last_n (length (if grammar_enforced g then en else st)) hist"

lemma tracks_Nil: "auto_mode st en g \<Longrightarrow> tool_calling_match_buffer g = [] \<Longrightarrow> tracks st en [] g"
  by (simp add: tracks_def last_n_def)

lemma update_tracks:
  assumes "tracks st en hist g" and "update_enforcement_state t g = (fed, g')"
  shows "if completes (if grammar_enforced g then en else st) (hist @ [t])
    then fed \<and> (grammar_enforced g' \<longleftrightarrow> \<not> grammar_enforced g) \<and> tracks st en [] g'
    else fed = grammar_enforced g \<and> grammar_enforced g' = grammar_enforced g \<and>
      tracks st en (hist @ [t]) g'"
proof (cases "grammar_enforced g")
  case True
  with assms show ?thesis
    by (auto simp: tracks_def auto_mode_def update_enforcement_state_def tool_end_matches_def
        check_sequence_match_def check_buffer_spec Let_def last_n_Nil split: if_splits)
next
  case False
  with assms show ?thesis
    by (auto simp: tracks_def auto_mode_def update_enforcement_state_def tool_start_matches_def
        check_sequence_match_def check_buffer_spec Let_def last_n_Nil split: if_splits)
qed

lemma update_all_tracks:
  assumes "tracks st en hist g"
  shows "fst (update_all ts g) = map fst (tool_regions st en (grammar_enforced g) hist ts)"
  using assms
proof (induction ts arbitrary: g hist)
  case (Cons t ts)
  obtain fed g' where u: "update_enforcement_state t g = (fed, g')" by fastforce
  from update_tracks [OF Cons.prems u] Cons.IH [of _ g'] u show ?case
    by (auto simp: Let_def split_beta split: if_splits)
qed simp

text \<open>Only the four fields a snapshot saves ever change.\<close>

definition same_config :: "grammar_state \<Rightarrow> grammar_state \<Rightarrow> bool" where
  "same_config g g' \<longleftrightarrow> tools_forced g' = tools_forced g \<and>
     requires_structured_output_flag g' = requires_structured_output_flag g \<and>
     has_json_schema g' = has_json_schema g \<and> tool_region g' = tool_region g \<and>
     thinking_region_delimiters g' = thinking_region_delimiters g"

lemmas update_defs = update_enforcement_state_def tool_start_matches_def tool_end_matches_def
  thinking_end_matches_def check_sequence_match_def

lemma update_config: "same_config g (snd (update_enforcement_state t g))"
  by (auto simp: same_config_def update_defs Let_def split_beta split: option.split)

lemma update_all_config: "same_config g (snd (update_all ts g))"
proof (induction ts arbitrary: g)
  case Nil
  then show ?case by (simp add: same_config_def)
next
  case (Cons t ts)
  show ?case
    using update_config [of g t] Cons.IH [of "snd (update_enforcement_state t g)"]
    by (simp add: Let_def split_beta same_config_def)
qed

text \<open>Forced tool calls, once enforced, stay enforced.\<close>

lemma forced_stays:
  "tools_forced g \<Longrightarrow> \<not> in_thinking_region g \<Longrightarrow> update_enforcement_state t g = (grammar_enforced g, g)"
  by (simp add: update_enforcement_state_def)

lemma forced_stays_all:
  "tools_forced g \<Longrightarrow> \<not> in_thinking_region g \<Longrightarrow>
   update_all ts g = (replicate (length ts) (grammar_enforced g), g)"
  by (induction ts) (simp_all add: forced_stays)

text \<open>The thinking region: nothing is fed to the matcher until the end marker has passed.\<close>

definition thinking_mode :: "int list \<Rightarrow> grammar_state \<Rightarrow> bool" where
  "thinking_mode en g \<longleftrightarrow> tool_region g = None \<and> in_thinking_region g \<and>
     (\<exists>r. thinking_region_delimiters g = Some r \<and> end_token_ids r = Some en)"

lemma thinking_step:
  assumes "thinking_mode en g" and "thinking_match_buffer g = last_n (length en) hist"
    and "update_enforcement_state t g = (fed, g')"
  shows "\<not> fed \<and> (if completes en (hist @ [t])
      then \<not> in_thinking_region g' \<and>
        (grammar_enforced g' \<longleftrightarrow> grammar_enforced g \<or> tools_forced g \<or> has_json_schema g) \<and>
        tools_forced g' = tools_forced g \<and> tool_region g' = None
      else thinking_mode en g' \<and> thinking_match_buffer g' = last_n (length en) (hist @ [t]) \<and>
        grammar_enforced g' = grammar_enforced g \<and> tools_forced g' = tools_forced g \<and>
        has_json_schema g' = has_json_schema g)"
  using assms
  by (auto simp: thinking_mode_def update_defs check_buffer_spec Let_def split: if_splits)

lemma no_tools_stays:
  "tool_region g = None \<Longrightarrow> \<not> in_thinking_region g \<Longrightarrow>
   update_all ts g = (replicate (length ts) (grammar_enforced g), g)"
  by (induction ts) (simp_all add: update_enforcement_state_def)

text \<open>The number of tokens up to and including the first completed end marker.\<close>

fun until_marker :: "int list \<Rightarrow> int list \<Rightarrow> int list \<Rightarrow> nat" where
  "until_marker en hist [] = 0"
| "until_marker en hist (t # ts) =
     (if completes en (hist @ [t]) then 1 else Suc (until_marker en (hist @ [t]) ts))"

lemma until_marker_le: "until_marker en hist ts \<le> length ts"
  by (induction ts arbitrary: hist) simp_all

lemma thinking_run:
  assumes "thinking_mode en g" and "thinking_match_buffer g = last_n (length en) hist"
  shows "fst (update_all ts g) = replicate (until_marker en hist ts) False @
    replicate (length ts - until_marker en hist ts)
      (grammar_enforced g \<or> tools_forced g \<or> has_json_schema g)"
  using assms
proof (induction ts arbitrary: g hist)
  case (Cons t ts)
  obtain fed g' where u: "update_enforcement_state t g = (fed, g')" by fastforce
  note st = thinking_step [OF Cons.prems u]
  show ?case
  proof (cases "completes en (hist @ [t])")
    case True
    with st no_tools_stays [of g' ts] u show ?thesis by (simp add: Let_def split_beta)
  next
    case False
    with st Cons.IH [of g' "hist @ [t]"] u show ?thesis by (simp add: Let_def split_beta)
  qed
qed simp

section \<open>Properties\<close>

text \<open>
  C29. In \<open>tool_choice=auto\<close> mode the bounded match buffer loses nothing: for every stream of
  sampled tokens, the tokens handed to the grammar matcher are exactly those of the tool
  regions, delimiters included, as found by matching the delimiters on the whole stream since
  the last toggle.
\<close>
theorem tool_regions_detected:
  assumes "auto_mode st en g" and "tool_calling_match_buffer g = []"
  shows "fst (update_all ts g) = map fst (tool_regions st en (grammar_enforced g) [] ts)"
  using update_all_tracks [OF tracks_Nil [OF assms]] .

theorem tool_regions_detected_witness:
  "let g = GrammarState_default\<lparr>tool_region :=
       Some \<lparr>start_token_ids = Some [7, 8], end_token_ids = Some [9]\<rparr>\<rparr>
   in fst (update_all [1, 7, 8, 5, 9, 2] g) = [False, False, True, True, True, False]"
proof -
  let ?g = "GrammarState_default\<lparr>tool_region :=
       Some \<lparr>start_token_ids = Some [7, 8], end_token_ids = Some [9]\<rparr>\<rparr>"
  have m: "auto_mode [7, 8] [9] ?g" "tool_calling_match_buffer ?g = []" "\<not> grammar_enforced ?g"
    by (simp_all add: auto_mode_def GrammarState_default_def)
  have "map fst (tool_regions [7, 8] [9] False [] [1, 7, 8, 5, 9, 2]) =
      [False, False, True, True, True, False]"
    by (simp add: completes_def last_n_def)
  then show ?thesis
    using tool_regions_detected [OF m(1,2), of "[1, 7, 8, 5, 9, 2]"] m(3) by (simp add: Let_def)
qed

text \<open>
  C40. A speculative walk leaves no trace: restoring the snapshot taken before it gives back
  the state exactly, whatever draft tokens were walked through.
\<close>
theorem speculative_walk_rolls_back:
  "restore (snapshot g) (snd (update_all drafts g)) = g"
  using update_all_config [of g drafts]
  by (cases g; cases "snd (update_all drafts g)") (simp add: restore_def snapshot_def same_config_def)



end
