(* ===== verification/Text_Context.thy ===== *)
theory Text_Context
  imports Token_Buffer EOS_Tracking Grammar_State
begin

text \<open>
  The state of one text-generation request, the class \<open>TextContext\<close> of
  \<open>max/pipelines/context/context.py\<close>, with \<open>SpecDecodingState\<close> and \<open>TextGenerationOutput\<close>
  of \<open>outputs.py\<close>: appending sampled tokens, placeholder ("future") tokens of the overlap
  scheduler and their realization, streaming, end-of-sequence and length status, and the
  grammar matcher. The grammar matcher is outside the repository (llguidance, xgrammar): its
  state has the type \<open>'m\<close> and \<open>try_consume_tokens\<close> is the parameter \<open>consume\<close>, which
  returns the number of consumed tokens and the new matcher. Log probabilities are opaque data
  of type \<open>'l\<close>. Fields the modelled code never reads (sampling parameters other than
  \<open>min_new_tokens\<close>, tracing, routing metadata) are left out.
\<close>

section \<open>State\<close>

definition FUTURE_TOKEN :: int where
  "FUTURE_TOKEN = - 999"

record spec_decoding =
  draft_tokens_to_verify :: "int list"
  maybe_accepted_draft_tokens :: "int list"

type_synonym request_id = nat

record ('m, 'l) text_context =
  ctx_request_id :: request_id
  max_length :: int
  tokens :: token_buffer
  ctx_eos :: eos_tracker
  vocab_size :: "int option"
  json_schema :: "string option"
  grammar :: "string option"
  grammar_state :: grammar_state
  min_tokens :: int
  target_endpoint :: "string option"
  model_name :: string
  matcher :: "'m option"
  status :: generation_status
  log_probabilities_data :: "(int, 'l) dict"
  is_initial_prompt :: bool
  is_padding_ctx :: bool
  spec_decoding_state :: "spec_decoding option"
  cache_salt :: "pystr option"
  cached_prefix_length :: "int option"
  pending_future_count :: int

text \<open>The last piece of \<open>s.split(sep)\<close>.\<close>

fun last_piece :: "string \<Rightarrow> string \<Rightarrow> string \<Rightarrow> string" where
  "last_piece sep acc [] = acc"
| "last_piece sep acc (c # cs) =
     (if sep \<noteq> [] \<and> take (length sep) (c # cs) = sep
      then last_piece sep [] (drop (length sep - 1) cs)
      else last_piece sep (acc @ [c]) cs)"

definition starts_with :: "string \<Rightarrow> string \<Rightarrow> bool" where
  "starts_with s pre \<longleftrightarrow> take (length pre) s = pre"

definition TextContext_post_init :: "('m, 'l, 'z) text_context_scheme \<Rightarrow> unit result" where
  "TextContext_post_init c =
     raise_if (min_tokens c + prompt_length (tokens c) > max_length c) ValueError
     (case target_endpoint c of None \<Rightarrow> Inr ()
      | Some ep \<Rightarrow>
          raise_if (\<not> (starts_with ep ''tcp://'' \<or> starts_with ep ''ipc://'')) ValueError
          (raise_if (starts_with ep ''tcp://'' \<and> CHR '':'' \<notin> set (last_piece ''://'' [] ep)) ValueError
             (Inr ())))"

text \<open>A context with the dataclass defaults, and the dummy used to pad data-parallel batches.\<close>

definition TextContext_default :: "request_id \<Rightarrow> int \<Rightarrow> token_buffer \<Rightarrow> ('m, 'l) text_context" where
  "TextContext_default rid max_len t =
     \<lparr>ctx_request_id = rid, max_length = max_len, tokens = t, ctx_eos = EOSTracker_init [] [] [],
      vocab_size = None, json_schema = None, grammar = None, grammar_state = GrammarState_default, min_tokens = 0, target_endpoint = None,
      model_name = [], matcher = None, status = ACTIVE, log_probabilities_data = [], is_initial_prompt = True,
      is_padding_ctx = False, spec_decoding_state = None, cache_salt = None,
      cached_prefix_length = None, pending_future_count = 0\<rparr>"

definition new_padding_context :: "request_id \<Rightarrow> int \<Rightarrow> string \<Rightarrow> ('m, 'l) text_context result" where
  "new_padding_context rid max_len name =
     bind_r (TokenBuffer_init 1 True [0]) (\<lambda>t.
     let c = (TextContext_default rid max_len t)\<lparr>model_name := name, is_padding_ctx := True\<rparr> in
     bind_r (TextContext_post_init c) (\<lambda>_. Inr c))"

section \<open>Small operations\<close>

definition ctx_is_done :: "('m, 'l, 'z) text_context_scheme \<Rightarrow> bool" where
  "ctx_is_done c = is_done (status c)"

definition last_realized_token :: "('m, 'l, 'z) text_context_scheme \<Rightarrow> int result" where
  "last_realized_token c =
     bind_r (getitem (tokens c) (IntKey (- 1 - pending_future_count c))) (\<lambda>ts. Inr (hd ts))"

definition get_spec_decoding_state ::
  "('m, 'l, 'z) text_context_scheme \<Rightarrow> spec_decoding \<times> ('m, 'l, 'z) text_context_scheme" where
  "get_spec_decoding_state c =
     (case spec_decoding_state c of Some s \<Rightarrow> (s, c)
      | None \<Rightarrow> (let s = \<lparr>draft_tokens_to_verify = [], maybe_accepted_draft_tokens = []\<rparr>
                 in (s, c\<lparr>spec_decoding_state := Some s\<rparr>)))"

definition ctx_apply_processing_offset ::
  "int \<Rightarrow> ('m, 'l, 'z) text_context_scheme \<Rightarrow> ('m, 'l, 'z) text_context_scheme result" where
  "ctx_apply_processing_offset offset c =
     bind_r (apply_processing_offset offset (tokens c)) (\<lambda>t. Inr (c\<lparr>tokens := t\<rparr>))"

definition get_min_token_logit_mask ::
  "int \<Rightarrow> ('m, 'l, 'z) text_context_scheme \<Rightarrow> (int \<times> int) list list" where
  "get_min_token_logit_mask num_steps c =
     (let start_range = prompt_length (tokens c);
          end_range = prompt_length (tokens c) + min_tokens c;
          pos = current_position (tokens c)
      in map (\<lambda>i. if i < start_range \<or> i \<ge> end_range then []
                  else map (\<lambda>e. (0, e)) (eos_token_ids (ctx_eos c)))
           [pos..pos + num_steps - 1])"

definition set_matcher ::
  "'m \<Rightarrow> ('m, 'l, 'z) text_context_scheme \<Rightarrow> ('m, 'l, 'z) text_context_scheme" where
  "set_matcher m c = c\<lparr>matcher := Some m\<rparr>"

definition set_tool_region :: "int list option \<Rightarrow> int list option \<Rightarrow>
    ('m, 'l, 'z) text_context_scheme \<Rightarrow> ('m, 'l, 'z) text_context_scheme" where
  "set_tool_region st en c =
     (if st \<noteq> None \<or> en \<noteq> None
      then c\<lparr>grammar_state := (grammar_state c)
               \<lparr>tool_region := Some \<lparr>start_token_ids = st, end_token_ids = en\<rparr>\<rparr>\<rparr>
      else c)"

definition set_thinking_region :: "int list option \<Rightarrow> int list option \<Rightarrow>
    ('m, 'l, 'z) text_context_scheme \<Rightarrow> ('m, 'l, 'z) text_context_scheme" where
  "set_thinking_region st en c =
     (if en \<noteq> None
      then c\<lparr>grammar_state := (grammar_state c)
               \<lparr>thinking_region_delimiters := Some \<lparr>start_token_ids = st, end_token_ids = en\<rparr>\<rparr>\<rparr>
      else c)"

definition ctx_update_enforcement_state ::
  "int \<Rightarrow> ('m, 'l, 'z) text_context_scheme \<Rightarrow> bool \<times> ('m, 'l, 'z) text_context_scheme" where
  "ctx_update_enforcement_state token c =
     (let (fed, g) = update_enforcement_state token (grammar_state c) in (fed, c\<lparr>grammar_state := g\<rparr>))"

definition compute_num_available_steps :: "int \<Rightarrow> ('m, 'l, 'z) text_context_scheme \<Rightarrow> int" where
  "compute_num_available_steps max_seq_len c =
     max_seq_len - (tb_len (tokens c) - active_length (tokens c))"

section \<open>Advancing\<close>

definition advance_token_buffer ::
  "(nat \<Rightarrow> int) \<Rightarrow> int \<Rightarrow> 'l option \<Rightarrow> ('m, 'l, 'z) text_context_scheme \<Rightarrow>
   ('m, 'l, 'z) text_context_scheme result" where
  "advance_token_buffer junk new_token log_probabilities c =
     (if actively_chunked (tokens c) then
        bind_r (advance_chunk (tokens c)) (\<lambda>t. Inr (c\<lparr>tokens := t\<rparr>))
      else
        let c = (case log_probabilities of None \<Rightarrow> c
                 | Some l \<Rightarrow> c\<lparr>log_probabilities_data :=
                     AList.update (current_position (tokens c)) l (log_probabilities_data c)\<rparr>)
        in raise_if (pending_future_count c > 0 \<and> new_token \<noteq> FUTURE_TOKEN) ValueError
        (bind_r (advance_with_token junk new_token (tokens c)) (\<lambda>t.
         let c = c\<lparr>tokens := t\<rparr> in
         bind_r (if new_token \<noteq> FUTURE_TOKEN then is_eos_from_tokens (ctx_eos c) (generated t)
                 else Inr False) (\<lambda>eos.
         let c = (if eos then c\<lparr>status := END_OF_SEQUENCE\<rparr>
                  else if current_position t \<ge> max_length c then c\<lparr>status := MAXIMUM_LENGTH\<rparr>
                  else c)
         in Inr (c\<lparr>is_initial_prompt := False\<rparr>)))))"

definition tokens_for_consume :: "int \<Rightarrow> bool \<Rightarrow> ('m, 'l, 'z) text_context_scheme \<Rightarrow> int list" where
  "tokens_for_consume token was_enforced c =
     (case tool_region (grammar_state c) of None \<Rightarrow> [token]
      | Some region \<Rightarrow>
          (case start_token_ids region of None \<Rightarrow> [token]
           | Some ids \<Rightarrow> if \<not> was_enforced \<and> ids \<noteq> [] then ids else [token]))"

definition set_enforced ::
  "bool \<Rightarrow> ('m, 'l, 'z) text_context_scheme \<Rightarrow> ('m, 'l, 'z) text_context_scheme" where
  "set_enforced v c = c\<lparr>grammar_state := (grammar_state c)\<lparr>grammar_enforced := v\<rparr>\<rparr>"

definition advance_fsm ::
  "('m \<Rightarrow> int list \<Rightarrow> int \<times> 'm) \<Rightarrow> int \<Rightarrow> ('m, 'l, 'z) text_context_scheme \<Rightarrow>
   bool \<times> ('m, 'l, 'z) text_context_scheme" where
  "advance_fsm consume token c =
     (case matcher c of
        None \<Rightarrow> (False, c)
      | Some m \<Rightarrow>
          if token \<in> set (eos_token_ids (ctx_eos c)) then (True, set_enforced False c)
          else
            (let was_enforced = grammar_enforced (grammar_state c);
                 (fed, c) = ctx_update_enforcement_state token c
             in if fed then
                  (let ts = tokens_for_consume token was_enforced c;
                       (n, m) = consume m ts;
                       c = c\<lparr>matcher := Some m\<rparr>
                   in (True, if n \<noteq> int (length ts) then set_enforced False c else c))
                else (True, c)))"

definition update ::
  "('m \<Rightarrow> int list \<Rightarrow> int \<times> 'm) \<Rightarrow> (nat \<Rightarrow> int) \<Rightarrow> int \<Rightarrow> 'l option \<Rightarrow>
   ('m, 'l, 'z) text_context_scheme \<Rightarrow> ('m, 'l, 'z) text_context_scheme result" where
  "update consume junk new_token log_probabilities c =
     bind_r (advance_token_buffer junk new_token log_probabilities c) (\<lambda>c.
       Inr (snd (advance_fsm consume new_token c)))"

definition update_with_future_token ::
  "('m \<Rightarrow> int list \<Rightarrow> int \<times> 'm) \<Rightarrow> (nat \<Rightarrow> int) \<Rightarrow> int \<Rightarrow>
   ('m, 'l, 'z) text_context_scheme \<Rightarrow> ('m, 'l, 'z) text_context_scheme result" where
  "update_with_future_token consume junk max_pending_futures c =
     raise_if (pending_future_count c \<ge> max_pending_futures) ValueError
     (let appended_placeholder = \<not> actively_chunked (tokens c) in
      bind_r (if matcher c \<noteq> None then advance_token_buffer junk FUTURE_TOKEN None c
              else update consume junk FUTURE_TOKEN None c) (\<lambda>c.
        Inr (if appended_placeholder
             then c\<lparr>pending_future_count := pending_future_count c + 1\<rparr> else c)))"

definition realize_future_token ::
  "int \<Rightarrow> 'l option \<Rightarrow> ('m, 'l, 'z) text_context_scheme \<Rightarrow> ('m, 'l, 'z) text_context_scheme result" where
  "realize_future_token new_token log_probabilities c =
     raise_if (generated_length (tokens c) = 0) ValueError
     (let count = pending_future_count c in
      raise_if (count = 0) ValueError
      (let c = (case log_probabilities of None \<Rightarrow> c
                | Some l \<Rightarrow> c\<lparr>log_probabilities_data :=
                    AList.update (current_position (tokens c) - count) l (log_probabilities_data c)\<rparr>)
       in bind_r (overwrite_token_at_offset_from_end count new_token (tokens c)) (\<lambda>t.
          let c = c\<lparr>tokens := t, pending_future_count := count - 1\<rparr>;
              realized = (if pending_future_count c > 0
                          then py_slice (generated t) 0 (- pending_future_count c) else generated t)
          in bind_r (if realized \<noteq> [] then is_eos_from_tokens (ctx_eos c) realized else Inr False)
               (\<lambda>eos. Inr (if eos then c\<lparr>status := END_OF_SEQUENCE\<rparr> else c)))))"

definition reset ::
  "('m, 'l, 'z) text_context_scheme \<Rightarrow> ('m, 'l, 'z) text_context_scheme result" where
  "reset c =
     bind_r (reset_as_new_prompt (pending_future_count c) (tokens c)) (\<lambda>t.
       Inr (c\<lparr>tokens := t, pending_future_count := 0, is_initial_prompt := True,
              spec_decoding_state := None\<rparr>))"

section \<open>Output\<close>

record 'l generation_output =
  out_request_id :: request_id
  out_tokens :: "int list"
  out_log_probabilities :: "'l list option"
  final_status :: generation_status
  num_cached_tokens :: "int option"

text \<open>The loop that pops the log probabilities of the consumed positions.\<close>

definition pop_log_prob ::
  "'l list option \<times> (int, 'l) dict \<Rightarrow> int \<Rightarrow> 'l list option \<times> (int, 'l) dict" where
  "pop_log_prob st token_idx =
     (let (log_probabilities, data) = st in
      case map_of data token_idx of None \<Rightarrow> st
      | Some l \<Rightarrow> (Some ((case log_probabilities of None \<Rightarrow> [] | Some ls \<Rightarrow> ls) @ [l]),
                   AList.delete token_idx data))"

fun check_token_ids :: "int option \<Rightarrow> int list \<Rightarrow> unit result" where
  "check_token_ids vocab [] = Inr ()"
| "check_token_ids vocab (token_id # ids) =
     raise_if (token_id < 0) RuntimeError
     (raise_if (case vocab of None \<Rightarrow> False | Some v \<Rightarrow> token_id \<ge> v) RuntimeError
        (check_token_ids vocab ids))"

definition reported_status :: "('m, 'l, 'z) text_context_scheme \<Rightarrow> generation_status" where
  "reported_status c =
     (if status c = MAXIMUM_LENGTH \<and> pending_future_count c > 0 \<and>
         tb_len (tokens c) - pending_future_count c < max_length c
      then ACTIVE else status c)"

definition to_generation_output ::
  "('m, 'l, 'z) text_context_scheme \<Rightarrow> ('l generation_output \<times> ('m, 'l, 'z) text_context_scheme) result" where
  "to_generation_output c =
     (if \<not> has_outstanding_generated_tokens (tokens c) then
        Inr (\<lparr>out_request_id = ctx_request_id c, out_tokens = [], out_log_probabilities = None,
              final_status = reported_status c, num_cached_tokens = cached_prefix_length c\<rparr>, c)
      else
        let cr = completion_range (tokens c);
            consumable_end = max (r_start cr) (r_end cr - pending_future_count c);
            element_ids = [r_start cr..consumable_end - 1]
        in bind_r
             (if element_ids \<noteq> [] then
                bind_r (consume_recently_generated_tokens (pending_future_count c) (tokens c))
                  (\<lambda>(generated_tokens, t).
                   raise_if (FUTURE_TOKEN \<in> set generated_tokens) ValueError
                   (bind_r (check_token_ids (vocab_size c) generated_tokens) (\<lambda>_.
                      Inr (generated_tokens, c\<lparr>tokens := t\<rparr>))))
              else Inr ([], c)) (\<lambda>(generated_tokens, c).
           let (log_probabilities, data) =
                 foldl pop_log_prob (None, log_probabilities_data c) element_ids
           in Inr (\<lparr>out_request_id = ctx_request_id c, out_tokens = generated_tokens,
                    out_log_probabilities = log_probabilities, final_status = reported_status c,
                    num_cached_tokens = cached_prefix_length c\<rparr>,
                   c\<lparr>log_probabilities_data := data\<rparr>)))"

definition merge_outputs :: "'l generation_output list \<Rightarrow> 'l generation_output result" where
  "merge_outputs outputs =
     raise_if (outputs = []) ValueError
     (if length outputs = 1 then Inr (hd outputs)
      else
        bind_r
          (if list_all (\<lambda>o1. out_log_probabilities o1 \<noteq> None) outputs
           then Inr (Some (concat (map (\<lambda>o1. case out_log_probabilities o1 of None \<Rightarrow> [] | Some l \<Rightarrow> l) outputs)))
           else if list_all (\<lambda>o1. out_log_probabilities o1 = None) outputs then Inr None
           else Inl ValueError) (\<lambda>lp.
        Inr \<lparr>out_request_id = out_request_id (hd outputs),
             out_tokens = concat (map out_tokens outputs), out_log_probabilities = lp,
             final_status = final_status (last outputs),
             num_cached_tokens = num_cached_tokens (hd outputs)\<rparr>))"

section \<open>Runs with placeholders\<close>

text \<open>
  The overlap scheduler's view of a request: tokens are committed either directly or by first
  appending placeholders and realizing them later, chunks are cut and advanced, and output is
  taken at any time. The run state pairs the context with the tokens committed so far and the
  tokens handed to the client so far.
\<close>

datatype ctx_op = UpdateOp int | FutureOp | RealizeOp int | ChunkOp int | OutputOp

type_synonym ('m, 'l) run_state = "('m, 'l) text_context \<times> int list \<times> int list"

fun ctx_exec ::
  "('m \<Rightarrow> int list \<Rightarrow> int \<times> 'm) \<Rightarrow> (nat \<Rightarrow> int) \<Rightarrow> int \<Rightarrow> ('m, 'l) run_state \<Rightarrow> ctx_op \<Rightarrow>
   ('m, 'l) run_state result" where
  "ctx_exec consume junk depth (c, committed, out) (UpdateOp t) =
     bind_r (update consume junk t None c) (\<lambda>c'.
       Inr (c', if actively_chunked (tokens c) then committed else committed @ [t], out))"
| "ctx_exec consume junk depth (c, committed, out) FutureOp =
     bind_r (update_with_future_token consume junk depth c) (\<lambda>c'. Inr (c', committed, out))"
| "ctx_exec consume junk depth (c, committed, out) (RealizeOp t) =
     bind_r (realize_future_token t None c) (\<lambda>c'. Inr (c', committed @ [t], out))"
| "ctx_exec consume junk depth (c, committed, out) (ChunkOp n) =
     bind_r (chunk n (tokens c)) (\<lambda>t. Inr (c\<lparr>tokens := t\<rparr>, committed, out))"
| "ctx_exec consume junk depth (c, committed, out) OutputOp =
     bind_r (to_generation_output c) (\<lambda>(r, c'). Inr (c', committed, out @ out_tokens r))"

definition valid_token :: "int option \<Rightarrow> int \<Rightarrow> bool" where
  "valid_token vocab t \<longleftrightarrow> 0 \<le> t \<and> (case vocab of None \<Rightarrow> True | Some v \<Rightarrow> t < v)"

fun valid_op :: "int option \<Rightarrow> ctx_op \<Rightarrow> bool" where
  "valid_op vocab (UpdateOp t) = valid_token vocab t"
| "valid_op vocab (RealizeOp t) = valid_token vocab t"
| "valid_op vocab _ = True"

text \<open>
  The run invariant: the buffer holds the committed tokens followed by the placeholders, the
  client has a prefix of the committed tokens, and a final status is justified by them.
\<close>

definition status_ok :: "('m, 'l) text_context \<Rightarrow> int list \<Rightarrow> bool" where
  "status_ok c committed \<longleftrightarrow>
     (status c = MAXIMUM_LENGTH \<longrightarrow> max_length c \<le> tb_len (tokens c)) \<and>
     (status c = END_OF_SEQUENCE \<longrightarrow>
        (\<exists>n. 0 < n \<and> n \<le> length committed \<and> is_eos_from_tokens (ctx_eos c) (take n committed) = Inr True))"

definition run_inv :: "('m, 'l) text_context \<Rightarrow> ('m, 'l) run_state \<Rightarrow> bool" where
  "run_inv c0 s \<longleftrightarrow> (case s of (c, committed, out) \<Rightarrow>
     tb_ready (tokens c) \<and> vocab_size c = vocab_size c0 \<and> max_length c = max_length c0 \<and>
     ctx_eos c = ctx_eos c0 \<and> prompt_length (tokens c) = prompt_length (tokens c0) \<and>
     0 \<le> pending_future_count c \<and>
     generated (tokens c) = committed @ replicate (nat (pending_future_count c)) FUTURE_TOKEN \<and>
     streamed (tokens c) = out \<and> length out \<le> length committed \<and>
     (\<forall>t \<in> set committed. valid_token (vocab_size c0) t) \<and> status_ok c committed)"

lemma valid_not_future: "valid_token v t \<Longrightarrow> t \<noteq> FUTURE_TOKEN"
  by (auto simp: valid_token_def FUTURE_TOKEN_def)

subsection \<open>What the operations do to the token buffer\<close>

lemma advance_fsm_frame:
  "tokens (snd (advance_fsm f t c)) = tokens c"
  "pending_future_count (snd (advance_fsm f t c)) = pending_future_count c"
  "vocab_size (snd (advance_fsm f t c)) = vocab_size c"
  "status (snd (advance_fsm f t c)) = status c"
  "max_length (snd (advance_fsm f t c)) = max_length c"
  "ctx_eos (snd (advance_fsm f t c)) = ctx_eos c"
  by (simp_all add: advance_fsm_def set_enforced_def ctx_update_enforcement_state_def Let_def split_beta
      split: option.split)

lemma is_eos_returns: "ts \<noteq> [] \<Longrightarrow> \<exists>e. is_eos_from_tokens t ts = Inr e"
  by (simp add: is_eos_from_tokens_def)

lemma advance_chunk_frame:
  assumes "advance_chunk b = Inr b'"
  shows "generated b' = generated b" and "streamed b' = streamed b" and "current_length b' = current_length b"
    and "\<not> actively_chunked b'" and "prompt_length b' = prompt_length b"
  using advance_chunk_Inr [OF assms] by (auto simp: generated_def streamed_def)

text \<open>Appending to a context: always succeeds unless a real token follows a placeholder.\<close>

lemma advance_buffer_append:
  assumes r: "tb_ready (tokens c)" and nc: "\<not> actively_chunked (tokens c)"
    and ok: "pending_future_count c \<le> 0 \<or> t = FUTURE_TOKEN"
  obtains c' where "advance_token_buffer junk t lp c = Inr c'" and "tb_ready (tokens c')"
    and "generated (tokens c') = generated (tokens c) @ [t]"
    and "streamed (tokens c') = streamed (tokens c)"
    and "pending_future_count c' = pending_future_count c" and "vocab_size c' = vocab_size c"
    and "max_length c' = max_length c" and "ctx_eos c' = ctx_eos c"
    and "prompt_length (tokens c') = prompt_length (tokens c)"
    and "current_position (tokens c') = tb_len (tokens c) + 1"
    and "status c' =
      (if t \<noteq> FUTURE_TOKEN \<and> is_eos_from_tokens (ctx_eos c) (generated (tokens c) @ [t]) = Inr True
       then END_OF_SEQUENCE
       else if tb_len (tokens c) + 1 \<ge> max_length c then MAXIMUM_LENGTH else status c)"
proof -
  have inv: "tb_inv (tokens c)" using r by (simp add: tb_ready_def)
  obtain b where b: "advance_with_token junk t (tokens c) = Inr b"
    using advance_with_token_ok [OF inv nc, of junk t] by blast
  have f: "generated b = generated (tokens c) @ [t]" "streamed b = streamed (tokens c)"
    using advance_streamed [OF inv b] by simp_all
  have rb: "tb_ready b"
    using tb_exec_ready [OF r, of "AdvanceToken t"] b by (simp add: op_ok_def)
  have pl: "prompt_length b = prompt_length (tokens c)"
    using advance_with_token_fields [OF inv b] by simp
  have pos: "current_position b = tb_len (tokens c) + 1"
    using advance_with_token_fields [OF inv b] tb_len_current [OF inv]
    by (simp add: current_position_def processed_length_def active_length_def range_len_def)
  obtain e where e: "is_eos_from_tokens (ctx_eos c) (generated (tokens c) @ [t]) = Inr e"
    using is_eos_returns by blast
  define eos where "eos = (t \<noteq> FUTURE_TOKEN \<and> e)"
  define c1 where "c1 = (case lp of None \<Rightarrow> c
                 | Some l \<Rightarrow> c\<lparr>log_probabilities_data :=
                     AList.update (current_position (tokens c)) l (log_probabilities_data c)\<rparr>)"
  have c1: "tokens c1 = tokens c" "pending_future_count c1 = pending_future_count c" "vocab_size c1 = vocab_size c"
    "max_length c1 = max_length c" "ctx_eos c1 = ctx_eos c" "status c1 = status c"
    by (simp_all add: c1_def split: option.split)
  define c' where "c' = (if eos then c1\<lparr>tokens := b, status := END_OF_SEQUENCE\<rparr>
                  else if current_position b \<ge> max_length c then c1\<lparr>tokens := b, status := MAXIMUM_LENGTH\<rparr>
                  else c1\<lparr>tokens := b\<rparr>)\<lparr>is_initial_prompt := False\<rparr>"
  have run: "advance_token_buffer junk t lp c = Inr c'"
    using nc ok b e c1
    by (auto simp: advance_token_buffer_def c1_def [symmetric] Let_def c'_def eos_def f(1))
  show thesis
    by (rule that [OF run]) (use rb f c1 pos pl e in \<open>auto simp: c'_def eos_def\<close>)
qed

lemma advance_buffer_chunk:
  assumes r: "tb_ready (tokens c)" and ch: "actively_chunked (tokens c)"
    and run: "advance_token_buffer junk t lp c = Inr c'"
  shows "tb_ready (tokens c') \<and> generated (tokens c') = generated (tokens c) \<and>
    streamed (tokens c') = streamed (tokens c) \<and>
    prompt_length (tokens c') = prompt_length (tokens c) \<and> vocab_size c' = vocab_size c \<and>
    max_length c' = max_length c \<and> ctx_eos c' = ctx_eos c \<and>
    pending_future_count c' = pending_future_count c \<and> status c' = status c"
proof -
  from run ch obtain b where b: "advance_chunk (tokens c) = Inr b" "c' = c\<lparr>tokens := b\<rparr>"
    by (auto simp: advance_token_buffer_def result_Inr)
  have "tb_ready b" using tb_exec_ready [OF r, of AdvanceChunk] b by (simp add: op_ok_def)
  with b advance_chunk_frame [OF b(1)] show ?thesis by simp
qed

lemma generated_len: "tb_inv b \<Longrightarrow> int (length (generated b)) = current_length b - prompt_length b"
  by (auto simp: generated_def tb_inv_def range_ok_def length_py_slice)

lemma streamed_len: "tb_inv b \<Longrightarrow> int (length (streamed b)) = r_start (completion_range b) - prompt_length b"
  by (auto simp: streamed_def tb_inv_def range_ok_def length_py_slice)

lemma outstanding_len:
  "tb_inv b \<Longrightarrow> range_len (completion_range b) = int (length (generated b)) - int (length (streamed b))"
  by (auto simp: generated_len streamed_len tb_inv_def range_ok_def range_len_def)

lemma overwrite_generated:
  assumes r: "tb_ready b" and k: "1 \<le> k" "k \<le> range_len (completion_range b)"
  obtains b' where "overwrite_token_at_offset_from_end k t b = Inr b'" and "tb_ready b'"
    and "generated b' = (generated b)[length (generated b) - nat k := t]"
    and "streamed b' = streamed b" and "prompt_length b' = prompt_length b"
proof -
  have inv: "tb_inv b" using r by (simp add: tb_ready_def)
  have w: "k \<le> current_length b - prompt_length b" "0 \<le> prompt_length b"
      "current_length b \<le> int (length (array b))"
    using k inv by (auto simp: tb_inv_def range_ok_def range_len_def)
  let ?i = "nat (current_length b - k)"
  define b' where "b' = b\<lparr>array := (array b)[?i := t]\<rparr>"
  have run: "overwrite_token_at_offset_from_end k t b = Inr b'"
    using k w by (simp add: overwrite_token_at_offset_from_end_def py_store_def seq_simps b'_def)
  have sil: "silent_op b (Overwrite k t)" using k by (simp add: silent_op_def)
  have ex: "tb_exec junk b (Overwrite k t) = Inr b'" for junk using run by simp
  have len: "length (generated b) = nat (current_length b - prompt_length b)"
    using generated_len [OF inv] by linarith
  have "?i - nat (prompt_length b) = nat (current_length b - prompt_length b) - nat k"
    "nat (prompt_length b) \<le> ?i"
    "nat (current_length b - prompt_length b) - nat k < nat (current_length b - prompt_length b)"
    using w k by linarith+
  then have "generated b' = (generated b)[length (generated b) - nat k := t]"
    unfolding len using w k
    by (simp add: generated_def b'_def py_slice_nonneg drop_update_swap take_update_swap)
  with run silent_streamed [OF r sil ex] show thesis
    by (intro that [of b']) (simp_all add: b'_def)
qed

lemma consume_generated:
  assumes r: "tb_ready b" and k: "0 \<le> k" "k < range_len (completion_range b)"
  obtains b' where "consume_recently_generated_tokens k b =
      Inr (take (length (generated b) - nat k - length (streamed b)) (drop (length (streamed b)) (generated b)), b')"
    and "tb_ready b'" and "generated b' = generated b"
    and "streamed b' = take (length (generated b) - nat k) (generated b)"
    and "prompt_length b' = prompt_length b"
proof -
  have inv: "tb_inv b" using r by (simp add: tb_ready_def)
  let ?cr = "completion_range b" and ?p = "prompt_length b" and ?n = "current_length b"
  have w: "0 \<le> ?p" "?p \<le> r_start ?cr" "r_start ?cr < r_end ?cr - k" "r_end ?cr = ?n" "?n \<le> int (length (array b))"
    using k inv by (auto simp: tb_inv_def range_ok_def range_len_def)
  define b' where "b' = b\<lparr>completion_range := ?cr\<lparr>r_start := r_end ?cr - k\<rparr>\<rparr>"
  have run: "consume_recently_generated_tokens k b = Inr (py_slice (array b) (r_start ?cr) (r_end ?cr - k), b')"
    using w k by (simp add: consume_recently_generated_tokens_def Let_def bump_start_def b'_def)
  have lens: "length (generated b) = nat (?n - ?p)" "length (streamed b) = nat (r_start ?cr - ?p)"
    using generated_len [OF inv] streamed_len [OF inv] by linarith+
  have sl: "py_slice (array b) (r_start ?cr) (r_end ?cr - k) =
      take (length (generated b) - nat k - length (streamed b)) (drop (length (streamed b)) (generated b))"
  proof -
    have "nat (r_start ?cr - ?p) + nat ?p = nat (r_start ?cr)"
      "nat (?n - ?p) - nat k - nat (r_start ?cr - ?p) = nat (?n - k - r_start ?cr)"
      "nat (?n - k - r_start ?cr) \<le> nat (?n - ?p) - nat (r_start ?cr - ?p)"
      using w k by linarith+
    then show ?thesis
      using w k unfolding lens by (simp add: generated_def py_slice_nonneg drop_take min_def)
  qed
  have st: "streamed b' = take (length (generated b) - nat k) (generated b)"
  proof -
    have "nat (?n - ?p) - nat k = nat (?n - k - ?p)" "nat (?n - k - ?p) \<le> nat (?n - ?p)"
      using w k by linarith+
    then show ?thesis
      using w k unfolding lens
      by (simp add: streamed_def generated_def b'_def py_slice_nonneg min_def)
  qed
  show thesis
    by (rule that [of b'])
      (use run sl st consume_streamed(2) [OF r k(1) run] in \<open>simp_all add: b'_def generated_def\<close>)
qed

subsection \<open>Every operation keeps the run invariant\<close>

lemma tb_len_generated: "tb_ready b \<Longrightarrow> tb_len b = prompt_length b + int (length (generated b))"
  by (simp add: tb_ready_def tb_len_current generated_len)

lemma run_inv_update:
  assumes inv: "run_inv c0 (c, com, out)" and t: "valid_token (vocab_size c0) t"
    and run: "update consume junk t None c = Inr c'"
  shows "run_inv c0 (c', if actively_chunked (tokens c) then com else com @ [t], out)"
proof -
  from run obtain c1 where c1: "advance_token_buffer junk t None c = Inr c1"
    and c': "c' = snd (advance_fsm consume t c1)" by (auto simp: update_def result_Inr)
  have r: "tb_ready (tokens c)" using inv by (simp add: run_inv_def)
  show ?thesis
  proof (cases "actively_chunked (tokens c)")
    case True
    from advance_buffer_chunk [OF r True c1] have f: "tb_ready (tokens c1)"
      "generated (tokens c1) = generated (tokens c)" "streamed (tokens c1) = streamed (tokens c)"
      "prompt_length (tokens c1) = prompt_length (tokens c)" "vocab_size c1 = vocab_size c"
      "max_length c1 = max_length c" "ctx_eos c1 = ctx_eos c"
      "pending_future_count c1 = pending_future_count c" "status c1 = status c" by simp_all
    have "tb_len (tokens c1) = tb_len (tokens c)" using f r by (simp add: tb_len_generated)
    then show ?thesis
      using inv True f by (auto simp: run_inv_def c' advance_fsm_frame status_ok_def)
  next
    case False
    have nf: "t \<noteq> FUTURE_TOKEN" using valid_not_future [OF t] .
    have k: "pending_future_count c \<le> 0"
      using c1 False nf by (auto simp: advance_token_buffer_def Let_def raise_if_eq_Inr)
    with inv have k0: "pending_future_count c = 0" by (simp add: run_inv_def)
    obtain c2 where "advance_token_buffer junk t None c = Inr c2" and f: "tb_ready (tokens c2)"
      "generated (tokens c2) = generated (tokens c) @ [t]" "streamed (tokens c2) = streamed (tokens c)"
      "pending_future_count c2 = pending_future_count c" "vocab_size c2 = vocab_size c"
      "max_length c2 = max_length c" "ctx_eos c2 = ctx_eos c"
      "prompt_length (tokens c2) = prompt_length (tokens c)"
      "status c2 =
      (if t \<noteq> FUTURE_TOKEN \<and> is_eos_from_tokens (ctx_eos c) (generated (tokens c) @ [t]) = Inr True
       then END_OF_SEQUENCE
       else if tb_len (tokens c) + 1 \<ge> max_length c then MAXIMUM_LENGTH else status c)"
      by (rule advance_buffer_append [OF r False, of t junk None]) (use k in auto)
    with c1 have c2: "c2 = c1" by simp
    have g: "generated (tokens c) = com" using inv k0 by (simp add: run_inv_def)
    have len: "tb_len (tokens c2) = tb_len (tokens c) + 1" using f(1,2,8) r by (simp add: tb_len_generated)
    have "status_ok c2 (com @ [t])"
    proof -
      have "status_ok c com" using inv by (simp add: run_inv_def)
      then show ?thesis
        using f(9) nf len unfolding status_ok_def f(6,7) g
        by (auto split: if_splits intro: exI [of _ "Suc (length com)"])
    qed
    then have "status_ok c' (com @ [t])" by (simp add: status_ok_def c' advance_fsm_frame c2)
    with inv False t f k0 g show ?thesis by (auto simp: run_inv_def c' advance_fsm_frame c2)
  qed
qed

lemma run_inv_future:
  assumes inv: "run_inv c0 (c, com, out)" and run: "update_with_future_token consume junk d c = Inr c'"
  shows "run_inv c0 (c', com, out)"
proof -
  have r: "tb_ready (tokens c)" using inv by (simp add: run_inv_def)
  from run obtain c1 where c1: "(if matcher c \<noteq> None then advance_token_buffer junk FUTURE_TOKEN None c
              else update consume junk FUTURE_TOKEN None c) = Inr c1"
    and c': "c' = (if \<not> actively_chunked (tokens c)
             then c1\<lparr>pending_future_count := pending_future_count c1 + 1\<rparr> else c1)"
    by (auto simp: update_with_future_token_def result_Inr Let_def)
  then obtain c2 where c2: "advance_token_buffer junk FUTURE_TOKEN None c = Inr c2"
    and same: "tokens c1 = tokens c2" "pending_future_count c1 = pending_future_count c2"
      "vocab_size c1 = vocab_size c2" "status c1 = status c2" "max_length c1 = max_length c2"
      "ctx_eos c1 = ctx_eos c2"
    by (cases "matcher c = None") (auto simp: update_def result_Inr advance_fsm_frame)
  show ?thesis
  proof (cases "actively_chunked (tokens c)")
    case True
    from advance_buffer_chunk [OF r True c2] have f: "tb_ready (tokens c2)"
      "generated (tokens c2) = generated (tokens c)" "streamed (tokens c2) = streamed (tokens c)"
      "prompt_length (tokens c2) = prompt_length (tokens c)" "vocab_size c2 = vocab_size c"
      "max_length c2 = max_length c" "ctx_eos c2 = ctx_eos c"
      "pending_future_count c2 = pending_future_count c" "status c2 = status c" by simp_all
    have "tb_len (tokens c2) = tb_len (tokens c)" using f r by (simp add: tb_len_generated)
    then show ?thesis using inv True f by (auto simp: run_inv_def c' same status_ok_def)
  next
    case False
    obtain c3 where "advance_token_buffer junk FUTURE_TOKEN None c = Inr c3" and f: "tb_ready (tokens c3)"
      "generated (tokens c3) = generated (tokens c) @ [FUTURE_TOKEN]"
      "streamed (tokens c3) = streamed (tokens c)"
      "pending_future_count c3 = pending_future_count c" "vocab_size c3 = vocab_size c"
      "max_length c3 = max_length c" "ctx_eos c3 = ctx_eos c"
      "prompt_length (tokens c3) = prompt_length (tokens c)"
      "status c3 = (if tb_len (tokens c) + 1 \<ge> max_length c then MAXIMUM_LENGTH else status c)"
      by (rule advance_buffer_append [OF r False, of FUTURE_TOKEN junk None]) auto
    with c2 have c3: "c3 = c2" by simp
    have len: "tb_len (tokens c2) = tb_len (tokens c) + 1"
      using f(1,2,8) r by (simp add: tb_len_generated c3)
    have k: "replicate (nat (pending_future_count c + 1)) FUTURE_TOKEN =
        replicate (nat (pending_future_count c)) FUTURE_TOKEN @ [FUTURE_TOKEN]"
      using inv by (simp add: run_inv_def nat_add_distrib replicate_append_same)
    have "status_ok c' com"
      using inv f(6,7,9) len False by (auto simp: run_inv_def status_ok_def c' same c3 split: if_splits)
    with inv False f k show ?thesis by (simp add: run_inv_def c' same c3)
  qed
qed

lemma is_eos_take:
  assumes "is_eos_from_tokens tr (com @ [t]) = Inr True"
  shows "\<exists>n. 0 < n \<and> n \<le> length (com @ [t]) \<and> is_eos_from_tokens tr (take n (com @ [t])) = Inr True"
  using assms by (intro exI [of _ "Suc (length com)"]) simp

lemma run_inv_realize:
  assumes inv: "run_inv c0 (c, com, out)" and t: "valid_token (vocab_size c0) t"
    and run: "realize_future_token t None c = Inr c'"
  shows "run_inv c0 (c', com @ [t], out)"
proof -
  let ?k = "pending_future_count c"
  have r: "tb_ready (tokens c)" using inv by (simp add: run_inv_def)
  have g: "generated (tokens c) = com @ replicate (nat ?k) FUTURE_TOKEN" and k: "1 \<le> ?k"
    using inv run by (auto simp: run_inv_def realize_future_token_def result_Inr Let_def)
  have kr: "?k \<le> range_len (completion_range (tokens c))"
    using inv outstanding_len [of "tokens c"] r k g by (simp add: run_inv_def tb_ready_def)
  obtain b where b: "overwrite_token_at_offset_from_end ?k t (tokens c) = Inr b" "tb_ready b"
    "generated b = (generated (tokens c))[length (generated (tokens c)) - nat ?k := t]"
    "streamed b = streamed (tokens c)" "prompt_length b = prompt_length (tokens c)"
    by (rule overwrite_generated [OF r k kr]) (rule that)
  obtain n where n: "nat ?k = Suc n" using k by (cases "nat ?k") auto
  have n': "?k - 1 = int n" using n k by linarith
  have gb: "generated b = (com @ [t]) @ replicate n FUTURE_TOKEN"
    using b(3) g n by (simp add: list_update_append)
  have realized: "(if ?k - 1 > 0 then py_slice (generated b) 0 (- (?k - 1)) else generated b) = com @ [t]"
    unfolding gb n' by (simp add: py_slice_def slice_bound_def nat_add_distrib)
  obtain e where e: "is_eos_from_tokens (ctx_eos c) (com @ [t]) = Inr e"
    using is_eos_returns by blast
  have gl: "generated_length (tokens c) \<noteq> 0"
    using generated_len [of "tokens c"] r g n by (simp add: tb_ready_def generated_length_def)
  have k0: "?k \<noteq> 0" using k by simp
  have "realize_future_token t None c =
      Inr (let c = c\<lparr>tokens := b, pending_future_count := ?k - 1\<rparr>
           in if e then c\<lparr>status := END_OF_SEQUENCE\<rparr> else c)"
  proof (cases "1 < ?k")
    case True
    then have "py_slice (generated b) 0 (1 - ?k) = com @ [t]" using realized by simp
    with True b(1) e gl show ?thesis by (simp add: realize_future_token_def Let_def)
  next
    case False
    then have "generated b = com @ [t]" using realized by simp
    with False b(1) e gl k0 show ?thesis by (simp add: realize_future_token_def Let_def)
  qed
  with run have c': "c' = (let c = c\<lparr>tokens := b, pending_future_count := ?k - 1\<rparr>
           in if e then c\<lparr>status := END_OF_SEQUENCE\<rparr> else c)" by simp
  have "tb_len b = tb_len (tokens c)" using b(2,3,5) r by (simp add: tb_len_generated)
  then have "status_ok c' (com @ [t])"
    using inv e is_eos_take [of "ctx_eos c" com t]
    by (auto simp: run_inv_def status_ok_def c' Let_def le_Suc_eq)
  with inv t b gb n' show ?thesis by (auto simp: run_inv_def c' Let_def)
qed

lemma run_inv_chunk:
  assumes inv: "run_inv c0 (c, com, out)" and run: "chunk n (tokens c) = Inr b"
  shows "run_inv c0 (c\<lparr>tokens := b\<rparr>, com, out)"
proof -
  have r: "tb_ready (tokens c)" and i: "tb_inv (tokens c)" using inv by (simp_all add: run_inv_def tb_ready_def)
  have "tb_ready b" using tb_exec_ready [OF r, of "Chunk n"] run by (simp add: op_ok_def)
  moreover have "generated b = generated (tokens c)" "streamed b = streamed (tokens c)"
      "prompt_length b = prompt_length (tokens c)" "tb_len b = tb_len (tokens c)"
    using chunk_Inr [OF run i] by (simp_all add: generated_def streamed_def tb_len_def tokens_all_def)
  ultimately show ?thesis using inv by (auto simp: run_inv_def status_ok_def)
qed

lemma check_token_ids_ok: "\<forall>t \<in> set ts. valid_token v t \<Longrightarrow> check_token_ids v ts = Inr ()"
  by (induction ts) (auto simp: valid_token_def split: option.splits)

text \<open>Output: never raises, and hands out everything committed and not yet handed out.\<close>

lemma output_nothing_new:
  assumes len: "range_len (completion_range (tokens c)) = pending_future_count c"
  shows "\<exists>o1. to_generation_output c = Inr (o1, c) \<and> out_tokens o1 = [] \<and> final_status o1 = reported_status c"
proof (cases "has_outstanding_generated_tokens (tokens c)")
  case True
  let ?cr = "completion_range (tokens c)"
  have "r_end ?cr - pending_future_count c \<le> r_start ?cr"
    using len by (simp add: range_len_def split: if_splits)
  then have "[r_start ?cr..max (r_start ?cr) (r_end ?cr - pending_future_count c) - 1] = []" by simp
  with True show ?thesis by (simp add: to_generation_output_def Let_def)
next
  case False
  then show ?thesis by (simp add: to_generation_output_def)
qed

lemma run_inv_stream:
  assumes inv: "run_inv c0 (c, com, out)"
  shows "tb_ready (tokens c)" "generated (tokens c) = com @ replicate (nat (pending_future_count c)) FUTURE_TOKEN"
    "streamed (tokens c) = out" "0 \<le> pending_future_count c" "length out \<le> length com"
    "range_len (completion_range (tokens c)) = int (length com) - int (length out) + pending_future_count c"
    "take (length out) com = out"
proof -
  let ?b = "tokens c"
  show *: "tb_ready ?b" "generated ?b = com @ replicate (nat (pending_future_count c)) FUTURE_TOKEN" "streamed ?b = out"
      "0 \<le> pending_future_count c" "length out \<le> length com"
    using inv by (simp_all add: run_inv_def)
  have i: "tb_inv ?b" using *(1) by (simp add: tb_ready_def)
  show "range_len (completion_range ?b) = int (length com) - int (length out) + pending_future_count c"
    using outstanding_len [OF i] * by simp
  have "generated ?b = out @ unstreamed ?b" using generated_split [OF i] *(3) by simp
  with *(2,5) show "take (length out) com = out"
    by (metis append_eq_conv_conj take_append diff_is_0_eq' take0 append_Nil2)
qed

lemma output_new_tokens:
  assumes inv: "run_inv c0 (c, com, out)" and lt: "length out < length com"
  obtains o1 c' where "to_generation_output c = Inr (o1, c')" and "out_tokens o1 = drop (length out) com"
    and "final_status o1 = reported_status c" and "run_inv c0 (c', com, com)"
proof -
  let ?k = "pending_future_count c" and ?b = "tokens c" and ?cr = "completion_range (tokens c)"
  note r = run_inv_stream(1) [OF inv] and g = run_inv_stream(2) [OF inv] and s = run_inv_stream(3) [OF inv]
    and k = run_inv_stream(4) [OF inv] and len = run_inv_stream(6) [OF inv]
  have v: "\<forall>t \<in> set com. valid_token (vocab_size c) t" using inv by (simp add: run_inv_def)
  have kr: "?k < range_len ?cr" and out: "has_outstanding_generated_tokens ?b"
    using len k lt by (simp_all add: has_outstanding_generated_tokens_def)
  obtain b where b: "consume_recently_generated_tokens ?k ?b =
    Inr (take (length (generated ?b) - nat ?k - length (streamed ?b)) (drop (length (streamed ?b)) (generated ?b)), b)"
    "tb_ready b" "generated b = generated ?b"
    "streamed b = take (length (generated ?b) - nat ?k) (generated ?b)" "prompt_length b = prompt_length ?b"
    by (rule consume_generated [OF r k kr]) (rule that)
  have new: "take (length (generated ?b) - nat ?k - length (streamed ?b)) (drop (length (streamed ?b)) (generated ?b))
      = drop (length out) com" (is "?new = _")
    using lt by (simp add: g s)
  have nf: "FUTURE_TOKEN \<notin> set ?new" and ck: "check_token_ids (vocab_size c) ?new = Inr ()"
    unfolding new using v valid_not_future by (auto dest: in_set_dropD intro!: check_token_ids_ok)
  have gap: "r_start ?cr \<le> r_end ?cr - ?k - 1" using kr k by (simp add: range_len_def split: if_splits)
  obtain lp data where lpd: "foldl pop_log_prob (None, log_probabilities_data c)
      [r_start ?cr..max (r_start ?cr) (r_end ?cr - ?k) - 1] = (lp, data)" by fastforce
  define c' where "c' = c\<lparr>tokens := b, log_probabilities_data := data\<rparr>"
  define o1 where "o1 = \<lparr>out_request_id = ctx_request_id c, out_tokens = ?new,
      out_log_probabilities = lp, final_status = reported_status c, num_cached_tokens = cached_prefix_length c\<rparr>"
  have tl: "tb_len b = tb_len ?b" using b(2,3,5) r by (simp add: tb_len_generated)
  have "reported_status (c\<lparr>tokens := b\<rparr>) = reported_status c" by (simp add: reported_status_def tl)
  then have run: "to_generation_output c = Inr (o1, c')"
    using out gap b(1) nf ck lpd by (simp add: to_generation_output_def Let_def o1_def c'_def)
  show thesis
    by (rule that [OF run]) (use inv b tl new in \<open>auto simp: run_inv_def c'_def status_ok_def o1_def\<close>)
qed

lemma output_complete:
  assumes inv: "run_inv c0 (c, com, out)"
  obtains o1 c' where "to_generation_output c = Inr (o1, c')" and "out @ out_tokens o1 = com"
    and "final_status o1 = reported_status c" and "run_inv c0 (c', com, com)"
proof -
  note st = run_inv_stream [OF inv]
  show thesis
  proof (cases "length out = length com")
    case True
    with st(7) have eq: "out = com" by simp
    have "range_len (completion_range (tokens c)) = pending_future_count c" using st(6) True by simp
    from output_nothing_new [OF this] obtain o1 where "to_generation_output c = Inr (o1, c)" "out_tokens o1 = []"
      "final_status o1 = reported_status c" by blast
    with inv eq show thesis by (intro that [of o1 c]) simp_all
  next
    case False
    with st(5) have "length out < length com" by simp
    from output_new_tokens [OF inv this] obtain o1 c' where o: "to_generation_output c = Inr (o1, c')"
        "out_tokens o1 = drop (length out) com" "final_status o1 = reported_status c" "run_inv c0 (c', com, com)" .
    have "out @ out_tokens o1 = com" using st(7) append_take_drop_id [of "length out" com] by (simp add: o(2))
    from that [OF o(1) this o(3,4)] show thesis .
  qed
qed

lemma ctx_exec_inv:
  assumes inv: "run_inv c0 s" and v: "valid_op (vocab_size c0) op"
    and run: "ctx_exec consume junk depth s op = Inr s'"
  shows "run_inv c0 s'"
proof -
  obtain c com out where s: "s = (c, com, out)" by (cases s)
  note inv = inv [unfolded s] and run = run [unfolded s]
  show ?thesis
  proof (cases op)
    case (UpdateOp t)
    with run v run_inv_update [OF inv] show ?thesis by (auto simp: result_Inr)
  next
    case FutureOp
    with run run_inv_future [OF inv] show ?thesis by (auto simp: result_Inr)
  next
    case (RealizeOp t)
    with run v run_inv_realize [OF inv] show ?thesis by (auto simp: result_Inr)
  next
    case (ChunkOp n)
    with run run_inv_chunk [OF inv] show ?thesis by (auto simp: result_Inr)
  next
    case OutputOp
    obtain o1 c' where "to_generation_output c = Inr (o1, c')" "out @ out_tokens o1 = com"
      "final_status o1 = reported_status c" "run_inv c0 (c', com, com)"
      by (rule output_complete [OF inv]) (rule that)
    with run OutputOp show ?thesis by simp
  qed
qed

lemma TokenBuffer_init_fields:
  "TokenBuffer_init d i arr = Inr b \<Longrightarrow> prompt_length b = int (length arr) \<and>
   current_length b = int (length arr) \<and> r_start (completion_range b) = int (length arr) \<and> array b = arr"
  by (auto simp: TokenBuffer_init_def result_Inr Range_init_def)

lemma run_inv_start:
  assumes "TokenBuffer_init 1 True arr = Inr (tokens c0)" and "pending_future_count c0 = 0"
    and "status c0 = ACTIVE"
  shows "run_inv c0 (c0, [], [])"
proof -
  have "generated (tokens c0) = [] \<and> streamed (tokens c0) = []"
    using TokenBuffer_init_fields [OF assms(1)]
    by (simp add: generated_def streamed_def py_slice_self)
  with TokenBuffer_init_ready [OF assms(1)] assms show ?thesis by (simp add: run_inv_def status_ok_def)
qed

lemma ctx_run_inv:
  assumes "TokenBuffer_init 1 True arr = Inr (tokens c0)" and "pending_future_count c0 = 0"
    and "status c0 = ACTIVE" and "list_all (valid_op (vocab_size c0)) ops"
    and run: "fold_r (ctx_exec consume junk depth) (c0, [], []) ops = Inr s"
  shows "run_inv c0 s"
  by (rule fold_r_invariant [where I = "run_inv c0", OF run run_inv_start [OF assms(1-3)]])
    (use assms(4) ctx_exec_inv in \<open>fastforce simp: list_all_iff\<close>)

section \<open>Preemption and the grammar matcher\<close>

lemma ctx_reset_ok:
  assumes inv: "run_inv c0 (c, com, out)"
  obtains c' where "reset c = Inr c'" and "tb_ready (tokens c')" and "pending_future_count c' = 0"
    and "prompt (tokens c') = prompt (tokens c) @ com" and "generated (tokens c') = []"
    and "active (tokens c') = prompt (tokens c) @ com" and "is_initial_prompt c'"
proof -
  let ?k = "pending_future_count c" and ?b = "tokens c"
  have r: "tb_ready ?b" and i: "tb_inv ?b" using inv by (simp_all add: run_inv_def tb_ready_def)
  have g: "generated ?b = com @ replicate (nat ?k) FUTURE_TOKEN" and k: "0 \<le> ?k"
    using inv by (simp_all add: run_inv_def)
  define n where "n = current_length ?b - ?k"
  have n: "prompt_length ?b \<le> n" "1 \<le> prompt_length ?b" "n \<le> current_length ?b"
      "current_length ?b \<le> int (length (array ?b))" "int (length com) = n - prompt_length ?b"
    using generated_len [OF i] g k i by (auto simp: n_def tb_inv_def)
  define t where "t = ?b\<lparr>current_length := n, processing_range := \<lparr>r_start = 0, r_end = n\<rparr>,
      completion_range := \<lparr>r_start = n, r_end = n\<rparr>, prompt_length := n, actively_chunked := False\<rparr>"
  have rs: "reset_as_new_prompt ?k ?b = Inr t"
    using n i k by (auto simp: reset_as_new_prompt_def Range_init_def t_def n_def tb_inv_def
        generated_length_def Let_def)
  have com: "com = py_slice (array ?b) (prompt_length ?b) n"
  proof -
    have "com = take (length com) (generated ?b)" using g by simp
    also have "length com = nat (n - prompt_length ?b)" using n(5) by linarith
    also have "take \<dots> (generated ?b) = py_slice (array ?b) (prompt_length ?b) n"
      using n(1-4) by (simp add: generated_def py_slice_nonneg min_def)
    finally show ?thesis .
  qed
  have pr: "py_slice (array ?b) 0 n = prompt ?b @ com"
    unfolding com prompt_def using n by (intro py_slice_join [symmetric]) auto
  have "tb_ready t"
    using r n by (simp add: tb_ready_def tb_inv_def t_def range_ok_def)
  moreover have "prompt t = prompt ?b @ com" "active t = prompt ?b @ com" "generated t = []"
    using pr r n by (simp_all add: t_def prompt_def active_def tb_ready_def generated_def py_slice_self)
  ultimately show thesis
    by (intro that [of "c\<lparr>tokens := t, pending_future_count := 0, is_initial_prompt := True,
              spec_decoding_state := None\<rparr>"]) (simp_all add: reset_def rs)
qed

text \<open>What the matcher is fed over a stream in \<open>tool_choice=auto\<close> mode.\<close>

fun region_feeds :: "int list \<Rightarrow> int list \<Rightarrow> bool \<Rightarrow> int list \<Rightarrow> int list \<Rightarrow> int list list" where
  "region_feeds st en on hist [] = []"
| "region_feeds st en on hist (t # ts) =
     (if completes (if on then en else st) (hist @ [t])
      then (if on then [t] else st) # region_feeds st en (\<not> on) [] ts
      else (if on then [[t]] else []) @ region_feeds st en on (hist @ [t]) ts)"

definition fsm_run ::
  "('m \<Rightarrow> int list \<Rightarrow> int \<times> 'm) \<Rightarrow> ('m, 'l, 'z) text_context_scheme \<Rightarrow> int list \<Rightarrow>
   ('m, 'l, 'z) text_context_scheme" where
  "fsm_run consume c ts = foldl (\<lambda>c t. snd (advance_fsm consume t c)) c ts"

lemma advance_fsm_tracks:
  assumes acc: "\<And>m ts. fst (consume m ts) = int (length ts)" and st: "st \<noteq> []"
    and m: "matcher c = Some m" and ne: "t \<notin> set (eos_token_ids (ctx_eos c))"
    and tr: "tracks st en hist (grammar_state c)"
    and c': "c' = snd (advance_fsm consume t c)" and on: "on = grammar_enforced (grammar_state c)"
  shows "if completes (if on then en else st) (hist @ [t])
    then matcher c' = Some (snd (consume m (if on then [t] else st))) \<and>
      (grammar_enforced (grammar_state c') \<longleftrightarrow> \<not> on) \<and> tracks st en [] (grammar_state c')
    else matcher c' = Some (if on then snd (consume m [t]) else m) \<and>
      (grammar_enforced (grammar_state c') \<longleftrightarrow> on) \<and> tracks st en (hist @ [t]) (grammar_state c')"
proof -
  obtain fed g where u: "update_enforcement_state t (grammar_state c) = (fed, g)" by fastforce
  note step = update_tracks [OF tr u]
  have region: "tool_region g = Some \<lparr>start_token_ids = Some st, end_token_ids = Some en\<rparr>"
    using step by (auto simp: tracks_def auto_mode_def split: if_splits)
  have "c' = (if fed then c\<lparr>grammar_state := g, matcher := Some (snd (consume m (if on then [t] else st)))\<rparr>
      else c\<lparr>grammar_state := g\<rparr>)"
    using m ne u region st acc
    by (simp add: c' advance_fsm_def ctx_update_enforcement_state_def tokens_for_consume_def Let_def
        split_beta on)
  with step m on show ?thesis by (auto split: if_splits)
qed

lemma fsm_run_feeds:
  assumes "\<And>m ts. fst (consume m ts) = int (length ts)" and "st \<noteq> []"
    and "matcher c = Some m" and "set ts \<inter> set (eos_token_ids (ctx_eos c)) = {}"
    and "tracks st en hist (grammar_state c)"
  shows "matcher (fsm_run consume c ts) =
    Some (foldl (\<lambda>m fed. snd (consume m fed)) m
      (region_feeds st en (grammar_enforced (grammar_state c)) hist ts))"
  using assms(3-)
proof (induction ts arbitrary: c m hist)
  case Nil
  then show ?case by (simp add: fsm_run_def)
next
  case (Cons t ts)
  let ?c = "snd (advance_fsm consume t c)"
  have ne: "t \<notin> set (eos_token_ids (ctx_eos c))" "set ts \<inter> set (eos_token_ids (ctx_eos ?c)) = {}"
    using Cons.prems(2) by (auto simp: advance_fsm_frame)
  note step = advance_fsm_tracks [OF assms(1,2) Cons.prems(1) ne(1) Cons.prems(3) refl refl]
  have run: "fsm_run consume c (t # ts) = fsm_run consume ?c ts" by (simp add: fsm_run_def)
  show ?case
  proof (cases "completes (if grammar_enforced (grammar_state c) then en else st) (hist @ [t])")
    case True
    with step Cons.IH [of ?c _ "[]", OF _ ne(2)] show ?thesis by (simp add: run)
  next
    case False
    with step Cons.IH [of ?c _ "hist @ [t]", OF _ ne(2)] show ?thesis by (simp add: run)
  qed
qed

section \<open>Properties\<close>

text \<open>
  C6. Overlap scheduling does not change what is generated. Drive a fresh request by any mix of
  direct updates, placeholder appends, realizations, chunked prefill steps and output calls,
  with any number of placeholders in flight: whenever the calls return, the buffer holds the
  committed tokens in order followed exactly by the unrealized placeholders, the client has
  been handed a prefix of the committed tokens, and taking output now succeeds and completes
  it to all committed tokens, so no placeholder, duplicate or gap ever reaches the client.
\<close>
theorem overlap_commits_in_order:
  assumes "TokenBuffer_init 1 True arr = Inr (tokens c0)" and "pending_future_count c0 = 0"
    and "status c0 = ACTIVE" and "list_all (valid_op (vocab_size c0)) ops"
    and "fold_r (ctx_exec consume junk depth) (c0, [], []) ops = Inr (c, committed, out)"
  shows "generated (tokens c) = committed @ replicate (nat (pending_future_count c)) FUTURE_TOKEN \<and>
    (\<exists>o1 c'. to_generation_output c = Inr (o1, c') \<and> out @ out_tokens o1 = committed \<and>
       FUTURE_TOKEN \<notin> set (out_tokens o1))"
proof -
  have inv: "run_inv c0 (c, committed, out)" by (rule ctx_run_inv [OF assms])
  obtain o1 c' where o: "to_generation_output c = Inr (o1, c')" "out @ out_tokens o1 = committed"
    "final_status o1 = reported_status c" "run_inv c0 (c', committed, committed)"
    by (rule output_complete [OF inv]) (rule that)
  have "set (out_tokens o1) \<subseteq> set committed" using o(2) by auto
  then have "FUTURE_TOKEN \<notin> set (out_tokens o1)"
    using inv valid_not_future by (auto simp: run_inv_def)
  with o inv show ?thesis by (auto simp: run_inv_def)
qed

definition example_context :: "(int list, unit) text_context" where
  "example_context = TextContext_default 1 100 example_buffer"

theorem overlap_commits_in_order_witness:
  "\<exists>c. fold_r (ctx_exec (\<lambda>m ts. (int (length ts), m)) (\<lambda>_. 0) 2) (example_context, [], [])
       [FutureOp, FutureOp, RealizeOp 21] = Inr (c, [21], []) \<and>
     generated (tokens c) = [21, FUTURE_TOKEN]"
proof -
  let ?ops = "[FutureOp, FutureOp, RealizeOp 21]"
  let ?run = "fold_r (ctx_exec (\<lambda>m ts. (int (length ts), m)) (\<lambda>_. 0) 2) (example_context, [], []) ?ops"
  let ?c = "fst (projr ?run)"
  have run: "?run = Inr (?c, [21], [])" and k: "pending_future_count ?c = 1"
    by code_simp+
  have "TokenBuffer_init 1 True [10, 11, 12, 13] = Inr (tokens example_context)"
    "pending_future_count example_context = 0" "status example_context = ACTIVE"
    "list_all (valid_op (vocab_size example_context)) ?ops"
    using example_buffer_init by (simp_all add: example_context_def TextContext_default_def valid_token_def)
  from overlap_commits_in_order [OF this run] run k show ?thesis by auto
qed



text \<open>
  C26. Preempting a request loses nothing that was committed: after any such run \<open>reset\<close>
  succeeds, drops exactly the unrealized placeholders, and the new prompt, which is entirely
  active again, is the old prompt followed by the committed tokens.
\<close>
theorem preemption_keeps_committed:
  assumes "TokenBuffer_init 1 True arr = Inr (tokens c0)" and "pending_future_count c0 = 0"
    and "status c0 = ACTIVE" and "list_all (valid_op (vocab_size c0)) ops"
    and "fold_r (ctx_exec consume junk depth) (c0, [], []) ops = Inr (c, committed, out)"
  shows "\<exists>c'. reset c = Inr c' \<and> tb_ready (tokens c') \<and> pending_future_count c' = 0 \<and>
    prompt (tokens c') = prompt (tokens c) @ committed \<and> generated (tokens c') = [] \<and>
    active (tokens c') = prompt (tokens c) @ committed"
proof -
  have inv: "run_inv c0 (c, committed, out)" by (rule ctx_run_inv [OF assms])
  obtain c' where "reset c = Inr c'" "tb_ready (tokens c')" "pending_future_count c' = 0"
    "prompt (tokens c') = prompt (tokens c) @ committed" "generated (tokens c') = []"
    "active (tokens c') = prompt (tokens c) @ committed" "is_initial_prompt c'"
    by (rule ctx_reset_ok [OF inv]) (rule that)
  then show ?thesis by blast
qed

theorem preemption_keeps_committed_witness:
  "\<exists>c c'. fold_r (ctx_exec (\<lambda>m ts. (int (length ts), m)) (\<lambda>_. 0) 2) (example_context, [], [])
       [UpdateOp 21, FutureOp] = Inr (c, [21], []) \<and> reset c = Inr c' \<and>
     active (tokens c') = [10, 11, 12, 13, 21]"
proof -
  let ?ops = "[UpdateOp 21, FutureOp]"
  let ?run = "fold_r (ctx_exec (\<lambda>m ts. (int (length ts), m)) (\<lambda>_. 0) 2) (example_context, [], []) ?ops"
  let ?c = "fst (projr ?run)"
  have run: "?run = Inr (?c, [21], [])" and p: "prompt (tokens ?c) = [10, 11, 12, 13]"
    by code_simp+
  have "TokenBuffer_init 1 True [10, 11, 12, 13] = Inr (tokens example_context)"
    "pending_future_count example_context = 0" "status example_context = ACTIVE"
    "list_all (valid_op (vocab_size example_context)) ?ops"
    using example_buffer_init by (simp_all add: example_context_def TextContext_default_def valid_token_def)
  from preemption_keeps_committed [OF this run] run p show ?thesis by auto
qed



end
