(* ===== verification/Vision_Context.thy ===== *)
theory Vision_Context
  imports Text_Context
begin

text \<open>
  The request state of vision models, the class \<open>TextAndVisionContext\<close> of
  \<open>max/pipelines/context/context.py\<close>, with \<open>ImageMetadata\<close> and \<open>TokenHashOverride\<close> of
  \<open>tokens.py\<close>: image ranges in the prompt, which images a prefill window needs, and the
  alignment of positions to image boundaries. Pixel values are not read by this code and are
  left out of the metadata.
\<close>

section \<open>State and operations\<close>

record image_metadata =
  start_idx :: int
  end_idx :: int
  image_hash :: "int option"
  num_embedding_rows :: "int option"

definition ImageMetadata_init :: "int \<Rightarrow> int \<Rightarrow> int option \<Rightarrow> int option \<Rightarrow> image_metadata result" where
  "ImageMetadata_init s e h rows =
     raise_if (s < 0) ValueError
     (raise_if (e \<le> s) ValueError
        (Inr \<lparr>start_idx = s, end_idx = e, image_hash = h, num_embedding_rows = rows\<rparr>))"

definition embedding_rows :: "image_metadata \<Rightarrow> int" where
  "embedding_rows img =
     (case num_embedding_rows img of Some n \<Rightarrow> n | None \<Rightarrow> end_idx img - start_idx img)"

record token_hash_override =
  token_idx :: int
  token_hash :: int

definition TokenHashOverride_init :: "int \<Rightarrow> int \<Rightarrow> token_hash_override result" where
  "TokenHashOverride_init i h = raise_if (i < 0) ValueError (Inr \<lparr>token_idx = i, token_hash = h\<rparr>)"

record ('m, 'l) vision_context = "('m, 'l) text_context" +
  vision_token_ids :: "int list"
  images :: "image_metadata list"
  token_hash_overrides :: "token_hash_override list"

fun check_image_order :: "image_metadata list \<Rightarrow> unit result" where
  "check_image_order (prev_img # next_img # imgs) =
     raise_if (start_idx next_img < start_idx prev_img) ValueError
     (raise_if (start_idx next_img < end_idx prev_img) ValueError
        (check_image_order (next_img # imgs)))"
| "check_image_order _ = Inr ()"

definition check_image :: "('m, 'l) vision_context \<Rightarrow> image_metadata \<Rightarrow> unit result" where
  "check_image c img =
     raise_if (tb_len (tokens c) < end_idx img) ValueError
     (bind_r (getitem (tokens c) (IntKey (start_idx img))) (\<lambda>first.
      if hd first \<notin> set (vision_token_ids c) then Inl ValueError
      else bind_r (getitem (tokens c) (IntKey (end_idx img - 1))) (\<lambda>last_tok.
        raise_if (hd last_tok \<notin> set (vision_token_ids c)) ValueError (Inr ()))))"

fun check_overrides ::
  "('m, 'l) vision_context \<Rightarrow> int set \<Rightarrow> token_hash_override list \<Rightarrow> unit result" where
  "check_overrides c seen [] = Inr ()"
| "check_overrides c seen (ov # ovs) =
     raise_if (tb_len (tokens c) \<le> token_idx ov) ValueError
     (raise_if (token_idx ov \<in> seen) ValueError
        (check_overrides c (insert (token_idx ov) seen) ovs))"

fun image_idx_from :: "nat \<Rightarrow> int \<Rightarrow> image_metadata list \<Rightarrow> nat" where
  "image_idx_from i pos [] = i"
| "image_idx_from i pos (img # imgs) =
     (if pos < end_idx img then i else image_idx_from (Suc i) pos imgs)"

definition image_idx :: "('m, 'l) vision_context \<Rightarrow> nat" where
  "image_idx c = image_idx_from 0 (processed_length (tokens c)) (images c)"

definition next_images :: "('m, 'l) vision_context \<Rightarrow> image_metadata list" where
  "next_images c =
     (if images c = [] \<or> image_idx c = length (images c) then [] else drop (image_idx c) (images c))"

definition next_images_in_window :: "('m, 'l) vision_context \<Rightarrow> image_metadata list" where
  "next_images_in_window c =
     (let s = processed_length (tokens c); e = current_position (tokens c)
      in filter (\<lambda>img. start_idx img < e \<and> end_idx img > s) (next_images c))"

definition needs_vision_encoding :: "('m, 'l) vision_context \<Rightarrow> bool" where
  "needs_vision_encoding c \<longleftrightarrow> image_idx c < length (images c)"

definition image_token_indices :: "('m, 'l) vision_context \<Rightarrow> int list" where
  "image_token_indices c =
     (if images c = [] then []
      else concat (map (\<lambda>img. [start_idx img..end_idx img - 1]) (images c)))"

fun align_in_images :: "int \<Rightarrow> image_metadata list \<Rightarrow> int" where
  "align_in_images idx [] = idx"
| "align_in_images idx (img # imgs) =
     (if start_idx img \<le> idx \<and> idx < end_idx img then start_idx img else align_in_images idx imgs)"

definition compute_image_aligned_idx :: "int \<Rightarrow> ('m, 'l) vision_context \<Rightarrow> int" where
  "compute_image_aligned_idx idx c = align_in_images idx (images c)"

definition find_bisected_image :: "int \<Rightarrow> ('m, 'l) vision_context \<Rightarrow> image_metadata option" where
  "find_bisected_image idx c =
     find (\<lambda>img. start_idx img < idx \<and> idx < end_idx img) (images c)"

definition validate_state :: "('m, 'l) vision_context \<Rightarrow> unit result" where
  "validate_state c =
     raise_if (\<not> actively_chunked (tokens c) \<and>
               find_bisected_image (current_position (tokens c)) c \<noteq> None) ValueError (Inr ())"

definition VisionContext_post_init :: "('m, 'l) vision_context \<Rightarrow> unit result" where
  "VisionContext_post_init c =
     bind_r (TextContext_post_init c) (\<lambda>_.
     bind_r (if length (images c) > 0 then check_image_order (images c) else Inr ()) (\<lambda>_.
     bind_r (fold_r (\<lambda>_ img. check_image c img) () (images c)) (\<lambda>_.
     bind_r (check_overrides c {} (token_hash_overrides c)) (\<lambda>_.
       validate_state c))))"

definition vision_update ::
  "('m \<Rightarrow> int list \<Rightarrow> int \<times> 'm) \<Rightarrow> (nat \<Rightarrow> int) \<Rightarrow> int \<Rightarrow> 'l option \<Rightarrow>
   ('m, 'l) vision_context \<Rightarrow> ('m, 'l) vision_context result" where
  "vision_update consume junk new_token log_probabilities c =
     bind_r (update consume junk new_token log_probabilities c) (\<lambda>c.
     bind_r (validate_state c) (\<lambda>_. Inr c))"

section \<open>Image ranges\<close>

text \<open>What construction establishes: non-empty ranges, in order and disjoint.\<close>

definition images_ok :: "image_metadata list \<Rightarrow> bool" where
  "images_ok imgs \<longleftrightarrow> list_all (\<lambda>img. 0 \<le> start_idx img \<and> start_idx img < end_idx img) imgs \<and>
     sorted_wrt (\<lambda>a b. end_idx a \<le> start_idx b) imgs"

lemma images_ok_Cons:
  "images_ok (img # imgs) \<longleftrightarrow> 0 \<le> start_idx img \<and> start_idx img < end_idx img \<and>
     (\<forall>b \<in> set imgs. end_idx img \<le> start_idx b) \<and> images_ok imgs"
  by (auto simp: images_ok_def)

lemma check_image_order_ok:
  assumes "check_image_order imgs = Inr ()"
    and "list_all (\<lambda>img. 0 \<le> start_idx img \<and> start_idx img < end_idx img) imgs"
  shows "images_ok imgs"
  using assms
proof (induction imgs rule: check_image_order.induct)
  case (1 p n imgs)
  then have le: "end_idx p \<le> start_idx n" and ok: "images_ok (n # imgs)" by (auto simp: raise_if_eq_Inr)
  have "end_idx p \<le> start_idx b" if "b \<in> set imgs" for b
  proof -
    have "end_idx n \<le> start_idx b" "start_idx n < end_idx n" using ok that by (auto simp: images_ok_Cons)
    with le show ?thesis by simp
  qed
  with le ok 1 show ?case by (auto simp: images_ok_Cons)
qed (auto simp: images_ok_def)

lemma image_idx_from_drop:
  "i \<le> image_idx_from i pos imgs \<and>
   drop (image_idx_from i pos imgs - i) imgs = dropWhile (\<lambda>img. end_idx img \<le> pos) imgs \<and>
   image_idx_from i pos imgs - i \<le> length imgs"
proof (induction imgs arbitrary: i)
  case (Cons img imgs)
  show ?case
  proof (cases "pos < end_idx img")
    case False
    from Cons.IH [of "Suc i"] obtain d where "image_idx_from (Suc i) pos imgs = Suc i + d"
      using le_Suc_ex by blast
    with False Cons.IH [of "Suc i"] show ?thesis by simp
  qed simp
qed simp

lemma next_images_dropWhile:
  "next_images c = dropWhile (\<lambda>img. end_idx img \<le> processed_length (tokens c)) (images c)"
proof (cases "image_idx c = length (images c)")
  case True
  with image_idx_from_drop [of 0 "processed_length (tokens c)" "images c"] show ?thesis
    by (simp add: next_images_def image_idx_def)
next
  case False
  with image_idx_from_drop [of 0 "processed_length (tokens c)" "images c"] show ?thesis
    by (auto simp: next_images_def image_idx_def)
qed

lemma dropWhile_ends:
  "images_ok imgs \<Longrightarrow> dropWhile (\<lambda>img. end_idx img \<le> pos) imgs = filter (\<lambda>img. pos < end_idx img) imgs"
proof (induction imgs)
  case (Cons img imgs)
  show ?case
  proof (cases "end_idx img \<le> pos")
    case False
    have "pos < end_idx b" if "b \<in> set imgs" for b
    proof -
      have "end_idx img \<le> start_idx b" using Cons.prems that by (simp add: images_ok_Cons)
      moreover have "start_idx b < end_idx b"
        using Cons.prems that by (auto simp: images_ok_def list_all_iff)
      ultimately show ?thesis using False by simp
    qed
    then have "filter (\<lambda>img. pos < end_idx img) imgs = imgs" by (simp add: filter_id_conv)
    with False show ?thesis by simp
  qed (use Cons in \<open>simp add: images_ok_Cons\<close>)
qed simp

lemma align_cases:
  "align_in_images idx imgs = idx \<and> (\<forall>img \<in> set imgs. \<not> (start_idx img \<le> idx \<and> idx < end_idx img)) \<or>
   (\<exists>img \<in> set imgs. start_idx img \<le> idx \<and> idx < end_idx img \<and> align_in_images idx imgs = start_idx img)"
  by (induction imgs) auto

lemma images_ok_disjoint:
  "images_ok imgs \<Longrightarrow> a \<in> set imgs \<Longrightarrow> b \<in> set imgs \<Longrightarrow> start_idx a < end_idx b \<Longrightarrow> start_idx b < end_idx a \<Longrightarrow>
   start_idx a = start_idx b \<and> end_idx a = end_idx b"
proof (induction imgs)
  case (Cons img imgs)
  then show ?case by (fastforce simp: images_ok_Cons)
qed simp

definition bisects :: "int \<Rightarrow> image_metadata list \<Rightarrow> bool" where
  "bisects idx imgs \<longleftrightarrow> list_ex (\<lambda>img. start_idx img < idx \<and> idx < end_idx img) imgs"

lemma aligned_not_bisecting:
  assumes "images_ok imgs"
  shows "\<not> bisects (align_in_images idx imgs) imgs"
proof
  assume "bisects (align_in_images idx imgs) imgs"
  then obtain b where b: "b \<in> set imgs" "start_idx b < align_in_images idx imgs" "align_in_images idx imgs < end_idx b"
    by (auto simp: bisects_def list_ex_iff)
  from align_cases [of idx imgs] show False
  proof
    assume "align_in_images idx imgs = idx \<and> (\<forall>img \<in> set imgs. \<not> (start_idx img \<le> idx \<and> idx < end_idx img))"
    with b show False by auto
  next
    assume "\<exists>img \<in> set imgs. start_idx img \<le> idx \<and> idx < end_idx img \<and> align_in_images idx imgs = start_idx img"
    then obtain a where a: "a \<in> set imgs" "start_idx a \<le> idx" "idx < end_idx a" "align_in_images idx imgs = start_idx a" by blast
    with b images_ok_disjoint [OF assms a(1) b(1)] show False by simp
  qed
qed

section \<open>Properties\<close>

text \<open>
  C38. The images handed to the vision encoder for a prefill window are exactly the images of
  the prompt that have a token in the window, however the prompt is chunked: none is dropped
  because an earlier one was passed and none outside the window is encoded early.
\<close>
theorem window_images_exact:
  assumes "check_image_order (images c) = Inr ()"
    and "list_all (\<lambda>img. 0 \<le> start_idx img \<and> start_idx img < end_idx img) (images c)"
  shows "next_images_in_window c =
    filter (\<lambda>img. start_idx img < current_position (tokens c) \<and> processed_length (tokens c) < end_idx img)
      (images c)"
proof -
  have "images_ok (images c)" by (rule check_image_order_ok [OF assms])
  then show ?thesis
    by (auto simp: next_images_in_window_def Let_def next_images_dropWhile dropWhile_ends intro: filter_cong)
qed

definition img_at :: "int \<Rightarrow> int \<Rightarrow> image_metadata" where
  "img_at s e = \<lparr>start_idx = s, end_idx = e, image_hash = None, num_embedding_rows = None\<rparr>"

definition example_vision :: "(unit, unit) vision_context" where
  "example_vision = text_context.extend (TextContext_default 1 100 (example_buffer\<lparr>processing_range :=
       \<lparr>r_start = 1, r_end = 3\<rparr>, actively_chunked := True\<rparr>))
     (vision_context.fields [11] [img_at 0 1, img_at 2 4] [])"

theorem window_images_exact_witness:
  "check_image_order (images example_vision) = Inr () \<and>
   next_images_in_window example_vision = [img_at 2 4]"
proof -
  have "check_image_order (images example_vision) = Inr ()"
    "list_all (\<lambda>img. 0 \<le> start_idx img \<and> start_idx img < end_idx img) (images example_vision)"
    by code_simp+
  moreover have "filter (\<lambda>img. start_idx img < current_position (tokens example_vision) \<and>
      processed_length (tokens example_vision) < end_idx img) (images example_vision) = [img_at 2 4]"
    by code_simp
  ultimately show ?thesis using window_images_exact [of example_vision] by simp
qed

text \<open>
  Aligning a position moves it down to an image boundary: the result is not past the
  position, does not lie strictly inside any image, and is the position itself unless the
  position lies in an image, whose first token it then is; it is the largest such boundary.
\<close>
theorem aligned_idx_is_largest_boundary:
  assumes "check_image_order (images c) = Inr ()"
    and "list_all (\<lambda>img. 0 \<le> start_idx img \<and> start_idx img < end_idx img) (images c)"
  shows "compute_image_aligned_idx idx c \<le> idx \<and>
    find_bisected_image (compute_image_aligned_idx idx c) c = None \<and>
    (\<forall>j. compute_image_aligned_idx idx c < j \<and> j < idx \<longrightarrow> find_bisected_image j c \<noteq> None)"
proof -
  have ok: "images_ok (images c)" by (rule check_image_order_ok [OF assms])
  have find: "find_bisected_image j c = None \<longleftrightarrow> \<not> bisects j (images c)" for j
    by (auto simp: find_bisected_image_def bisects_def find_None_iff list_ex_iff)
  have inside: "bisects j (images c)" if "compute_image_aligned_idx idx c < j" "j < idx" for j
    using that align_cases [of idx "images c"]
    by (auto simp: compute_image_aligned_idx_def bisects_def list_ex_iff intro: bexI [rotated])
  have "compute_image_aligned_idx idx c \<le> idx"
    using align_cases [of idx "images c"] by (auto simp: compute_image_aligned_idx_def)
  with inside aligned_not_bisecting [OF ok] show ?thesis
    unfolding find by (simp add: compute_image_aligned_idx_def)
qed

theorem aligned_idx_is_largest_boundary_witness:
  "compute_image_aligned_idx 3 example_vision = 2 \<and> find_bisected_image 2 example_vision = None"
proof -
  have "check_image_order (images example_vision) = Inr ()"
    "list_all (\<lambda>img. 0 \<le> start_idx img \<and> start_idx img < end_idx img) (images example_vision)"
    "compute_image_aligned_idx 3 example_vision = 2"
    by code_simp+
  with aligned_idx_is_largest_boundary [of example_vision 3] show ?thesis by simp
qed

end
