(* ===== verification/Block_Hash.thy ===== *)
theory Block_Hash
  imports Vision_Context
begin

unbundle bit_operations_syntax

text \<open>
  Prefix-cache keys: \<open>hash_request_tokens\<close> and its helpers in
  \<open>max/pipelines/kv_cache/paged_kv_cache/block_utils.py\<close>, the wrappers \<open>block_hasher\<close> and
  \<open>block_hasher_sha256\<close> of \<open>max/_core_mojo/__init__.py\<close> with the chaining loops they call,
  and \<open>compute_block_hashes\<close> of \<open>block_manager.py\<close>. The hash primitives themselves (seeded
  AHash of bytes and of a pair, SHA-256) are the parameter record \<open>hash_prims\<close>.

  \<open>hash_request_tokens\<close> overwrites entries of the caller's array and restores them in a
  \<open>finally\<close> block, so it returns its result together with the array it leaves behind.
\<close>

section \<open>Byte strings and machine integers\<close>

record hash_prims =
  hash_seeded_bytes :: "bytes \<Rightarrow> bytes \<Rightarrow> 64 word"
  hash_seeded_pair :: "64 word \<times> 64 word \<Rightarrow> bytes \<Rightarrow> 64 word"
  sha256 :: "bytes \<Rightarrow> bytes"

definition be8 :: "64 word \<Rightarrow> bytes" where
  "be8 w = map (\<lambda>i. ucast (drop_bit (8 * (7 - i)) w)) [0..<8]"

definition from_be :: "bytes \<Rightarrow> 64 word" where
  "from_be bs = foldl (\<lambda>acc b. push_bit 8 acc OR ucast b) 0 bs"

definition le4 :: "32 word \<Rightarrow> bytes" where
  "le4 w = map (\<lambda>i. ucast (drop_bit (8 * i) w)) [0..<4]"

text \<open>\<open>tokens.astype(np.int32)\<close>: an integer keeps its low 32 bits.\<close>

definition to_int32 :: "int \<Rightarrow> 32 word" where
  "to_int32 t = word_of_int t"

definition token_bytes :: "int list \<Rightarrow> bytes" where
  "token_bytes ts = concat (map (\<lambda>t. le4 (to_int32 t)) ts)"

text \<open>\<open>str.encode("utf-8")\<close>; a surrogate cannot be encoded.\<close>

fun utf8_char :: "nat \<Rightarrow> bytes result" where
  "utf8_char c =
     (if c < 0x80 then Inr [of_nat c]
      else if c < 0x800 then Inr [of_nat (0xC0 + c div 64), of_nat (0x80 + c mod 64)]
      else if 0xD800 \<le> c \<and> c < 0xE000 then Inl ValueError
      else if c < 0x10000 then
        Inr [of_nat (0xE0 + c div 4096), of_nat (0x80 + c div 64 mod 64), of_nat (0x80 + c mod 64)]
      else Inr [of_nat (0xF0 + c div 262144), of_nat (0x80 + c div 4096 mod 64),
                of_nat (0x80 + c div 64 mod 64), of_nat (0x80 + c mod 64)])"

fun utf8_encode :: "pystr \<Rightarrow> bytes result" where
  "utf8_encode [] = Inr []"
| "utf8_encode (c # cs) = bind_r (utf8_char c) (\<lambda>b. bind_r (utf8_encode cs) (\<lambda>bs. Inr (b @ bs)))"

section \<open>Chained block hashing\<close>

text \<open>The tokens cut into full blocks; a partial last block is dropped.\<close>

definition full_blocks :: "int \<Rightarrow> int list \<Rightarrow> int list list" where
  "full_blocks block_size ts =
     map (\<lambda>i. take (nat block_size) (drop (i * nat block_size) ts)) [0..<length ts div nat block_size]"

fun ahash_chain :: "hash_prims \<Rightarrow> bytes \<Rightarrow> 64 word \<Rightarrow> int list list \<Rightarrow> 64 word list" where
  "ahash_chain P seed prev_hash [] = []"
| "ahash_chain P seed prev_hash (blk # blks) =
     (let token_hash = hash_seeded_bytes P (token_bytes blk) seed;
          curr_hash = hash_seeded_pair P (prev_hash, token_hash) seed
      in curr_hash # ahash_chain P seed curr_hash blks)"

fun sha256_chain :: "hash_prims \<Rightarrow> bytes \<Rightarrow> int list list \<Rightarrow> bytes list" where
  "sha256_chain P prev [] = []"
| "sha256_chain P prev (blk # blks) =
     (let local_hash = sha256 P (token_bytes blk);
          seq_hash = sha256 P (local_hash @ prev)
      in seq_hash # sha256_chain P seq_hash blks)"

text \<open>
  The parent is decoded to a signed integer and each result encoded back; both conversions are
  the identity on the 64 bits.
\<close>

definition block_hasher :: "hash_prims \<Rightarrow> int list \<Rightarrow> int \<Rightarrow> bytes \<Rightarrow> bytes \<Rightarrow> bytes list result" where
  "block_hasher P ts block_size parent_hash seed =
     raise_if (block_size \<le> 0) ValueError
     (raise_if (length parent_hash \<noteq> 8) ValueError
     (raise_if (length seed \<noteq> 32) ValueError
        (Inr (map be8 (ahash_chain P seed (from_be parent_hash) (full_blocks block_size ts))))))"

definition block_hasher_sha256 :: "hash_prims \<Rightarrow> int list \<Rightarrow> int \<Rightarrow> bytes \<Rightarrow> bytes list result" where
  "block_hasher_sha256 P ts block_size parent_hash =
     raise_if (block_size \<le> 0) ValueError
     (raise_if (length parent_hash \<noteq> 32) ValueError
        (Inr (sha256_chain P parent_hash (full_blocks block_size ts))))"

section \<open>Seeds and salts\<close>

definition DEFAULT_PARENT_HASH :: bytes where
  "DEFAULT_PARENT_HASH = replicate 8 0"

definition ZERO_SEED :: bytes where
  "ZERO_SEED = replicate 32 0"

definition make_root_parent_hash :: "hash_prims \<Rightarrow> bytes option \<Rightarrow> pystr option \<Rightarrow> bytes result" where
  "make_root_parent_hash P seed salt =
     (let base = (case seed of Some s \<Rightarrow> s | None \<Rightarrow> ZERO_SEED) in
      raise_if (length base \<noteq> 32) ValueError
      (case salt of None \<Rightarrow> Inr base
       | Some s \<Rightarrow>
           if s = [] then Inr base
           else bind_r (utf8_encode s) (\<lambda>encoded.
             Inr (map (\<lambda>(b, d). b XOR d) (zip base (sha256 P encoded))))))"

definition truncate_to_signed64 :: "bytes \<Rightarrow> int" where
  "truncate_to_signed64 digest =
     (let n = uint (from_be (take 8 digest)) in if n \<ge> 2 ^ 63 then n - 2 ^ 64 else n)"

section \<open>Hashing the tokens of a request\<close>

datatype hash_algo = Ahash64 | Sha256 | Sha256_64

text \<open>The overrides that fall into the slice, by position in the slice.\<close>

fun overrides_in_slice ::
  "int \<Rightarrow> int \<Rightarrow> (int, int) dict \<Rightarrow> token_hash_override list \<Rightarrow> (int, int) dict result" where
  "overrides_in_slice n prefix_length d [] = Inr d"
| "overrides_in_slice n prefix_length d (ov # ovs) =
     (let idx = token_idx ov - prefix_length in
      if 0 \<le> idx \<and> idx < n then
        raise_if (map_of d idx \<noteq> None) ValueError
          (overrides_in_slice n prefix_length (AList.update idx (token_hash ov) d) ovs)
      else overrides_in_slice n prefix_length d ovs)"

text \<open>The writing loop, with the tokens to put back.\<close>

fun write_overrides :: "int list \<Rightarrow> (int, int) dict \<Rightarrow> (int, int) dict \<Rightarrow> int list \<times> (int, int) dict" where
  "write_overrides ts to_reset [] = (ts, to_reset)"
| "write_overrides ts to_reset ((idx, h) # d) =
     write_overrides (ts[nat idx := h]) (AList.update idx (ts ! nat idx) to_reset) d"

definition restore_tokens :: "int list \<Rightarrow> (int, int) dict \<Rightarrow> int list" where
  "restore_tokens ts to_reset = foldl (\<lambda>ts (idx, t). ts[nat idx := t]) ts to_reset"

definition hash_body ::
  "hash_prims \<Rightarrow> int list \<Rightarrow> int \<Rightarrow> bytes option \<Rightarrow> hash_algo \<Rightarrow> bytes option \<Rightarrow> pystr option \<Rightarrow>
   bytes list result" where
  "hash_body P ts block_size parent_hash algo seed salt =
     bind_r
       (if algo = Ahash64 then
          (let ph = (case parent_hash of None \<Rightarrow> DEFAULT_PARENT_HASH | Some h \<Rightarrow> h) in
           if seed \<noteq> None \<or> salt \<noteq> None
           then bind_r (make_root_parent_hash P seed salt) (\<lambda>effective_seed.
                  block_hasher P ts block_size ph effective_seed)
           else block_hasher P ts block_size ph ZERO_SEED)
        else
          bind_r (case parent_hash of
              None \<Rightarrow> make_root_parent_hash P seed salt
            | Some h \<Rightarrow> raise_if (length h \<noteq> 32) ValueError (Inr h)) (\<lambda>ph.
          bind_r (block_hasher_sha256 P ts block_size ph) (\<lambda>full_digests.
            Inr (if algo = Sha256 then full_digests else map (take 8) full_digests))))
     (\<lambda>hash_vals.
        assert_r (int (length hash_vals) = int (length ts) div block_size) (Inr hash_vals))"

definition hash_request_tokens ::
  "hash_prims \<Rightarrow> int list \<Rightarrow> int \<Rightarrow> bytes option \<Rightarrow> int \<Rightarrow> token_hash_override list \<Rightarrow>
   hash_algo \<Rightarrow> bytes option \<Rightarrow> pystr option \<Rightarrow> bytes list result \<times> int list" where
  "hash_request_tokens P token_ids block_size parent_hash prefix_length ovs algo seed salt =
     (case (if ovs \<noteq> [] then
              raise_if (prefix_length = - 1) ValueError
                (overrides_in_slice (int (length token_ids)) prefix_length [] ovs)
            else Inr []) of
        Inl e \<Rightarrow> (Inl e, token_ids)
      | Inr d \<Rightarrow>
          let (written, to_reset) = write_overrides token_ids [] d;
              r = hash_body P written block_size parent_hash algo seed salt
          in (r, restore_tokens written to_reset))"

section \<open>Hashes of a request context\<close>

datatype ('m, 'l) any_context = TextCtx "('m, 'l) text_context" | VisionCtx "('m, 'l) vision_context"

fun ctx_base :: "('m, 'l) any_context \<Rightarrow> ('m, 'l) text_context" where
  "ctx_base (TextCtx c) = c"
| "ctx_base (VisionCtx c) = text_context.truncate c"

fun image_overrides :: "image_metadata list \<Rightarrow> token_hash_override list result" where
  "image_overrides [] = Inr []"
| "image_overrides (img # imgs) =
     (case image_hash img of
        None \<Rightarrow> Inl ValueError
      | Some h \<Rightarrow> bind_r (TokenHashOverride_init (start_idx img) h) (\<lambda>ov.
          bind_r (image_overrides imgs) (\<lambda>ovs. Inr (ov # ovs))))"

fun context_overrides :: "('m, 'l) any_context \<Rightarrow> token_hash_override list result" where
  "context_overrides (TextCtx c) = Inr []"
| "context_overrides (VisionCtx c) =
     bind_r (image_overrides (images c)) (\<lambda>ovs. Inr (ovs @ token_hash_overrides c))"

definition compute_block_hashes ::
  "hash_prims \<Rightarrow> ('m, 'l) any_context \<Rightarrow> bytes list \<Rightarrow> int \<Rightarrow> hash_algo \<Rightarrow> bytes option \<Rightarrow> bytes list result" where
  "compute_block_hashes P ctx existing_hashes block_size algo seed =
     (let c = ctx_base ctx;
          num_hashed_tokens = int (length existing_hashes) * block_size;
          num_hashable_tokens = tb_len (tokens c) - max 1 (pending_future_count c);
          num_unhashed_tokens = num_hashable_tokens - num_hashed_tokens
      in if num_unhashed_tokens < block_size then Inr []
      else
        let parent_hash_value = (if existing_hashes \<noteq> [] then Some (last existing_hashes) else None)
        in bind_r (getitem (tokens c) (SliceKey (Some num_hashed_tokens) (Some num_hashable_tokens)))
             (\<lambda>unhashed_tokens.
           bind_r (context_overrides ctx) (\<lambda>ovs.
             fst (hash_request_tokens P unhashed_tokens block_size parent_hash_value
                    num_hashed_tokens ovs algo seed (cache_salt c)))))"

section \<open>Overrides are written and taken back\<close>

definition apply_updates :: "'a list \<Rightarrow> (int \<times> 'a) list \<Rightarrow> 'a list" where
  "apply_updates ts d = foldl (\<lambda>ts (idx, t). ts[nat idx := t]) ts d"

lemma length_apply_updates [simp]: "length (apply_updates ts d) = length ts"
  unfolding apply_updates_def by (induction d arbitrary: ts) auto

lemma nth_apply_updates:
  assumes "distinct (map fst d)" and "\<forall>(i, h) \<in> set d. 0 \<le> i" and "j < length ts"
  shows "apply_updates ts d ! j = (case map_of d (int j) of Some h \<Rightarrow> h | None \<Rightarrow> ts ! j)"
  using assms
proof (induction d arbitrary: ts)
  case (Cons e d)
  obtain i h where e: "e = (i, h)" by (cases e)
  have step: "apply_updates ts (e # d) = apply_updates (ts[nat i := h]) d"
    by (simp add: apply_updates_def e)
  have ih: "apply_updates (ts[nat i := h]) d ! j =
      (case map_of d (int j) of Some h \<Rightarrow> h | None \<Rightarrow> (ts[nat i := h]) ! j)"
    by (rule Cons.IH) (use Cons.prems e in auto)
  have i: "0 \<le> i" using Cons.prems(2) e by simp
  show ?case
  proof (cases "i = int j")
    case True
    moreover have "map_of d i = None" using Cons.prems(1) e by (simp add: map_of_eq_None_iff)
    ultimately show ?thesis using Cons.prems(3) unfolding step ih by (simp add: e)
  next
    case False
    then have "nat i \<noteq> j" using i by auto
    with False show ?thesis unfolding step ih by (cases "map_of d (int j)") (simp_all add: e)
  qed
qed (simp add: apply_updates_def)

lemma update_new_key: "k \<notin> fst ` set al \<Longrightarrow> AList.update k v al = al @ [(k, v)]"
  by (induction al) auto

lemma write_overrides_eq:
  assumes "distinct (map fst d)" and "fst ` set d \<inter> fst ` set r = {}"
    and "\<forall>(i, h) \<in> set d. 0 \<le> i \<and> i < int (length ts)"
  shows "write_overrides ts r d = (apply_updates ts d, r @ map (\<lambda>(i, h). (i, ts ! nat i)) d)"
  using assms
proof (induction d arbitrary: ts r)
  case (Cons e d)
  obtain i h where e: "e = (i, h)" by (cases e)
  have i: "0 \<le> i" "i < int (length ts)" using Cons.prems(3) e by auto
  have keep: "map (\<lambda>(k, h'). (k, (ts[nat i := h]) ! nat k)) d = map (\<lambda>(k, h'). (k, ts ! nat k)) d"
  proof (rule map_cong [OF refl])
    fix x assume x: "x \<in> set d"
    obtain k h' where k: "x = (k, h')" by (cases x)
    have "k \<noteq> i" "0 \<le> k" using x k Cons.prems(1,3) e by force+
    then have "nat k \<noteq> nat i" using i by auto
    then show "(case x of (k, h') \<Rightarrow> (k, (ts[nat i := h]) ! nat k)) = (case x of (k, h') \<Rightarrow> (k, ts ! nat k))"
      by (simp add: k)
  qed
  have "write_overrides ts r (e # d) = write_overrides (ts[nat i := h]) (r @ [(i, ts ! nat i)]) d"
    using Cons.prems(2) e by (simp add: update_new_key)
  also have "\<dots> = (apply_updates (ts[nat i := h]) d,
      (r @ [(i, ts ! nat i)]) @ map (\<lambda>(k, h'). (k, (ts[nat i := h]) ! nat k)) d)"
    by (rule Cons.IH) (use Cons.prems e in auto)
  finally show ?case by (simp add: keep e apply_updates_def)
qed (simp add: apply_updates_def)

definition ov_map :: "token_hash_override list \<Rightarrow> int \<Rightarrow> int option" where
  "ov_map ovs = map_of (map (\<lambda>ov. (token_idx ov, token_hash ov)) ovs)"

definition in_slice :: "int \<Rightarrow> int \<Rightarrow> token_hash_override \<Rightarrow> bool" where
  "in_slice n p ov \<longleftrightarrow> 0 \<le> token_idx ov - p \<and> token_idx ov - p < n"

text \<open>The collected dictionary: the in-range overrides by offset; a repeated offset raises.\<close>

lemma overrides_in_slice_eq:
  assumes "distinct (map fst d)"
  shows "overrides_in_slice n p d ovs =
    (let new = map (\<lambda>ov. (token_idx ov - p, token_hash ov)) (filter (in_slice n p) ovs)
     in if distinct (map fst (d @ new)) then Inr (d @ new) else Inl ValueError)"
  using assms
proof (induction ovs arbitrary: d)
  case (Cons ov ovs)
  let ?i = "token_idx ov - p"
  show ?case
  proof (cases "in_slice n p ov")
    case True
    then have rng: "0 \<le> ?i" "?i < n" by (simp_all add: in_slice_def)
    show ?thesis
    proof (cases "?i \<in> fst ` set d")
      case True
      moreover from this have "map_of d ?i \<noteq> None" by (simp add: map_of_eq_None_iff)
      ultimately show ?thesis using rng \<open>in_slice n p ov\<close> by (auto simp: Let_def)
    next
      case False
      then have "map_of d ?i = None" by (simp add: map_of_eq_None_iff)
      moreover have "distinct (map fst (d @ [(?i, token_hash ov)]))" using False Cons.prems by auto
      note ih = Cons.IH [OF this]
      define new where "new = map (\<lambda>ov. (token_idx ov - p, token_hash ov)) (filter (in_slice n p) ovs)"
      have "overrides_in_slice n p (d @ [(?i, token_hash ov)]) ovs =
          (if distinct (map fst (d @ (?i, token_hash ov) # new)) then Inr (d @ (?i, token_hash ov) # new)
           else Inl ValueError)"
        using ih by (simp only: Let_def new_def [symmetric]) simp
      moreover have "map (\<lambda>ov. (token_idx ov - p, token_hash ov)) (filter (in_slice n p) (ov # ovs)) =
          (?i, token_hash ov) # new"
        using \<open>in_slice n p ov\<close> by (simp add: new_def)
      ultimately show ?thesis using rng False by (simp add: Let_def update_new_key)
    qed
  next
    case False
    then have "\<not> (0 \<le> ?i \<and> ?i < n)" by (simp add: in_slice_def)
    then have "overrides_in_slice n p d (ov # ovs) = overrides_in_slice n p d ovs" by (auto simp: Let_def)
    with False Cons show ?thesis by simp
  qed
qed simp

lemma restore_written:
  assumes "distinct (map fst d)" and "\<forall>(i, h) \<in> set d. 0 \<le> i \<and> i < int (length ts)"
  shows "restore_tokens (apply_updates ts d) (map (\<lambda>(i, h). (i, ts ! nat i)) d) = ts"
proof (rule nth_equalityI)
  let ?r = "map (\<lambda>(i, h). (i, ts ! nat i)) d"
  have r: "restore_tokens (apply_updates ts d) ?r = apply_updates (apply_updates ts d) ?r"
    by (simp add: restore_tokens_def apply_updates_def)
  then show "length (restore_tokens (apply_updates ts d) ?r) = length ts" by simp
  fix j assume "j < length (restore_tokens (apply_updates ts d) ?r)"
  then have j: "j < length ts" by (simp add: r)
  have keys: "map fst ?r = map fst d" by (induction d) auto
  have at: "map_of ?r (int j) = (if int j \<in> fst ` set d then Some (ts ! j) else None)"
    by (induction d) auto
  have pos: "\<forall>(i, h) \<in> set d. 0 \<le> i" "\<forall>(i, h) \<in> set ?r. 0 \<le> i" using assms(2) by auto
  have d: "distinct (map fst ?r)" unfolding keys by (rule assms(1))
  have "apply_updates ts d ! j = (case map_of d (int j) of Some h \<Rightarrow> h | None \<Rightarrow> ts ! j)"
    by (rule nth_apply_updates [OF assms(1) pos(1) j])
  moreover have "apply_updates (apply_updates ts d) ?r ! j =
      (case map_of ?r (int j) of Some h \<Rightarrow> h | None \<Rightarrow> apply_updates ts d ! j)"
    by (rule nth_apply_updates [OF d pos(2)]) (use j in simp)
  moreover have "map_of d (int j) = None" if "int j \<notin> fst ` set d" using that by (simp add: map_of_eq_None_iff)
  ultimately show "restore_tokens (apply_updates ts d) ?r ! j = ts ! j" unfolding r at by simp
qed

text \<open>The tokens a slice is hashed as, and when the overrides are unambiguous.\<close>

definition ov_apply :: "token_hash_override list \<Rightarrow> int \<Rightarrow> int list \<Rightarrow> int list" where
  "ov_apply ovs p ts = map (\<lambda>j. case ov_map ovs (p + int j) of Some h \<Rightarrow> h | None \<Rightarrow> ts ! j) [0..<length ts]"

definition unambiguous :: "int \<Rightarrow> int \<Rightarrow> token_hash_override list \<Rightarrow> bool" where
  "unambiguous n p ovs \<longleftrightarrow> distinct (map token_idx (filter (in_slice n p) ovs))"

lemma length_ov_apply [simp]: "length (ov_apply ovs p xs) = length xs"
  by (simp add: ov_apply_def)

lemma nth_ov_apply:
  "j < length ts \<Longrightarrow> ov_apply ovs p ts ! j = (case ov_map ovs (p + int j) of Some h \<Rightarrow> h | None \<Rightarrow> ts ! j)"
  by (cases "ov_map ovs (p + int j)") (simp_all add: ov_apply_def)

lemma distinct_offsets:
  "distinct (map fst (map (\<lambda>ov. (token_idx ov - p, token_hash ov)) xs)) \<longleftrightarrow> distinct (map token_idx xs)"
  by (induction xs) auto

lemma slice_lookup:
  "0 \<le> j \<Longrightarrow> j < n \<Longrightarrow>
   map_of (map (\<lambda>ov. (token_idx ov - p, token_hash ov)) (filter (in_slice n p) ovs)) j = ov_map ovs (p + j)"
  by (induction ovs) (auto simp: ov_map_def in_slice_def)

lemma apply_slice_overrides:
  assumes "unambiguous (int (length ts)) p ovs"
  shows "apply_updates ts (map (\<lambda>ov. (token_idx ov - p, token_hash ov))
      (filter (in_slice (int (length ts)) p) ovs)) = ov_apply ovs p ts"
proof (rule nth_equalityI)
  let ?d = "map (\<lambda>ov. (token_idx ov - p, token_hash ov)) (filter (in_slice (int (length ts)) p) ovs)"
  fix j assume "j < length (apply_updates ts ?d)"
  then have j: "j < length ts" by simp
  have "distinct (map fst ?d)" using assms unfolding distinct_offsets by (simp add: unambiguous_def)
  from nth_apply_updates [OF this _ j] j slice_lookup [of "int j" "int (length ts)" p ovs]
  show "apply_updates ts ?d ! j = ov_apply ovs p ts ! j"
    by (auto simp: nth_ov_apply in_slice_def)
qed simp

lemma hash_request_eq:
  assumes "ovs = [] \<or> p \<noteq> - 1"
  shows "hash_request_tokens P ts bs ph p ovs algo seed salt =
    (if unambiguous (int (length ts)) p ovs then hash_body P (ov_apply ovs p ts) bs ph algo seed salt
     else Inl ValueError, ts)"
proof -
  let ?d = "map (\<lambda>ov. (token_idx ov - p, token_hash ov)) (filter (in_slice (int (length ts)) p) ovs)"
  have d: "(if ovs \<noteq> [] then raise_if (p = - 1) ValueError (overrides_in_slice (int (length ts)) p [] ovs)
      else Inr []) = (if unambiguous (int (length ts)) p ovs then Inr ?d else Inl ValueError)"
    using assms overrides_in_slice_eq [of "[]" "int (length ts)" p ovs]
    unfolding Let_def append_Nil distinct_offsets unambiguous_def by auto
  show ?thesis
  proof (cases "unambiguous (int (length ts)) p ovs")
    case True
    then have dd: "distinct (map fst ?d)" unfolding distinct_offsets by (simp add: unambiguous_def)
    have rng: "\<forall>(i, h) \<in> set ?d. 0 \<le> i \<and> i < int (length ts)" by (auto simp: in_slice_def)
    have "write_overrides ts [] ?d = (apply_updates ts ?d, [] @ map (\<lambda>(i, h). (i, ts ! nat i)) ?d)"
      by (rule write_overrides_eq) (use dd rng in auto)
    with restore_written [OF dd rng] apply_slice_overrides [OF True] True show ?thesis
      unfolding hash_request_tokens_def d by (simp add: Let_def)
  next
    case False
    then show ?thesis unfolding hash_request_tokens_def d by simp
  qed
qed

lemma ov_apply_append: "ov_apply ovs p (xs @ ys) = ov_apply ovs p xs @ ov_apply ovs (p + int (length xs)) ys"
proof (rule nth_equalityI)
  fix j assume "j < length (ov_apply ovs p (xs @ ys))"
  then show "ov_apply ovs p (xs @ ys) ! j = (ov_apply ovs p xs @ ov_apply ovs (p + int (length xs)) ys) ! j"
    by (cases "j < length xs") (simp_all add: nth_ov_apply nth_append of_nat_diff split: option.split)
qed simp

lemma take_ov_apply: "take n (ov_apply ovs p xs) = ov_apply ovs p (take n xs)"
  by (rule nth_equalityI) (simp_all add: nth_ov_apply split: option.split)

section \<open>Chaining\<close>

lemma full_blocks_append:
  assumes "0 < bs" and "length xs = k * nat bs"
  shows "full_blocks bs (xs @ ys) = full_blocks bs xs @ full_blocks bs ys"
proof -
  have n: "0 < nat bs" using assms by simp
  let ?B = "\<lambda>i zs. take (nat bs) (drop (i * nat bs) zs)"
  have len: "length (xs @ ys) div nat bs = k + length ys div nat bs"
    using n by (simp add: assms(2))
  have low: "map (\<lambda>i. ?B i (xs @ ys)) [0..<k] = map (\<lambda>i. ?B i xs) [0..<k]"
  proof (rule map_cong [OF refl])
    fix i assume "i \<in> set [0..<k]"
    then have "Suc i \<le> k" by simp
    then have "Suc i * nat bs \<le> k * nat bs" by (rule mult_le_mono1)
    then have "Suc i * nat bs \<le> length xs" by (simp only: assms(2))
    then have "i * nat bs + nat bs \<le> length xs" by simp
    then show "?B i (xs @ ys) = ?B i xs" by simp
  qed
  have high: "map (\<lambda>i. ?B i (xs @ ys)) [k..<k + length ys div nat bs] = full_blocks bs ys"
  proof -
    have "[k..<k + length ys div nat bs] = map (\<lambda>i. k + i) [0..<length ys div nat bs]"
      by (simp add: map_add_upt add.commute)
    then show ?thesis by (simp add: full_blocks_def assms(2) distrib_right)
  qed
  have "full_blocks bs (xs @ ys) = map (\<lambda>i. ?B i (xs @ ys)) ([0..<k] @ [k..<k + length ys div nat bs])"
    unfolding full_blocks_def len using upt_add_eq_append [of 0 k "length ys div nat bs"] by simp
  also have "\<dots> = map (\<lambda>i. ?B i xs) [0..<k] @ full_blocks bs ys"
    unfolding map_append low high ..
  also have "map (\<lambda>i. ?B i xs) [0..<k] = full_blocks bs xs"
    using n by (simp add: full_blocks_def assms(2))
  finally show ?thesis .
qed

lemma length_full_blocks: "length (full_blocks bs ts) = length ts div nat bs"
  by (simp add: full_blocks_def)

lemma ahash_chain_append:
  "ahash_chain P seed prev (xs @ ys) =
   ahash_chain P seed prev xs @ ahash_chain P seed (last (prev # ahash_chain P seed prev xs)) ys"
  by (induction xs arbitrary: prev) (simp_all add: Let_def)

lemma length_ahash_chain [simp]: "length (ahash_chain P seed prev xs) = length xs"
  by (induction xs arbitrary: prev) (simp_all add: Let_def)

lemma sha256_chain_append:
  "sha256_chain P prev (xs @ ys) =
   sha256_chain P prev xs @ sha256_chain P (last (prev # sha256_chain P prev xs)) ys"
  by (induction xs arbitrary: prev) (simp_all add: Let_def)

lemma length_sha256_chain [simp]: "length (sha256_chain P prev xs) = length xs"
  by (induction xs arbitrary: prev) (simp_all add: Let_def)

lemma sha256_chain_digest: "h \<in> set (sha256_chain P prev xs) \<Longrightarrow> h \<in> range (sha256 P)"
  by (induction xs arbitrary: prev) (auto simp: Let_def)

text \<open>The eight big-endian bytes of a 64-bit hash determine it.\<close>

lemma low_byte: "push_bit 8 (drop_bit 8 w) OR ucast (ucast w :: 8 word) = (w :: 64 word)"
  by (rule bit_word_eqI) (auto simp: bit_simps)

lemma from_be_step:
  "push_bit 8 (drop_bit (k + 8) w) OR ucast (ucast (drop_bit k w) :: 8 word) = drop_bit k (w :: 64 word)"
  using low_byte [of "drop_bit k w"] by (simp add: drop_bit_drop_bit add.commute)

lemma from_be_be8: "from_be (be8 w) = w"
proof -
  have top: "ucast (ucast (drop_bit 56 w) :: 8 word) = drop_bit 56 (w :: 64 word)"
    by (rule bit_word_eqI) (auto simp: bit_simps dest: bit_imp_le_length)
  have up: "[0..<8] = [0, 1, 2, 3, 4, 5, 6, 7 :: nat]" by (simp add: upt_rec)
  show ?thesis
    unfolding from_be_def be8_def up
    using from_be_step [of 48 w] from_be_step [of 40 w] from_be_step [of 32 w] from_be_step [of 24 w]
      from_be_step [of 16 w] from_be_step [of 8 w] from_be_step [of 0 w]
    by (simp add: top)
qed

lemma length_be8 [simp]: "length (be8 w) = 8"
  by (simp add: be8_def)

section \<open>Keys depend on the content only\<close>

definition eff_seed :: "hash_prims \<Rightarrow> bytes option \<Rightarrow> pystr option \<Rightarrow> bytes result" where
  "eff_seed P seed salt =
     (if seed \<noteq> None \<or> salt \<noteq> None then make_root_parent_hash P seed salt else Inr ZERO_SEED)"

definition ahash_parent :: "bytes option \<Rightarrow> bytes" where
  "ahash_parent ph = (case ph of None \<Rightarrow> DEFAULT_PARENT_HASH | Some h \<Rightarrow> h)"

definition sha_root :: "hash_prims \<Rightarrow> bytes option \<Rightarrow> bytes option \<Rightarrow> pystr option \<Rightarrow> bytes result" where
  "sha_root P ph seed salt = (case ph of None \<Rightarrow> make_root_parent_hash P seed salt
     | Some h \<Rightarrow> raise_if (length h \<noteq> 32) ValueError (Inr h))"

lemma count_blocks: "0 < bs \<Longrightarrow> int (length ts div nat bs) = int (length ts) div bs"
  by (simp add: zdiv_int)

lemma hash_body_ahash:
  assumes "0 < bs"
  shows "hash_body P ts bs ph Ahash64 seed salt =
    bind_r (eff_seed P seed salt) (\<lambda>es.
      raise_if (length (ahash_parent ph) \<noteq> 8) ValueError
      (raise_if (length es \<noteq> 32) ValueError
        (Inr (map be8 (ahash_chain P es (from_be (ahash_parent ph)) (full_blocks bs ts))))))"
proof -
  have "hash_body P ts bs ph Ahash64 seed salt =
    bind_r (bind_r (eff_seed P seed salt) (block_hasher P ts bs (ahash_parent ph))) (\<lambda>hash_vals.
      assert_r (int (length hash_vals) = int (length ts) div bs) (Inr hash_vals))"
    by (simp add: hash_body_def eff_seed_def ahash_parent_def Let_def)
  with assms show ?thesis
    by (cases "eff_seed P seed salt")
      (auto simp: block_hasher_def raise_if_def length_full_blocks count_blocks)
qed

lemma hash_body_sha:
  assumes "0 < bs" and "algo \<noteq> Ahash64"
  shows "hash_body P ts bs ph algo seed salt =
    bind_r (sha_root P ph seed salt) (\<lambda>r.
      raise_if (length r \<noteq> 32) ValueError
        (Inr (let ds = sha256_chain P r (full_blocks bs ts)
              in if algo = Sha256 then ds else map (take 8) ds)))"
proof -
  have "hash_body P ts bs ph algo seed salt =
    bind_r (bind_r (sha_root P ph seed salt) (\<lambda>ph.
          bind_r (block_hasher_sha256 P ts bs ph) (\<lambda>full_digests.
            Inr (if algo = Sha256 then full_digests else map (take 8) full_digests)))) (\<lambda>hash_vals.
      assert_r (int (length hash_vals) = int (length ts) div bs) (Inr hash_vals))"
    using assms(2) by (simp add: hash_body_def sha_root_def)
  with assms(1) show ?thesis
    by (cases "sha_root P ph seed salt")
      (auto simp: block_hasher_sha256_def raise_if_def length_full_blocks count_blocks Let_def)
qed

lemma hash_body_blocks:
  assumes "0 < bs" and "full_blocks bs ts = full_blocks bs ts'"
  shows "hash_body P ts bs ph algo seed salt = hash_body P ts' bs ph algo seed salt"
  using assms by (cases "algo = Ahash64") (simp_all add: hash_body_ahash hash_body_sha)

lemma hash_body_length:
  assumes "0 < bs" and "hash_body P ts bs ph algo seed salt = Inr h"
  shows "length h = length ts div nat bs"
  using assms by (cases "algo = Ahash64")
    (auto simp: hash_body_ahash hash_body_sha result_Inr Let_def length_full_blocks)

text \<open>Continuing from the last key of a whole number of blocks is hashing from the start.\<close>

lemma hash_body_continue:
  assumes bs: "0 < bs" and len: "length xs = k * nat bs" "0 < k" and algo: "algo \<noteq> Sha256_64"
    and dig: "\<And>x. length (sha256 P x) = 32"
    and h1: "hash_body P xs bs ph algo seed salt = Inr h1"
  shows "\<exists>h2. hash_body P ys bs (Some (last h1)) algo seed salt = Inr h2 \<and>
    hash_body P (xs @ ys) bs ph algo seed salt = Inr (h1 @ h2)"
proof (cases "algo = Ahash64")
  case True
  from h1 obtain es where es: "eff_seed P seed salt = Inr es" "length es = 32" "length (ahash_parent ph) = 8"
    and h: "h1 = map be8 (ahash_chain P es (from_be (ahash_parent ph)) (full_blocks bs xs))"
    unfolding True hash_body_ahash [OF bs] by (auto simp: result_Inr)
  have ne: "full_blocks bs xs \<noteq> []" using len bs by (simp add: full_blocks_def)
  let ?c = "ahash_chain P es (from_be (ahash_parent ph)) (full_blocks bs xs)"
  have cne: "?c \<noteq> []" using ne length_ahash_chain [of P es _ "full_blocks bs xs"] by (metis length_0_conv)
  then have "from_be (last h1) = last ?c" and l8: "length (last h1) = 8"
    unfolding h by (simp_all add: last_map from_be_be8)
  then show ?thesis
    unfolding True hash_body_ahash [OF bs] using es cne
    by (simp add: ahash_parent_def full_blocks_append [OF bs len(1)] ahash_chain_append h)
next
  case False
  with algo have a: "algo = Sha256" by (cases algo) auto
  from h1 obtain r where r: "sha_root P ph seed salt = Inr r" "length r = 32"
    and h: "h1 = sha256_chain P r (full_blocks bs xs)"
    unfolding hash_body_sha [OF bs False] by (auto simp: result_Inr a Let_def)
  have ne: "full_blocks bs xs \<noteq> []" using len bs by (simp add: full_blocks_def)
  then have hne: "h1 \<noteq> []" unfolding h by (metis length_0_conv length_sha256_chain)
  then have "last h1 \<in> range (sha256 P)" using sha256_chain_digest h by (metis last_in_set)
  then have l32: "length (last h1) = 32" using dig by auto
  with r hne show ?thesis
    unfolding hash_body_sha [OF bs False]
    by (simp add: sha_root_def full_blocks_append [OF bs len(1)] sha256_chain_append a Let_def h)
qed

lemma full_blocks_short: "length xs < nat bs \<Longrightarrow> full_blocks bs xs = []"
  by (simp add: full_blocks_def)

definition hashable :: "('m, 'l) any_context \<Rightarrow> int" where
  "hashable ctx = tb_len (tokens (ctx_base ctx)) - max 1 (pending_future_count (ctx_base ctx))"

abbreviation all_tokens :: "('m, 'l) any_context \<Rightarrow> int list" where
  "all_tokens ctx \<equiv> tokens_all (tokens (ctx_base ctx))"

lemma compute_block_hashes_eq:
  assumes bs: "0 < bs" and ovs: "context_overrides ctx = Inr ovs" "distinct (map token_idx ovs)"
    and k: "int (length hs) * bs \<le> hashable ctx"
  shows "compute_block_hashes P ctx hs bs algo seed =
    (if hashable ctx - int (length hs) * bs < bs then Inr []
     else hash_body P (ov_apply ovs (int (length hs) * bs)
            (drop (length hs * nat bs) (take (nat (hashable ctx)) (all_tokens ctx))))
          bs (if hs \<noteq> [] then Some (last hs) else None) algo seed (cache_salt (ctx_base ctx)))"
proof -
  let ?p = "int (length hs) * bs"
  have p: "0 \<le> ?p" "?p \<le> hashable ctx" "hashable ctx \<le> int (length (all_tokens ctx))"
    "nat ?p = length hs * nat bs"
    using k bs by (simp_all add: hashable_def tb_len_def nat_mult_distrib)
  then have sl: "py_slice (all_tokens ctx) ?p (hashable ctx) =
      drop (length hs * nat bs) (take (nat (hashable ctx)) (all_tokens ctx))"
    by (simp add: py_slice_nonneg drop_take nat_diff_distrib)
  have un: "unambiguous n q ovs" for n q
    using ovs(2) by (simp add: unambiguous_def distinct_map_filter)
  have "?p \<noteq> - 1" using p(1) by linarith
  then show ?thesis
    unfolding compute_block_hashes_def hashable_def [symmetric] Let_def
    using ovs(1) un by (simp add: sl hash_request_eq)
qed

lemma bind_r_id: "bind_r r (\<lambda>x. Inr x) = r"
  by (cases r) simp_all

lemma hash_body_full_prefix:
  assumes bs: "0 < bs" and h: "hash_body P (ov_apply ovs 0 A) bs None algo seed salt = Inr hs"
  shows "length hs * nat bs \<le> length A"
    and "hash_body P (ov_apply ovs 0 (take (length hs * nat bs) A)) bs None algo seed salt = Inr hs"
proof -
  let ?n = "nat bs" and ?k = "length hs"
  let ?X = "take (?k * ?n) A"
  have n: "0 < ?n" using bs by simp
  have k: "?k = length A div ?n" using hash_body_length [OF bs h] by simp
  then show kA: "?k * ?n \<le> length A" by simp
  then have lenX: "length ?X = ?k * ?n" by simp
  have "length A - ?k * ?n < ?n" using k n by (simp add: modulo_nat_def [symmetric])
  then have "full_blocks bs (ov_apply ovs 0 A) = full_blocks bs (ov_apply ovs 0 ?X)"
    using full_blocks_append [OF bs, of "ov_apply ovs 0 ?X" ?k "ov_apply ovs (int (length ?X)) (drop (?k * ?n) A)"]
      ov_apply_append [of ovs 0 ?X "drop (?k * ?n) A"] lenX
    by (simp add: full_blocks_short)
  then show "hash_body P (ov_apply ovs 0 ?X) bs None algo seed salt = Inr hs"
    using hash_body_blocks [OF bs] h by metis
qed

lemma incremental_hashes:
  assumes bs: "0 < bs" and algo: "algo \<noteq> Sha256_64" and dig: "\<And>x. length (sha256 P x) = 32"
    and ovs: "context_overrides c1 = Inr ovs" "context_overrides c2 = Inr ovs" "distinct (map token_idx ovs)"
    and salt: "cache_salt (ctx_base c2) = cache_salt (ctx_base c1)"
    and h1: "compute_block_hashes P c1 [] bs algo seed = Inr h1"
    and pre: "take (length h1 * nat bs) (all_tokens c2) = take (length h1 * nat bs) (all_tokens c1)"
    and long: "int (length h1) * bs \<le> hashable c2" and h0: "0 \<le> hashable c1"
  shows "compute_block_hashes P c2 [] bs algo seed =
    bind_r (compute_block_hashes P c2 h1 bs algo seed) (\<lambda>h2. Inr (h1 @ h2))"
proof (cases "h1 = []")
  case True
  then show ?thesis by (simp add: bind_r_id)
next
  case False
  let ?n = "nat bs" and ?k = "length h1" and ?salt = "cache_salt (ctx_base c1)"
  define A1 where "A1 = take (nat (hashable c1)) (all_tokens c1)"
  define A2 where "A2 = take (nat (hashable c2)) (all_tokens c2)"
  define X Y where "X = take (?k * ?n) A2" and "Y = drop (?k * ?n) A2"
  have n: "0 < ?n" using bs by simp
  have hb1: "hash_body P (ov_apply ovs 0 A1) bs None algo seed ?salt = Inr h1"
    using compute_block_hashes_eq [OF bs ovs(1,3), of "[]" P algo seed] h1 h0 False
    by (simp add: A1_def split: if_splits)
  have hl: "hashable c \<le> int (length (all_tokens c))" for c :: "('c, 'd) any_context"
    by (simp add: hashable_def tb_len_def)
  have "int ?k * bs = int (?k * ?n)" using bs by simp
  then have kn: "?k * ?n \<le> nat (hashable c2)" using long by linarith
  have kA: "?k * ?n \<le> length A1" by (rule hash_body_full_prefix(1) [OF bs hb1])
  then have "?k * ?n \<le> nat (hashable c1)" by (simp add: A1_def)
  with kn have X1: "X = take (?k * ?n) A1"
    using pre by (simp add: X_def A1_def A2_def min_def take_take)
  have lenX: "length X = ?k * ?n" using kA by (simp add: X1)
  have hbX: "hash_body P (ov_apply ovs 0 X) bs None algo seed ?salt = Inr h1"
    unfolding X1 by (rule hash_body_full_prefix(2) [OF bs hb1])
  have kpos: "0 < ?k" using False by simp
  have oX: "length (ov_apply ovs 0 X) = ?k * ?n" using lenX by simp
  have Y: "ov_apply ovs 0 A2 = ov_apply ovs 0 X @ ov_apply ovs (int ?k * bs) Y"
    using ov_apply_append [of ovs 0 X Y] lenX bs by (simp add: X_def Y_def)
  obtain h2 where h2: "hash_body P (ov_apply ovs (int ?k * bs) Y) bs (Some (last h1)) algo seed ?salt = Inr h2"
    "hash_body P (ov_apply ovs 0 A2) bs None algo seed ?salt = Inr (h1 @ h2)"
    using hash_body_continue [OF bs oX kpos algo dig hbX] unfolding Y by blast
  have "1 \<le> int ?k" using kpos by linarith
  then have "bs \<le> int ?k * bs" using mult_right_mono [of 1 "int ?k" bs] bs by simp
  then have big: "\<not> hashable c2 < bs" using long by linarith
  have scratch: "compute_block_hashes P c2 [] bs algo seed = Inr (h1 @ h2)"
    using compute_block_hashes_eq [OF bs ovs(2,3), of "[]" P algo seed] big h2(2) bs
    by (simp add: salt A2_def)
  have inc: "compute_block_hashes P c2 h1 bs algo seed = Inr h2"
  proof (cases "hashable c2 - int ?k * bs < bs")
    case True
    have "int (length Y) < bs"
      using True hl [of c2] kn bs long by (auto simp: Y_def A2_def min_def of_nat_diff)
    then have "length Y < ?n" by linarith
    then have "length h2 = 0" using hash_body_length [OF bs h2(1)] by simp
    with True show ?thesis using compute_block_hashes_eq [OF bs ovs(2,3) long, of P algo seed] by simp
  next
    case False
    then show ?thesis
      using compute_block_hashes_eq [OF bs ovs(2,3) long, of P algo seed] h2(1) \<open>h1 \<noteq> []\<close>
      by (simp add: salt Y_def A2_def)
  qed
  show ?thesis unfolding scratch inc by simp
qed

text \<open>The hashers see tokens only through their low 32 bits.\<close>

definition int32_bytes :: "32 word list \<Rightarrow> bytes" where
  "int32_bytes ws = concat (map le4 ws)"

lemma block_bytes:
  "map token_bytes (full_blocks bs ts) =
   map (\<lambda>i. int32_bytes (take (nat bs) (drop (i * nat bs) (map to_int32 ts))))
     [0..<length (map to_int32 ts) div nat bs]"
  by (simp add: full_blocks_def token_bytes_def int32_bytes_def take_map drop_map comp_def)

lemma ahash_chain_bytes:
  "map token_bytes xs = map token_bytes ys \<Longrightarrow> ahash_chain P seed prev xs = ahash_chain P seed prev ys"
  by (induction xs ys arbitrary: prev rule: list_induct2') (simp_all add: Let_def)

lemma sha256_chain_bytes:
  "map token_bytes xs = map token_bytes ys \<Longrightarrow> sha256_chain P prev xs = sha256_chain P prev ys"
  by (induction xs ys arbitrary: prev rule: list_induct2') (simp_all add: Let_def)

lemma hash_body_int32:
  assumes "map to_int32 ts = map to_int32 ts'"
  shows "hash_body P ts bs ph algo seed salt = hash_body P ts' bs ph algo seed salt"
proof -
  have bytes: "map token_bytes (full_blocks b ts) = map token_bytes (full_blocks b ts')" for b
    unfolding block_bytes assms ..
  note chains = ahash_chain_bytes [OF bytes] sha256_chain_bytes [OF bytes]
  have "block_hasher P ts = block_hasher P ts'" "block_hasher_sha256 P ts = block_hasher_sha256 P ts'"
    by (intro ext; simp add: block_hasher_def block_hasher_sha256_def chains)+
  moreover have "length ts = length ts'" using assms by (metis length_map)
  ultimately show ?thesis unfolding hash_body_def Let_def by simp
qed

section \<open>Properties\<close>


definition toy_prims :: hash_prims where
  "toy_prims = \<lparr>hash_seeded_bytes = (\<lambda>bs seed. of_nat (length bs)),
     hash_seeded_pair = (\<lambda>(a, b) seed. 31 * a + b + 1), sha256 = (\<lambda>bs. replicate 32 (of_nat (length bs)))\<rparr>"

definition ctx_of_tokens :: "int list \<Rightarrow> (unit, unit) any_context" where
  "ctx_of_tokens ts = TextCtx (TextContext_default 1 100 (example_buffer\<lparr>array := ts,
     processing_range := \<lparr>r_start = 0, r_end = int (length ts)\<rparr>, prompt_length := int (length ts),
     current_length := int (length ts)\<rparr>))"

lemma ctx_of_tokens_views:
  "all_tokens (ctx_of_tokens ts) = ts" "hashable (ctx_of_tokens ts) = int (length ts) - 1"
  "context_overrides (ctx_of_tokens ts) = Inr []" "cache_salt (ctx_base (ctx_of_tokens ts)) = None"
  by (simp_all add: ctx_of_tokens_def TextContext_default_def tokens_all_def py_slice_nonneg hashable_def tb_len_def)

lemma toy_digest: "length (sha256 toy_prims x) = 32"
  by (simp add: toy_prims_def)

lemma ov_apply_Nil: "ov_apply [] p ts = ts"
  by (rule nth_equalityI) (simp_all add: nth_ov_apply ov_map_def)

lemma toy_hashes:
  assumes "0 < bs" and "bs < int (length ts)" and "algo = Ahash64 \<or> algo = Sha256_64"
  shows "\<exists>h. compute_block_hashes toy_prims (ctx_of_tokens ts) [] bs algo None = Inr h"
proof -
  have "ts \<noteq> []" using assms by auto
  then show ?thesis
    using assms compute_block_hashes_eq [of bs "ctx_of_tokens ts" "[]" "[]" toy_prims algo None]
    by (auto simp: ctx_of_tokens_views ov_apply_Nil hash_body_ahash hash_body_sha eff_seed_def
        ahash_parent_def DEFAULT_PARENT_HASH_def ZERO_SEED_def sha_root_def make_root_parent_hash_def Let_def)
qed

lemma toy_hash_count:
  assumes "0 < bs" and "bs < int (length ts)"
    and "compute_block_hashes toy_prims (ctx_of_tokens ts) [] bs algo None = Inr h"
  shows "length h = (length ts - 1) div nat bs"
proof -
  have "ts \<noteq> []" using assms by auto
  then show ?thesis
    using assms compute_block_hashes_eq [of bs "ctx_of_tokens ts" "[]" "[]" toy_prims algo None]
      hash_body_length [OF assms(1), of toy_prims "take (nat (int (length ts) - 1)) ts" None algo None None h]
    by (simp add: ctx_of_tokens_views ov_apply_Nil nat_diff_distrib')
qed


text \<open>
  C39. Hashing leaves the caller's token array unchanged, whether it returns or raises, although
  it writes media hashes into it in between.
\<close>
theorem hashing_restores_tokens:
  "snd (hash_request_tokens P ts block_size parent_hash prefix_length ovs algo seed salt) = ts"
proof (cases "ovs = [] \<or> prefix_length \<noteq> - 1")
  case True
  then show ?thesis by (simp add: hash_request_eq)
next
  case False
  then show ?thesis by (simp add: hash_request_tokens_def)
qed

text \<open>
  With \<open>sha256_64\<close> the keys are 8 bytes long but chaining requires a 32-byte parent: once a
  request has keys, computing the keys of its next full block always raises.
\<close>
theorem sha256_64_cannot_continue:
  assumes "0 < bs" and "\<And>x. length (sha256 P x) = 32"
    and "context_overrides c1 = Inr ovs" and "context_overrides c2 = Inr ovs" and "distinct (map token_idx ovs)"
    and "compute_block_hashes P c1 [] bs Sha256_64 seed = Inr h1" and "h1 \<noteq> []" and "0 \<le> hashable c1"
    and "(int (length h1) + 1) * bs \<le> hashable c2"
  shows "compute_block_hashes P c2 h1 bs Sha256_64 seed = Inl ValueError"
proof -
  have "hash_body P (ov_apply ovs 0 (take (nat (hashable c1)) (all_tokens c1))) bs None Sha256_64 seed
      (cache_salt (ctx_base c1)) = Inr h1"
    using compute_block_hashes_eq [OF assms(1,3,5), of "[]" P Sha256_64 seed] assms(6-8)
    by (simp split: if_splits)
  then obtain ds where "h1 = map (take 8) ds"
    using assms(1) by (auto simp: hash_body_sha result_Inr Let_def)
  with assms(7) have l: "length (last h1) \<noteq> 32" by (simp add: last_map)
  have "int (length h1) * bs \<le> hashable c2" "\<not> hashable c2 - int (length h1) * bs < bs"
    using assms(1,9) by (simp_all add: distrib_right)
  then show ?thesis
    using compute_block_hashes_eq [OF assms(1,4,5), of h1 P Sha256_64 seed] assms(1,7) l
    by (simp add: hash_body_sha sha_root_def)
qed

theorem sha256_64_cannot_continue_witness:
  "\<exists>h1. compute_block_hashes toy_prims (ctx_of_tokens [1, 2, 3]) [] 2 Sha256_64 None = Inr h1 \<and>
     compute_block_hashes toy_prims (ctx_of_tokens [1, 2, 3, 4, 5]) h1 2 Sha256_64 None = Inl ValueError"
proof -
  let ?c1 = "ctx_of_tokens [1, 2, 3]" and ?c2 = "ctx_of_tokens [1, 2, 3, 4, 5]"
  obtain h where run: "compute_block_hashes toy_prims ?c1 [] 2 Sha256_64 None = Inr h"
    using toy_hashes [of 2 "[1, 2, 3]" Sha256_64] by auto
  have len: "length h = 1" using toy_hash_count [OF _ _ run] by simp
  then have ne: "h \<noteq> []" by auto
  have "compute_block_hashes toy_prims ?c2 h 2 Sha256_64 None = Inl ValueError"
    by (rule sha256_64_cannot_continue [OF _ toy_digest ctx_of_tokens_views(3,3) _ run ne])
      (simp_all add: len ctx_of_tokens_views)
  with run show ?thesis by blast
qed

text \<open>
  Only the low 32 bits of a media content hash enter the key, whichever algorithm is
  configured: two overrides that differ by a multiple of \<open>2 ^ 32\<close> give the same keys.
\<close>
theorem media_hash_truncated:
  "fst (hash_request_tokens P ts block_size parent_hash p [\<lparr>token_idx = i, token_hash = h\<rparr>] algo seed salt) =
   fst (hash_request_tokens P ts block_size parent_hash p
     [\<lparr>token_idx = i, token_hash = h + m * 2 ^ 32\<rparr>] algo seed salt)"
proof (cases "p = - 1")
  case True
  then show ?thesis by (simp add: hash_request_tokens_def)
next
  case False
  let ?f = "\<lambda>h. ov_apply [\<lparr>token_idx = i, token_hash = h\<rparr>] p ts"
  have w: "to_int32 (h + m * 2 ^ 32) = to_int32 h"
    unfolding to_int32_def word_of_int_eq_iff by (simp add: take_bit_eq_mod)
  have "map to_int32 (?f h) = map to_int32 (?f (h + m * 2 ^ 32))"
    using w by (auto simp: ov_apply_def ov_map_def)
  from hash_body_int32 [OF this] False show ?thesis
    by (simp add: hash_request_eq unambiguous_def)
qed

end
