(* ===== verification/KV_Connector.thy ===== *)
theory KV_Connector
  imports Block_Pool
begin

text \<open>
  The connector protocol to external cache tiers, \<open>max/pipelines/kv_cache/kv_connector.py\<close>,
  and the connector used when no tier is configured,
  \<open>max/pipelines/kv_cache/connectors/null_connector.py\<close>.

  A connector is a value of \<open>kv_connector\<close>: the operations of the protocol over a state of its
  own. The handle of an asynchronous transfer is a number whose completion the connector
  decides from its state; a \<open>CompletedTransfer\<close> is complete at once. What the
  protocol promises of \<open>load\<close> is the locale \<open>connector_protocol\<close>. Barriers, shutdown and
  metrics of the protocol have no effect on the block accounting and are left out.
\<close>

section \<open>Transfers and connectors\<close>

datatype transfer_direction = LOAD | OFFLOAD

datatype transfer =
    CompletedTransfer transfer_direction "bid list"
  | AsyncTransfer transfer_direction "bid list" nat

fun g0_blocks :: "transfer \<Rightarrow> bid list" where
  "g0_blocks (CompletedTransfer _ bs) = bs"
| "g0_blocks (AsyncTransfer _ bs _) = bs"

fun direction :: "transfer \<Rightarrow> transfer_direction" where
  "direction (CompletedTransfer d _) = d"
| "direction (AsyncTransfer d _ _) = d"

record 'k kv_connector =
  conn_name :: string
  conn_load :: "bid list \<Rightarrow> bytes list \<Rightarrow> nat \<Rightarrow> 'k \<Rightarrow> transfer \<times> 'k"
  conn_offload :: "bid list \<Rightarrow> bytes list \<Rightarrow> nat \<Rightarrow> 'k \<Rightarrow> transfer \<times> 'k"
  conn_touch :: "bytes list \<Rightarrow> nat \<Rightarrow> 'k \<Rightarrow> 'k"
  conn_count_cached_prefix :: "bytes list \<Rightarrow> 'k \<Rightarrow> int \<times> int"
  conn_landed :: "nat \<Rightarrow> 'k \<Rightarrow> bool"
  conn_reset_prefix_cache :: "'k \<Rightarrow> 'k"

fun is_complete :: "'k kv_connector \<Rightarrow> 'k \<Rightarrow> transfer \<Rightarrow> bool" where
  "is_complete C k (CompletedTransfer _ _) = True"
| "is_complete C k (AsyncTransfer _ _ i) = conn_landed C i k"

text \<open>A snapshot of a pool's occupancy.\<close>

record block_count =
  bc_free :: int
  bc_total :: int

definition bc_used :: "block_count \<Rightarrow> int" where
  "bc_used c = bc_total c - bc_free c"

definition NullConnector :: "unit kv_connector" where
  "NullConnector =
     \<lparr>conn_name = ''NullConnector'',
      conn_load = (\<lambda>_ _ _ k. (CompletedTransfer LOAD [], k)),
      conn_offload = (\<lambda>_ _ _ k. (CompletedTransfer OFFLOAD [], k)),
      conn_touch = (\<lambda>_ _ k. k),
      conn_count_cached_prefix = (\<lambda>_ _. (0, 0)),
      conn_landed = (\<lambda>_ _. True),
      conn_reset_prefix_cache = (\<lambda>k. k)\<rparr>"

section \<open>The protocol\<close>

text \<open>
  \<open>load\<close> reports the device blocks it fills, a prefix of the ones it was given; \<open>offload\<close>
  reports sources among the ones it was given.
\<close>

locale connector_protocol =
  fixes C :: "'k kv_connector"
  assumes load_prefix: "\<exists>n. g0_blocks (fst (conn_load C ids hs r k)) = take n ids"
    and load_direction: "direction (fst (conn_load C ids hs r k)) = LOAD"
    and offload_sources: "set (g0_blocks (fst (conn_offload C ids hs r k))) \<subseteq> set ids"
begin

text \<open>The manager trims its staging blocks by count; what remains is what was loaded.\<close>

lemma loaded_blocks:
  "take (length (g0_blocks (fst (conn_load C ids hs r k)))) ids = g0_blocks (fst (conn_load C ids hs r k))"
proof -
  obtain n where "g0_blocks (fst (conn_load C ids hs r k)) = take n ids"
    using load_prefix [of ids hs r k] by blast
  then show ?thesis by (simp add: min_def)
qed

end

interpretation null: connector_protocol NullConnector
  by unfold_locales (simp_all add: NullConnector_def)

end
