(* ===== verification/Pool_References.thy ===== *)
theory Pool_References
  imports KV_Connector "HOL-Library.Multiset"
begin

text \<open>
  What the block manager relies on when it uses a block pool: the pool counts references, so the
  blocks its client holds form a multiset and every call adds or removes one reference. The
  locale \<open>ref_counted\<close> states this contract, its loops (allocating several blocks, freeing or
  pinning a list of them) are proved once from it, and the pool of \<open>Block_Pool\<close> interprets it.
\<close>

section \<open>The contract\<close>

fun alloc_many :: "('p \<Rightarrow> (bid \<times> 'p) result) \<Rightarrow> nat \<Rightarrow> 'p \<Rightarrow> (bid list \<times> 'p) result" where
  "alloc_many alloc 0 p = Inr ([], p)"
| "alloc_many alloc (Suc n) p =
     bind_r (alloc p) (\<lambda>(b, p). bind_r (alloc_many alloc n p) (\<lambda>(bs, p). Inr (b # bs, p)))"

locale ref_counted =
  fixes tracks :: "'p \<Rightarrow> bid multiset \<Rightarrow> bool"
    and free_ids :: "'p \<Rightarrow> bid list"
    and size_of :: "'p \<Rightarrow> nat"
    and alloc :: "'p \<Rightarrow> (bid \<times> 'p) result"
    and free :: "bid \<Rightarrow> 'p \<Rightarrow> 'p result"
    and pin :: "bid \<Rightarrow> 'p \<Rightarrow> 'p result"
  assumes alloc_first: "tracks p H \<Longrightarrow> free_ids p = b # bs \<Longrightarrow>
      \<exists>p'. alloc p = Inr (b, p') \<and> tracks p' (add_mset b H) \<and> free_ids p' = bs \<and> size_of p' = size_of p"
    and alloc_none: "tracks p H \<Longrightarrow> free_ids p = [] \<Longrightarrow> alloc p = Inl ValueError"
    and free_held: "tracks p H \<Longrightarrow> b \<in># H \<Longrightarrow>
      \<exists>p'. free b p = Inr p' \<and> tracks p' (H - {#b#}) \<and> size_of p' = size_of p"
    and pin_adds: "tracks p H \<Longrightarrow> b < size_of p \<Longrightarrow>
      \<exists>p'. pin b p = Inr p' \<and> tracks p' (add_mset b H) \<and> size_of p' = size_of p"
    and free_unheld: "tracks p H \<Longrightarrow> set (free_ids p) = {b. b < size_of p \<and> b \<notin># H}"
    and free_distinct: "tracks p H \<Longrightarrow> distinct (free_ids p)"
begin

lemma alloc_returns:
  assumes "tracks p H" and "alloc p = Inr (b, p')"
  shows "\<exists>bs. free_ids p = b # bs \<and> tracks p' (add_mset b H) \<and> free_ids p' = bs \<and> size_of p' = size_of p"
proof (cases "free_ids p")
  case Nil
  with alloc_none assms show ?thesis by fastforce
next
  case (Cons c bs)
  with alloc_first [OF assms(1) Cons] assms(2) show ?thesis by auto
qed

lemma alloc_many_ok:
  assumes "tracks p H" and "n \<le> length (free_ids p)"
  shows "\<exists>p'. alloc_many alloc n p = Inr (take n (free_ids p), p') \<and>
    tracks p' (H + mset (take n (free_ids p))) \<and> free_ids p' = drop n (free_ids p) \<and> size_of p' = size_of p"
  using assms
proof (induction n arbitrary: p H)
  case (Suc n)
  then obtain b bs where fr: "free_ids p = b # bs" by (cases "free_ids p") auto
  obtain p1 where p1: "alloc p = Inr (b, p1)" "tracks p1 (add_mset b H)" "free_ids p1 = bs"
    "size_of p1 = size_of p"
    using alloc_first [OF Suc.prems(1) fr] by blast
  obtain p2 where "alloc_many alloc n p1 = Inr (take n bs, p2)"
    "tracks p2 (add_mset b H + mset (take n bs))" "free_ids p2 = drop n bs" "size_of p2 = size_of p1"
    using Suc.IH [OF p1(2)] Suc.prems(2) fr p1(3) by auto
  with p1 fr show ?case by auto
qed simp

lemma alloc_many_returns:
  assumes "tracks p H" and "alloc_many alloc n p = Inr (bs, p')"
  shows "n \<le> length (free_ids p) \<and> bs = take n (free_ids p) \<and> tracks p' (H + mset bs) \<and>
    free_ids p' = drop n (free_ids p) \<and> size_of p' = size_of p"
  using assms
proof (induction n arbitrary: p H bs)
  case (Suc n)
  from Suc.prems(2) obtain b p1 cs where s: "alloc p = Inr (b, p1)" "alloc_many alloc n p1 = Inr (cs, p')"
    "bs = b # cs" by (auto simp: bind_r_eq_Inr)
  obtain ds where ds: "free_ids p = b # ds" "tracks p1 (add_mset b H)" "free_ids p1 = ds" "size_of p1 = size_of p"
    using alloc_returns [OF Suc.prems(1) s(1)] by blast
  from Suc.IH [OF ds(2) s(2)] ds s(3) show ?case by auto
qed simp

lemma free_all_ok:
  assumes "tracks p H" and "mset bs \<subseteq># H"
  shows "\<exists>p'. fold_r (\<lambda>p b. free b p) p bs = Inr p' \<and> tracks p' (H - mset bs) \<and> size_of p' = size_of p"
  using assms
proof (induction bs arbitrary: p H)
  case (Cons b bs)
  then have b: "b \<in># H" "mset bs \<subseteq># H - {#b#}"
    by (auto simp: insert_subset_eq_iff)
  obtain p1 where p1: "free b p = Inr p1" "tracks p1 (H - {#b#})" "size_of p1 = size_of p"
    using free_held [OF Cons.prems(1) b(1)] by blast
  from Cons.IH [OF p1(2) b(2)] p1 show ?case by auto
qed simp

lemma pin_all_ok:
  assumes "tracks p H" and "set bs \<subseteq> {..<size_of p}"
  shows "\<exists>p'. fold_r (\<lambda>p b. pin b p) p bs = Inr p' \<and> tracks p' (H + mset bs) \<and> size_of p' = size_of p"
  using assms
proof (induction bs arbitrary: p H)
  case (Cons b bs)
  then obtain p1 where p1: "pin b p = Inr p1" "tracks p1 (add_mset b H)" "size_of p1 = size_of p"
    using pin_adds [of p H b] by auto
  from Cons.IH [OF p1(2)] Cons.prems(2) p1 show ?case by auto
qed simp

text \<open>Free and distinct held blocks always add up to the size of the pool.\<close>

lemma free_plus_held:
  assumes "tracks p H"
  shows "length (free_ids p) + card (set_mset H \<inter> {..<size_of p}) = size_of p"
proof -
  have "length (free_ids p) = card {b. b < size_of p \<and> b \<notin># H}"
    using distinct_card [OF free_distinct [OF assms]] free_unheld [OF assms] by simp
  moreover have "card {b. b < size_of p \<and> b \<notin># H} + card (set_mset H \<inter> {..<size_of p}) =
      card ({b. b < size_of p \<and> b \<notin># H} \<union> (set_mset H \<inter> {..<size_of p}))"
    by (rule card_Un_disjoint [symmetric]) auto
  moreover have "{b. b < size_of p \<and> b \<notin># H} \<union> (set_mset H \<inter> {..<size_of p}) = {..<size_of p}" by auto
  ultimately show ?thesis by simp
qed

end

section \<open>The block pool fulfils it\<close>

text \<open>
  The holders of a block may include the null block, which is not counted.
\<close>

definition pool_tracks :: "block_pool \<Rightarrow> bid multiset \<Rightarrow> bool" where
  "pool_tracks p H \<longleftrightarrow> pool_inv p \<and> set_mset H \<subseteq> {..total_num_blocks p} \<and>
     (\<forall>b < total_num_blocks p. ref_cnt (blocks p b) = int (count H b))"

definition alloc_id :: "block_pool \<Rightarrow> (bid \<times> block_pool) result" where
  "alloc_id p = bind_r (alloc_block p) (\<lambda>((b, _), p). Inr (b, p))"

lemma tracks_inv: "pool_tracks p H \<Longrightarrow> pool_inv p"
  by (simp add: pool_tracks_def)

lemma tracks_update:
  assumes "pool_tracks p H" and "pool_inv p'" and "pool_frame p p'"
    and "set_mset H' \<subseteq> {..total_num_blocks p}"
    and "\<And>b. b < total_num_blocks p \<Longrightarrow>
      ref_cnt (blocks p' b) = ref_cnt (blocks p b) + int (count H' b) - int (count H b)"
  shows "pool_tracks p' H'"
  using assms by (simp add: pool_tracks_def pool_frame_def)

lemma tracks_ref:
  "pool_tracks p H \<Longrightarrow> b \<in># H \<Longrightarrow> b < total_num_blocks p \<Longrightarrow> 0 < ref_cnt (blocks p b)"
  by (simp add: pool_tracks_def)

lemma tracks_bound: "pool_tracks p H \<Longrightarrow> b \<in># H \<Longrightarrow> b \<le> total_num_blocks p"
  by (auto simp: pool_tracks_def)

interpretation refs: ref_counted pool_tracks free_list total_num_blocks alloc_id free_block touch
proof (unfold_locales, goal_cases)
  case (1 p H b bs)
  obtain p' where p': "alloc_block p = Inr ((b, block_hash (blocks p b)), p')" "pool_inv p'" "free_list p' = bs"
    "pool_frame p p'" "blocks p' = (blocks p)(b := \<lparr>ref_cnt = 1, block_hash = None, is_null = False\<rparr>)"
    using alloc_block_ok [OF tracks_inv [OF 1(1)] 1(2)] by blast
  have b: "b < total_num_blocks p" "ref_cnt (blocks p b) = 0"
    using pool_invD(2) [OF tracks_inv [OF 1(1)]] 1(2) by auto
  have "pool_tracks p' (add_mset b H)"
    by (rule tracks_update [OF 1(1) p'(2,4)]) (use 1(1) b p'(5) in \<open>auto simp: pool_tracks_def\<close>)
  with p' show ?case by (auto simp: alloc_id_def pool_frame_def)
next
  case (2 p H)
  then show ?case using alloc_block_empty [of p] by (simp add: alloc_id_def pool_tracks_def)
next
  case (3 p H b)
  show ?case
  proof (cases "b = total_num_blocks p")
    case True
    then have "free_block b p = Inr p" using free_block_null [of p] pool_inv_null [of p] 3(1)
      by (simp add: pool_tracks_def)
    moreover have "pool_tracks p (H - {#b#})"
      by (rule tracks_update [OF 3(1) tracks_inv [OF 3(1)]])
        (use 3(1) True in \<open>auto simp: pool_tracks_def dest: in_diffD\<close>)
    ultimately show ?thesis by simp
  next
    case False
    with tracks_bound [OF 3] have b: "b < total_num_blocks p" by simp
    obtain p' where p': "free_block b p = Inr p'" "pool_inv p'" "pool_frame p p'"
      "blocks p' = (blocks p)(b := (blocks p b)\<lparr>ref_cnt := ref_cnt (blocks p b) - 1\<rparr>)"
      using free_block_ok [OF tracks_inv [OF 3(1)] b tracks_ref [OF 3 b]] by blast
    have "pool_tracks p' (H - {#b#})"
      by (rule tracks_update [OF 3(1) p'(2,3)])
        (use 3 p'(4) in \<open>auto simp: pool_tracks_def of_nat_diff dest: in_diffD\<close>)
    with p' show ?thesis by (auto simp: pool_frame_def)
  qed
next
  case (4 p H b)
  obtain p' where p': "touch b p = Inr p'" "pool_inv p'" "pool_frame p p'"
    "blocks p' = (blocks p)(b := (blocks p b)\<lparr>ref_cnt := ref_cnt (blocks p b) + 1\<rparr>)"
    using touch_ok [OF tracks_inv [OF 4(1)] 4(2)] by blast
  have "pool_tracks p' (add_mset b H)"
    by (rule tracks_update [OF 4(1) p'(2,3)]) (use 4 p'(4) in \<open>auto simp: pool_tracks_def\<close>)
  with p' show ?case by (auto simp: pool_frame_def)
next
  case (5 p H)
  then show ?case
    using pool_invD(2) [of p] by (auto simp: pool_tracks_def count_eq_zero_iff)
next
  case (6 p H)
  then show ?case using fq.inv_distinct [OF pool_invD(1)] by (simp add: pool_tracks_def)
qed

text \<open>Commits move no reference, except that a duplicate is exchanged for the cached block.\<close>

lemma tracks_commit:
  assumes "pool_tracks p H" and "b < total_num_blocks p" and "commit_into_prefix_cache h b p = Inr p'"
  shows "pool_tracks p' H" and "total_num_blocks p' = total_num_blocks p"
    and "blocks p' = (blocks p)(b := (blocks p b)\<lparr>block_hash := Some h\<rparr>)"
    and "map_of (prefix_cache p') = (map_of (prefix_cache p))(h \<mapsto> b)"
proof -
  obtain q where q: "commit_into_prefix_cache h b p = Inr q" "pool_inv q" "pool_frame p q"
    "blocks q = (blocks p)(b := (blocks p b)\<lparr>block_hash := Some h\<rparr>)"
    "prefix_cache q = AList.update h b (prefix_cache p)"
    using commit_ok [OF tracks_inv [OF assms(1)] assms(2) commit_returns [OF assms(3)]] by blast
  then have [simp]: "p' = q" using assms(3) by simp
  show "pool_tracks p' H"
    by (rule tracks_update [OF assms(1)]) (use q assms(1) in \<open>auto simp: pool_tracks_def\<close>)
  show "total_num_blocks p' = total_num_blocks p" using q(3) by (simp add: pool_frame_def)
  show "blocks p' = (blocks p)(b := (blocks p b)\<lparr>block_hash := Some h\<rparr>)" using q(4) by simp
  show "map_of (prefix_cache p') = (map_of (prefix_cache p))(h \<mapsto> b)"
    using q(5) by (simp add: update_conv')
qed

lemma tracks_commit_null:
  "pool_tracks p H \<Longrightarrow> commit_into_prefix_cache h b p = Inr p' \<Longrightarrow> b \<noteq> total_num_blocks p"
  using pool_inv_null [of p] by (auto simp: pool_tracks_def commit_into_prefix_cache_def raise_if_eq_Inr)

text \<open>Touching and freeing leave hashes and the cache alone.\<close>

lemma tracks_touch:
  assumes "pool_tracks p H" and "b < total_num_blocks p" and "touch b p = Inr p'"
  shows "pool_tracks p' (add_mset b H)" and "total_num_blocks p' = total_num_blocks p"
    and "prefix_cache p' = prefix_cache p" and "block_hash (blocks p' c) = block_hash (blocks p c)"
proof -
  obtain q where q: "touch b p = Inr q" "pool_frame p q"
    "blocks q = (blocks p)(b := (blocks p b)\<lparr>ref_cnt := ref_cnt (blocks p b) + 1\<rparr>)" "prefix_cache q = prefix_cache p"
    using touch_ok [OF tracks_inv [OF assms(1)] assms(2)] by blast
  then have [simp]: "p' = q" using assms(3) by simp
  show "pool_tracks p' (add_mset b H)" using refs.pin_adds [OF assms(1,2)] q by auto
  show "total_num_blocks p' = total_num_blocks p" using q(2) by (simp add: pool_frame_def)
  show "prefix_cache p' = prefix_cache p" "block_hash (blocks p' c) = block_hash (blocks p c)"
    using q by simp_all
qed

lemma tracks_free:
  assumes "pool_tracks p H" and "b \<in># H" and "free_block b p = Inr p'"
  shows "pool_tracks p' (H - {#b#})" and "total_num_blocks p' = total_num_blocks p"
    and "prefix_cache p' = prefix_cache p" and "block_hash (blocks p' c) = block_hash (blocks p c)"
  using refs.free_held [OF assms(1,2)] assms(3)
  by (auto simp: free_block_def add_ref_def Let_def assert_r_def bind_r_eq_Inr split: if_splits)

lemma tracks_get_or_commit:
  assumes "pool_tracks p H" and "b \<in># H" and run: "get_or_commit_into_prefix_cache h b p = Inr (r, p')"
  defines "c \<equiv> case r of None \<Rightarrow> b | Some c \<Rightarrow> c"
  shows "pool_tracks p' (add_mset c (H - {#b#}))" and "total_num_blocks p' = total_num_blocks p"
    and "c < total_num_blocks p" and "map_of (prefix_cache p') = (map_of (prefix_cache p))(h \<mapsto> c)"
proof -
  have le: "b \<le> total_num_blocks p" by (rule tracks_bound [OF assms(1,2)])
  have "pool_tracks p' (add_mset c (H - {#b#})) \<and> total_num_blocks p' = total_num_blocks p \<and>
      c < total_num_blocks p \<and> map_of (prefix_cache p') = (map_of (prefix_cache p))(h \<mapsto> c)"
  proof (cases "map_of (prefix_cache p) h")
    case None
    with run have co: "commit_into_prefix_cache h b p = Inr p'" and r: "r = None"
      by (auto simp: get_or_commit_into_prefix_cache_def result_Inr)
    have "b < total_num_blocks p" using tracks_commit_null [OF assms(1) co] le by simp
    from tracks_commit [OF assms(1) this co] this r assms(2) show ?thesis by (simp add: c_def)
  next
    case (Some d)
    then have d: "d < total_num_blocks p" using pool_invD(6) [OF tracks_inv [OF assms(1)]] by blast
    show ?thesis
    proof (cases "b = d")
      case True
      with run Some assms(1,2) d show ?thesis
        by (auto simp: get_or_commit_into_prefix_cache_def c_def)
    next
      case False
      with run Some obtain p1 where p1: "touch d p = Inr p1" "free_block b p1 = Inr p'" and r: "r = Some d"
        by (auto simp: get_or_commit_into_prefix_cache_def result_Inr)
      note t = tracks_touch [OF assms(1) d p1(1)]
      have "b \<in># add_mset d H" using assms(2) by simp
      note f = tracks_free [OF t(1) this p1(2)]
      show ?thesis using t f r d Some False assms(2) by (auto simp: c_def)
    qed
  qed
  then show "pool_tracks p' (add_mset c (H - {#b#}))" and "total_num_blocks p' = total_num_blocks p"
    and "c < total_num_blocks p" and "map_of (prefix_cache p') = (map_of (prefix_cache p))(h \<mapsto> c)"
    by simp_all
qed

lemma tracks_reset:
  assumes "pool_tracks p H"
  shows "\<exists>p'. pool_reset_prefix_cache p = Inr p' \<and> pool_tracks p' H \<and> total_num_blocks p' = total_num_blocks p"
proof -
  obtain p' where p': "pool_reset_prefix_cache p = Inr p'" "pool_inv p'" "pool_frame p p'"
    "\<And>c. ref_cnt (blocks p' c) = ref_cnt (blocks p c)"
    using reset_ok [OF tracks_inv [OF assms]] by blast
  have "pool_tracks p' H"
    by (rule tracks_update [OF assms p'(2,3)]) (use p'(4) assms in \<open>auto simp: pool_tracks_def\<close>)
  with p' show ?thesis by (auto simp: pool_frame_def)
qed

end
