(* ===== verification/Block_Manager.thy ===== *)
theory Block_Manager
  imports Block_Hash Pool_References
begin

text \<open>
  The paged KV cache's block manager, \<open>max/pipelines/kv_cache/paged_kv_cache/block_manager.py\<close>:
  one block pool per data-parallel replica, the blocks, hashes and committed index of every
  request, the offload runs waiting for the connector and the transfers in flight.

  The hash primitives \<open>P\<close> and the connector \<open>C\<close> are parameters; the connector's state is a
  field of the manager. A replica index is a natural number, and indexing past the replicas
  raises \<open>IndexError\<close>. A lookup in a \<open>defaultdict\<close> is \<open>dget\<close>: the default it would also
  store is what every later lookup returns. Metrics and tracing are left out, and so is the
  device-to-device copy itself: page contents are not part of the model. The page size is
  positive, as in every configuration (the floor divisions would raise for 0).
\<close>

section \<open>State\<close>

definition dget :: "'v \<Rightarrow> ('k, 'v) dict \<Rightarrow> 'k \<Rightarrow> 'v" where
  "dget d m k = (case map_of m k of None \<Rightarrow> d | Some v \<Rightarrow> v)"

lemma dget_update [simp]: "dget d (AList.update k v m) j = (if j = k then v else dget d m j)"
  by (simp add: dget_def update_conv')

lemma dget_delete [simp]: "dget d (AList.delete k m) j = (if j = k then d else dget d m j)"
  by (simp add: dget_def delete_conv')

record pending_transfer =
  pt_event :: transfer
  pt_blocks :: "bid list"
  pt_commit_hashes :: "bytes list option"

record prefix_cache_hits =
  device_blocks :: int
  host_blocks :: int
  disk_blocks :: int

definition total_blocks :: "prefix_cache_hits \<Rightarrow> int" where
  "total_blocks h = device_blocks h + host_blocks h + disk_blocks h"

record 'k block_manager =
  bm_total_num_blocks :: nat
  block_size :: int
  num_replicas :: nat
  kv_hash_algo :: hash_algo
  kv_hash_seed :: "bytes option"
  enable_prefix_caching :: bool
  conn_state :: 'k
  cross_replica_copy_enabled :: bool
  pending_offloads :: "bytes list list list"
  pending_transfers :: "pending_transfer list list"
  device_block_pools :: "block_pool list"
  req_to_replica :: "(request_id, nat) dict"
  req_to_blocks :: "(request_id, bid list) dict"
  req_to_hashes :: "(request_id, bytes list) dict"
  req_to_committed_idx :: "(request_id, int) dict"
  bm_runtime_checks :: bool
  only_last_level_cache :: bool

definition BlockManager_init ::
  "nat \<Rightarrow> int \<Rightarrow> 'k \<Rightarrow> bool \<Rightarrow> bool \<Rightarrow> nat \<Rightarrow> hash_algo \<Rightarrow> bytes option \<Rightarrow> bool \<Rightarrow> bool \<Rightarrow> bool \<Rightarrow>
   'k block_manager result" where
  "BlockManager_init n bs k caching checks replicas algo seed has_memory copy_flag only_last =
     raise_if (replicas < 1) ValueError
     (Inr \<lparr>bm_total_num_blocks = n, block_size = bs, num_replicas = replicas,
        kv_hash_algo = algo, kv_hash_seed = seed, enable_prefix_caching = caching, conn_state = k,
        cross_replica_copy_enabled = (has_memory \<and> copy_flag),
        pending_offloads = replicate replicas [], pending_transfers = replicate replicas [],
        device_block_pools = replicate replicas (BlockPool_init n checks),
        req_to_replica = [], req_to_blocks = [], req_to_hashes = [], req_to_committed_idx = [],
        bm_runtime_checks = checks, only_last_level_cache = only_last\<rparr>)"

section \<open>Contexts and pools\<close>

abbreviation rid :: "('m, 'l) any_context \<Rightarrow> request_id" where
  "rid ctx \<equiv> ctx_request_id (ctx_base ctx)"

abbreviation ctx_tokens :: "('m, 'l) any_context \<Rightarrow> token_buffer" where
  "ctx_tokens ctx \<equiv> tokens (ctx_base ctx)"

fun set_tokens :: "token_buffer \<Rightarrow> ('m, 'l) any_context \<Rightarrow> ('m, 'l) any_context" where
  "set_tokens t (TextCtx c) = TextCtx (c\<lparr>tokens := t\<rparr>)"
| "set_tokens t (VisionCtx c) = VisionCtx (c\<lparr>tokens := t\<rparr>)"

fun set_cached_prefix :: "int \<Rightarrow> ('m, 'l) any_context \<Rightarrow> ('m, 'l) any_context" where
  "set_cached_prefix n (TextCtx c) = TextCtx (c\<lparr>cached_prefix_length := Some n\<rparr>)"
| "set_cached_prefix n (VisionCtx c) = VisionCtx (c\<lparr>cached_prefix_length := Some n\<rparr>)"

definition pool_at :: "nat \<Rightarrow> 'k block_manager \<Rightarrow> block_pool result" where
  "pool_at r m = raise_if (\<not> r < length (device_block_pools m)) IndexError (Inr (device_block_pools m ! r))"

definition set_pool :: "nat \<Rightarrow> block_pool \<Rightarrow> 'k block_manager \<Rightarrow> 'k block_manager" where
  "set_pool r p m = m\<lparr>device_block_pools := (device_block_pools m)[r := p]\<rparr>"

abbreviation blocks_of :: "'k block_manager \<Rightarrow> request_id \<Rightarrow> bid list" where
  "blocks_of m \<equiv> dget [] (req_to_blocks m)"

abbreviation hashes_of :: "'k block_manager \<Rightarrow> request_id \<Rightarrow> bytes list" where
  "hashes_of m \<equiv> dget [] (req_to_hashes m)"

abbreviation committed_of :: "'k block_manager \<Rightarrow> request_id \<Rightarrow> int" where
  "committed_of m \<equiv> dget 0 (req_to_committed_idx m)"

definition set_blocks :: "request_id \<Rightarrow> bid list \<Rightarrow> 'k block_manager \<Rightarrow> 'k block_manager" where
  "set_blocks i bs m = m\<lparr>req_to_blocks := AList.update i bs (req_to_blocks m)\<rparr>"

definition num_committed_blocks :: "'k block_manager \<Rightarrow> request_id \<Rightarrow> int" where
  "num_committed_blocks m i = committed_of m i div block_size m"

section \<open>Claiming and sizing\<close>

definition claim :: "('m, 'l) any_context \<Rightarrow> nat \<Rightarrow> 'k block_manager \<Rightarrow> 'k block_manager result" where
  "claim ctx replica_idx m =
     raise_if (map_of (req_to_replica m) (rid ctx) \<noteq> None) ValueError
       (Inr (m\<lparr>req_to_replica := AList.update (rid ctx) replica_idx (req_to_replica m)\<rparr>))"

definition replica_of :: "('m, 'l) any_context \<Rightarrow> 'k block_manager \<Rightarrow> nat result" where
  "replica_of ctx m =
     (case map_of (req_to_replica m) (rid ctx) of None \<Rightarrow> Inl ValueError | Some r \<Rightarrow> Inr r)"

definition compute_seq_len :: "('m, 'l) any_context \<Rightarrow> int \<Rightarrow> int \<Rightarrow> int option \<Rightarrow> int" where
  "compute_seq_len ctx num_draft_tokens num_draft_tokens_per_step max_num_input_tokens =
     (let c = ctx_base ctx;
          block_draft_extra =
            (if num_draft_tokens > 0 \<and> num_draft_tokens_per_step = num_draft_tokens then 1 else 0);
          active = (case max_num_input_tokens of None \<Rightarrow> active_length (tokens c)
                    | Some n \<Rightarrow> min (active_length (tokens c)) n)
      in processed_length (tokens c) + active
         + (int (length (maybe_accepted_draft_tokens (fst (get_spec_decoding_state c))))
            + 2 * num_draft_tokens + 1 + block_draft_extra - max 1 (pending_future_count c)))"

definition num_blocks_to_allocate :: "('m, 'l) any_context \<Rightarrow> int \<Rightarrow> int \<Rightarrow> 'k block_manager \<Rightarrow> int" where
  "num_blocks_to_allocate ctx num_draft_tokens num_draft_tokens_per_step m =
     (let num_current_blocks = int (length (blocks_of m (rid ctx)));
          current_seq_len = compute_seq_len ctx num_draft_tokens num_draft_tokens_per_step None;
          num_required_blocks = ceildiv current_seq_len (block_size m)
      in max (num_required_blocks - num_current_blocks) 0)"

definition allocate_device_block :: "nat \<Rightarrow> 'k block_manager \<Rightarrow> (bid \<times> 'k block_manager) result" where
  "allocate_device_block r m =
     bind_r (pool_at r m) (\<lambda>p. bind_r (alloc_id p) (\<lambda>(b, p). Inr (b, set_pool r p m)))"

text \<open>The loop that calls \<open>allocate_device_block\<close> \<open>n\<close> times on one replica.\<close>

definition allocate_device_blocks :: "nat \<Rightarrow> nat \<Rightarrow> 'k block_manager \<Rightarrow> (bid list \<times> 'k block_manager) result" where
  "allocate_device_blocks n r m =
     bind_r (pool_at r m) (\<lambda>p. bind_r (alloc_many alloc_id n p) (\<lambda>(bs, p). Inr (bs, set_pool r p m)))"

definition allocate_new_blocks ::
  "('m, 'l) any_context \<Rightarrow> int \<Rightarrow> int \<Rightarrow> 'k block_manager \<Rightarrow> 'k block_manager result" where
  "allocate_new_blocks ctx num_draft_tokens num_draft_tokens_per_step m =
     bind_r (replica_of ctx m) (\<lambda>r.
     bind_r (pool_at r m) (\<lambda>pool.
     let c = ctx_base ctx; i = rid ctx;
         spec = fst (get_spec_decoding_state c);
         total_kv_slots = int (bm_total_num_blocks m) * block_size m;
         seq_len = tb_len (tokens c) + int (length (draft_tokens_to_verify spec))
                   + int (length (maybe_accepted_draft_tokens spec))
     in raise_if (seq_len > total_kv_slots) InsufficientBlocksError
     (let num_new_blocks = num_blocks_to_allocate ctx num_draft_tokens num_draft_tokens_per_step m;
          current_blocks = blocks_of m i
      in assert_r (processed_length (tokens c) \<le> int (length current_blocks) * block_size m)
      (raise_if (num_new_blocks > pool_num_free_blocks pool) InsufficientBlocksError
      (bind_r (allocate_device_blocks (nat num_new_blocks) r m) (\<lambda>(new, m).
         Inr (set_blocks i (current_blocks @ new) m)))))))"

section \<open>Releasing\<close>

definition free_blocks_in_order :: "bid list \<Rightarrow> block_pool \<Rightarrow> block_pool result" where
  "free_blocks_in_order bs p = fold_r (\<lambda>p b. free_block b p) p bs"

definition release :: "('m, 'l) any_context \<Rightarrow> 'k block_manager \<Rightarrow> 'k block_manager result" where
  "release ctx m =
     (let i = rid ctx in
      bind_r (replica_of ctx m) (\<lambda>r.
      bind_r (pool_at r m) (\<lambda>pool.
      let blks = blocks_of m i;
          ordered_blocks = (if enable_prefix_caching m then rev blks else blks)
      in bind_r (free_blocks_in_order ordered_blocks pool) (\<lambda>pool.
         let m = set_pool r pool m
         in Inr (m\<lparr>req_to_blocks := AList.delete i (req_to_blocks m),
                  req_to_hashes := AList.delete i (req_to_hashes m),
                  req_to_replica := AList.delete i (req_to_replica m),
                  req_to_committed_idx := AList.delete i (req_to_committed_idx m)\<rparr>)))))"

definition shift_processing :: "int \<Rightarrow> token_buffer \<Rightarrow> token_buffer result" where
  "shift_processing delta t =
     (if delta > 0 then rewind_processing delta t
      else if delta < 0 then skip_processing (- delta) t
      else Inr t)"

definition release_uncommitted_blocks ::
  "('m, 'l) any_context \<Rightarrow> 'k block_manager \<Rightarrow> (('m, 'l) any_context \<times> 'k block_manager) result" where
  "release_uncommitted_blocks ctx m =
     (let i = rid ctx in
      bind_r (replica_of ctx m) (\<lambda>r.
      bind_r (pool_at r m) (\<lambda>pool.
      let req_blocks = blocks_of m i; n = num_committed_blocks m i
      in assert_r (int (length req_blocks) \<ge> n)
      (bind_r (free_blocks_in_order (rev (drop (nat n) req_blocks)) pool) (\<lambda>pool.
       let m = set_blocks i (take (nat n) req_blocks) (set_pool r pool m);
           delta = processed_length (ctx_tokens ctx) - committed_of m i
       in bind_r (shift_processing delta (ctx_tokens ctx)) (\<lambda>t.
          Inr (set_tokens t ctx, m)))))))"

definition register_dummy_request :: "('m, 'l) any_context \<Rightarrow> 'k block_manager \<Rightarrow> 'k block_manager result" where
  "register_dummy_request ctx m =
     assert_r (blocks_of m (rid ctx) = [])
     (bind_r (replica_of ctx m) (\<lambda>r. bind_r (pool_at r m) (\<lambda>pool.
        Inr (set_blocks (rid ctx) [null_block pool] m))))"

definition get_req_blocks :: "('m, 'l) any_context \<Rightarrow> 'k block_manager \<Rightarrow> bid list result" where
  "get_req_blocks ctx m = bind_r (replica_of ctx m) (\<lambda>_. Inr (blocks_of m (rid ctx)))"

section \<open>Transfers\<close>

definition track_transfer ::
  "transfer \<Rightarrow> bid list \<Rightarrow> nat \<Rightarrow> bytes list option \<Rightarrow> 'k block_manager \<Rightarrow> 'k block_manager result" where
  "track_transfer ev blks r commit_hashes m =
     (if blks = [] then Inr m
      else bind_r (pool_at r m) (\<lambda>pool.
        bind_r (fold_r (\<lambda>p b. touch b p) pool blks) (\<lambda>pool.
        let m = set_pool r pool m;
            pt = \<lparr>pt_event = ev, pt_blocks = blks, pt_commit_hashes = commit_hashes\<rparr>
        in Inr (m\<lparr>pending_transfers := (pending_transfers m)[r := pending_transfers m ! r @ [pt]]\<rparr>))))"

text \<open>The deferred commits of a landed onload.\<close>

definition commit_landed :: "block_pool \<Rightarrow> bid \<times> bytes \<Rightarrow> block_pool result" where
  "commit_landed p e =
     (let (b, h) = e in
      if block_hash (blocks p b) = None \<and> map_of (prefix_cache p) h = None
      then commit_into_prefix_cache h b p else Inr p)"

definition settle_transfer :: "pending_transfer \<Rightarrow> block_pool \<Rightarrow> block_pool result" where
  "settle_transfer pt p =
     bind_r (case pt_commit_hashes pt of
        None \<Rightarrow> Inr p
      | Some hs \<Rightarrow> raise_if (length (pt_blocks pt) \<noteq> length hs) ValueError
                    (fold_r commit_landed p (zip (pt_blocks pt) hs)))
     (\<lambda>p. free_blocks_in_order (pt_blocks pt) p)"

fun settle_transfers ::
  "(transfer \<Rightarrow> bool) \<Rightarrow> pending_transfer list \<Rightarrow> block_pool \<Rightarrow> (pending_transfer list \<times> block_pool) result" where
  "settle_transfers finished [] p = Inr ([], p)"
| "settle_transfers finished (pt # pts) p =
     (if \<not> finished (pt_event pt)
      then bind_r (settle_transfers finished pts p) (\<lambda>(still, p). Inr (pt # still, p))
      else bind_r (settle_transfer pt p) (\<lambda>p. settle_transfers finished pts p))"

definition poll_replica :: "'k kv_connector \<Rightarrow> 'k block_manager \<Rightarrow> nat \<Rightarrow> 'k block_manager result" where
  "poll_replica C m r =
     (if pending_transfers m ! r = [] then Inr m
      else bind_r (pool_at r m) (\<lambda>pool.
        bind_r (settle_transfers (is_complete C (conn_state m)) (pending_transfers m ! r) pool)
          (\<lambda>(still, pool).
            Inr ((set_pool r pool m)\<lparr>pending_transfers := (pending_transfers m)[r := still]\<rparr>))))"

definition poll_transfers :: "'k kv_connector \<Rightarrow> 'k block_manager \<Rightarrow> 'k block_manager result" where
  "poll_transfers C m = fold_r (poll_replica C) m [0..<length (pending_transfers m)]"

definition pending_transfers_exist :: "nat \<Rightarrow> 'k block_manager \<Rightarrow> bool result" where
  "pending_transfers_exist r m =
     raise_if (\<not> r < length (pending_transfers m)) IndexError (Inr (pending_transfers m ! r \<noteq> []))"

text \<open>One offload run: resolved to the blocks cached now and cut at the first evicted one.\<close>

definition offload_run ::
  "'k kv_connector \<Rightarrow> nat \<Rightarrow> 'k block_manager \<Rightarrow> bytes list \<Rightarrow> 'k block_manager result" where
  "offload_run C r m hashes =
     bind_r (pool_at r m) (\<lambda>pool.
     let resolve = map_of (prefix_cache pool);
         block_hashes = takeWhile (\<lambda>h. resolve h \<noteq> None) hashes;
         src_blocks = map (\<lambda>h. the (resolve h)) block_hashes
     in if block_hashes = [] then Inr m
        else
          let (ev, k) = conn_offload C src_blocks block_hashes r (conn_state m);
              m = m\<lparr>conn_state := k\<rparr>
          in if \<not> is_complete C k ev then track_transfer ev src_blocks r None m else Inr m)"

definition offload :: "'k kv_connector \<Rightarrow> nat \<Rightarrow> 'k block_manager \<Rightarrow> 'k block_manager result" where
  "offload C r m =
     bind_r (pool_at r m) (\<lambda>_.
     bind_r (fold_r (offload_run C r) m (pending_offloads m ! r)) (\<lambda>m.
       Inr (m\<lparr>pending_offloads := (pending_offloads m)[r := []]\<rparr>)))"

section \<open>Prefix-cache lookup\<close>

fun find_on_replicas :: "'k block_manager \<Rightarrow> bytes \<Rightarrow> nat \<Rightarrow> nat list \<Rightarrow> nat \<times> bid option" where
  "find_on_replicas m h preferred [] = (preferred, None)"
| "find_on_replicas m h preferred (r # rs) =
     (if r = preferred then find_on_replicas m h preferred rs
      else case map_of (prefix_cache (device_block_pools m ! r)) h of
          Some b \<Rightarrow> (r, Some b)
        | None \<Rightarrow> find_on_replicas m h preferred rs)"

definition find_block_in_any_replica :: "'k block_manager \<Rightarrow> bytes \<Rightarrow> nat \<Rightarrow> (nat \<times> bid option) result" where
  "find_block_in_any_replica m h preferred =
     bind_r (pool_at preferred m) (\<lambda>local_pool.
     case map_of (prefix_cache local_pool) h of
       Some b \<Rightarrow> Inr (preferred, Some b)
     | None \<Rightarrow> Inr (find_on_replicas m h preferred [0..<num_replicas m]))"

definition count_full_blocks_from_prefix_cache :: "bytes list \<Rightarrow> nat \<Rightarrow> 'k block_manager \<Rightarrow> int result" where
  "count_full_blocks_from_prefix_cache desired_hashes r m =
     bind_r (pool_at r m) (\<lambda>local_pool.
     fold_r (\<lambda>n h.
       bind_r (if cross_replica_copy_enabled m
               then bind_r (find_block_in_any_replica m h r) (\<lambda>(_, b). Inr b)
               else Inr (map_of (prefix_cache local_pool) h))
         (\<lambda>b. Inr (if b \<noteq> None then n + 1 else n))) 0 desired_hashes)"

type_synonym copies = "(nat, (bytes \<times> bid \<times> bid) list) dict"

text \<open>The lookup loop; it stops at the first hash it cannot serve.\<close>

fun device_hits ::
  "nat \<Rightarrow> bytes list \<Rightarrow> 'k block_manager \<Rightarrow> bid list \<Rightarrow> copies \<Rightarrow> ('k block_manager \<times> bid list \<times> copies) result" where
  "device_hits r [] m blks pending = Inr (m, blks, pending)"
| "device_hits r (h # hs) m blks pending =
     bind_r (pool_at r m) (\<lambda>local_pool.
     case map_of (prefix_cache local_pool) h of
       Some b \<Rightarrow> bind_r (touch b local_pool) (\<lambda>p. device_hits r hs (set_pool r p m) (blks @ [b]) pending)
     | None \<Rightarrow>
         if \<not> cross_replica_copy_enabled m then Inr (m, blks, pending)
         else bind_r (find_block_in_any_replica m h r) (\<lambda>(src_replica, src_block).
           case src_block of
             None \<Rightarrow> Inr (m, blks, pending)
           | Some src \<Rightarrow>
               if pool_num_free_blocks local_pool = 0 then Inr (m, blks, pending)
               else bind_r (allocate_device_block r m) (\<lambda>(dst, m).
                 device_hits r hs m (blks @ [dst])
                   (AList.update src_replica (dget [] pending src_replica @ [(h, dst, src)]) pending))))"

text \<open>The copies themselves are device transfers; afterwards the destinations are published.\<close>

definition publish_copies :: "copies \<Rightarrow> block_pool \<Rightarrow> block_pool result" where
  "publish_copies pending p =
     fold_r (\<lambda>p (h, dst, _). commit_into_prefix_cache h dst p) p (concat (map snd pending))"

definition get_full_blocks_from_device_prefix_cache ::
  "bytes list \<Rightarrow> nat \<Rightarrow> 'k block_manager \<Rightarrow> (bid list \<times> 'k block_manager) result" where
  "get_full_blocks_from_device_prefix_cache desired_hashes r m =
     (if only_last_level_cache m then Inr ([], m)
      else bind_r (device_hits r desired_hashes m [] []) (\<lambda>(m, blks, pending).
        bind_r (pool_at r m) (\<lambda>p. bind_r (publish_copies pending p) (\<lambda>p. Inr (blks, set_pool r p m)))))"

text \<open>Commits of a completed onload; a hash may already be cached only in the testing mode.\<close>

definition commit_loaded :: "bool \<Rightarrow> block_pool \<Rightarrow> bid \<times> bytes \<Rightarrow> block_pool result" where
  "commit_loaded only_last p e =
     (let (b, h) = e in
      if map_of (prefix_cache p) h \<noteq> None then assert_r only_last (Inr p)
      else commit_into_prefix_cache h b p)"

text \<open>What follows \<open>connector.load\<close>: surplus blocks go back, loaded ones are committed or tracked.\<close>

definition receive_load ::
  "'k kv_connector \<Rightarrow> nat \<Rightarrow> bid list \<Rightarrow> bytes list \<Rightarrow> transfer \<Rightarrow> 'k block_manager \<Rightarrow>
   ((bid list \<times> transfer) \<times> 'k block_manager) result" where
  "receive_load C r blks desired_hashes ev m =
     (let num_loaded = length (g0_blocks ev);
          loaded_blocks = take num_loaded blks;
          loaded_hashes = take num_loaded desired_hashes
      in bind_r (pool_at r m) (\<lambda>pool. bind_r (free_blocks_in_order (drop num_loaded blks) pool) (\<lambda>pool.
      let m = set_pool r pool m
      in if loaded_blocks = [] then Inr (([], CompletedTransfer LOAD []), m)
         else if is_complete C (conn_state m) ev then
           raise_if (length loaded_blocks \<noteq> length loaded_hashes) ValueError
           (bind_r (fold_r (commit_loaded (only_last_level_cache m)) pool (zip loaded_blocks loaded_hashes)) (\<lambda>pool.
              Inr ((loaded_blocks, ev), set_pool r pool m)))
         else
           bind_r (track_transfer ev loaded_blocks r (Some loaded_hashes) m) (\<lambda>m.
             Inr ((loaded_blocks, ev), m)))))"

definition get_full_blocks_from_host_prefix_cache ::
  "'k kv_connector \<Rightarrow> bytes list \<Rightarrow> nat \<Rightarrow> 'k block_manager \<Rightarrow> ((bid list \<times> transfer) \<times> 'k block_manager) result" where
  "get_full_blocks_from_host_prefix_cache C desired_hashes r m =
     bind_r (pool_at r m) (\<lambda>pool.
     if desired_hashes = [] then Inr (([], CompletedTransfer LOAD []), m)
     else
       let num_hashes_to_load = nat (min (int (length desired_hashes)) (pool_num_free_blocks pool));
           desired_hashes = take num_hashes_to_load desired_hashes
       in bind_r (allocate_device_blocks num_hashes_to_load r m) (\<lambda>(blks, m).
       let (ev, k) = conn_load C blks desired_hashes r (conn_state m)
       in receive_load C r blks desired_hashes ev (m\<lparr>conn_state := k\<rparr>)))"

definition count_cached_prefix_blocks ::
  "'k kv_connector \<Rightarrow> bytes list \<Rightarrow> 'k block_manager \<Rightarrow> prefix_cache_hits result" where
  "count_cached_prefix_blocks C block_hashes m =
     (if \<not> enable_prefix_caching m then Inr \<lparr>device_blocks = 0, host_blocks = 0, disk_blocks = 0\<rparr>
      else bind_r (if only_last_level_cache m then Inr 0
                   else bind_r (pool_at 0 m) (\<lambda>p.
                     Inr (length (takeWhile (\<lambda>h. map_of (prefix_cache p) h \<noteq> None) block_hashes))))
        (\<lambda>num_device_hits.
          let remaining = drop num_device_hits block_hashes;
              (host, disk) = (if remaining \<noteq> [] then conn_count_cached_prefix C remaining (conn_state m) else (0, 0))
          in Inr \<lparr>device_blocks = int num_device_hits, host_blocks = host, disk_blocks = disk\<rparr>))"

definition get_full_blocks_from_prefix_cache ::
  "'k kv_connector \<Rightarrow> ('m, 'l) any_context \<Rightarrow> 'k block_manager \<Rightarrow> ((bid list \<times> transfer) \<times> 'k block_manager) result" where
  "get_full_blocks_from_prefix_cache C ctx m =
     assert_r (enable_prefix_caching m)
     (bind_r (replica_of ctx m) (\<lambda>r.
      let req_hashes = hashes_of m (rid ctx);
          n = num_committed_blocks m (rid ctx);
          uncommitted_hashes = drop (nat n) req_hashes
      in bind_r (get_full_blocks_from_device_prefix_cache uncommitted_hashes r m) (\<lambda>(dev, m).
         if conn_name C = ''NullConnector'' then Inr ((dev, CompletedTransfer LOAD []), m)
         else bind_r (get_full_blocks_from_host_prefix_cache C (drop (length dev) uncommitted_hashes) r m)
           (\<lambda>((host, load_event), m).
             let hit_hashes = take (nat n + length dev + length host) req_hashes;
                 m = (if hit_hashes \<noteq> [] then m\<lparr>conn_state := conn_touch C hit_hashes r (conn_state m)\<rparr> else m)
             in Inr ((dev @ host, load_event), m)))))"

section \<open>Committing\<close>

definition compute_hashes_for_request ::
  "hash_prims \<Rightarrow> ('m, 'l) any_context \<Rightarrow> 'k block_manager \<Rightarrow> 'k block_manager result" where
  "compute_hashes_for_request P ctx m =
     (let hashes = hashes_of m (rid ctx) in
      bind_r (compute_block_hashes P ctx hashes (block_size m) (kv_hash_algo m) (kv_hash_seed m)) (\<lambda>new_hashes.
        Inr (m\<lparr>req_to_hashes := AList.update (rid ctx) (hashes @ new_hashes) (req_to_hashes m)\<rparr>)))"

definition commit_block ::
  "bytes list \<Rightarrow> block_pool \<times> bid list \<Rightarrow> int \<Rightarrow> (block_pool \<times> bid list) result" where
  "commit_block req_hashes st block_idx =
     (let (pool, req_blocks) = st in
      bind_r (py_index req_blocks block_idx) (\<lambda>block.
      bind_r (py_index req_hashes block_idx) (\<lambda>h.
      bind_r (get_or_commit_into_prefix_cache h block pool) (\<lambda>(new_block, pool).
        case new_block of None \<Rightarrow> Inr (pool, req_blocks)
        | Some b \<Rightarrow> bind_r (py_store req_blocks block_idx b) (\<lambda>req_blocks. Inr (pool, req_blocks))))))"

definition num_computed_blocks :: "('m, 'l) any_context \<Rightarrow> 'k block_manager \<Rightarrow> int" where
  "num_computed_blocks ctx m =
     (let t = ctx_tokens ctx; num_realized_tokens = tb_len t - pending_future_count (ctx_base ctx)
      in min (processed_length t) num_realized_tokens div block_size m)"

text \<open>After the loop: queue the new blocks as one offload run and move the committed index.\<close>

definition record_commit :: "request_id \<Rightarrow> nat \<Rightarrow> int \<Rightarrow> int \<Rightarrow> 'k block_manager \<Rightarrow> 'k block_manager" where
  "record_commit i r nc n m =
     (let m = (if n > nc
               then m\<lparr>pending_offloads := (pending_offloads m)[r := pending_offloads m ! r @
                      [py_slice (hashes_of m i) nc n]]\<rparr>
               else m)
      in m\<lparr>req_to_committed_idx := AList.update i (n * block_size m) (req_to_committed_idx m)\<rparr>)"

definition commit_to_prefix_cache ::
  "('m, 'l) any_context \<Rightarrow> 'k block_manager \<Rightarrow> 'k block_manager result" where
  "commit_to_prefix_cache ctx m =
     (let i = rid ctx in
      bind_r (replica_of ctx m) (\<lambda>r.
      bind_r (pool_at r m) (\<lambda>pool.
      let nc = num_committed_blocks m i; n = num_computed_blocks ctx m
      in bind_r (fold_r (commit_block (hashes_of m i)) (pool, blocks_of m i) [nc..n - 1]) (\<lambda>(pool, req_blocks).
         Inr (record_commit i r nc n (set_blocks i req_blocks (set_pool r pool m)))))))"

section \<open>Runtime checks\<close>

text \<open>The ids of active blocks by replica, each checked to be referenced.\<close>

definition add_active :: "'k block_manager \<Rightarrow> nat \<Rightarrow> bid list list \<Rightarrow> bid list \<Rightarrow> bid list list result" where
  "add_active m r acc bs =
     fold_r (\<lambda>acc b. raise_if (\<not> r < length acc) IndexError
       (assert_r (ref_cnt (blocks (device_block_pools m ! r) b) > 0) (Inr (acc[r := acc ! r @ [b]])))) acc bs"

definition active_block_ids :: "'k block_manager \<Rightarrow> bid list list result" where
  "active_block_ids m =
     bind_r (fold_r (\<lambda>acc (i, bs). add_active m (dget 0 (req_to_replica m) i) acc bs)
              (replicate (num_replicas m) []) (req_to_blocks m)) (\<lambda>acc.
       fold_r (\<lambda>acc r. fold_r (\<lambda>acc pt. add_active m r acc (pt_blocks pt)) acc (pending_transfers m ! r))
         acc [0..<length (pending_transfers m)])"

definition bm_assert_runtime_invariants :: "('m, 'l) any_context \<Rightarrow> 'k block_manager \<Rightarrow> unit result" where
  "bm_assert_runtime_invariants ctx m =
     (if \<not> bm_runtime_checks m then Inr ()
      else bind_r (active_block_ids m) (\<lambda>active.
        raise_if (length (device_block_pools m) \<noteq> length active) ValueError
        (bind_r (fold_r (\<lambda>_ (pool, ids). pool_assert_runtime_invariants ids pool) () (zip (device_block_pools m) active)) (\<lambda>_.
         let i = rid ctx; req_hashes = hashes_of m i; req_blocks = blocks_of m i;
             pool = device_block_pools m ! dget 0 (req_to_replica m) i;
             num_committed = length (takeWhile (\<lambda>b. block_hash (blocks pool b) \<noteq> None) req_blocks)
         in assert_r (int num_committed = num_committed_blocks m i)
            (assert_r (list_all (\<lambda>(h, b). block_hash (blocks pool b) = None \<or> block_hash (blocks pool b) = Some h)
                (zip req_hashes req_blocks)) (Inr ()))))))"

section \<open>The scheduler's calls\<close>

definition step :: "hash_prims \<Rightarrow> ('m, 'l) any_context \<Rightarrow> 'k block_manager \<Rightarrow> 'k block_manager result" where
  "step P ctx m =
     bind_r (bm_assert_runtime_invariants ctx m) (\<lambda>_.
     if \<not> enable_prefix_caching m then Inr m
     else bind_r (compute_hashes_for_request P ctx m) (\<lambda>m.
       bind_r (commit_to_prefix_cache ctx m) (\<lambda>m.
       bind_r (bm_assert_runtime_invariants ctx m) (\<lambda>_. Inr m))))"

text \<open>What \<open>reuse_blocks_from_prefix_cache\<close> does with the blocks the lookup found.\<close>

definition adopt_blocks ::
  "('m, 'l) any_context \<Rightarrow> bid list \<Rightarrow> 'k block_manager \<Rightarrow> (int \<times> ('m, 'l) any_context \<times> 'k block_manager) result" where
  "adopt_blocks ctx found m =
     (let i = rid ctx; is_first_admission = (processed_length (ctx_tokens ctx) = 0) in
      if found \<noteq> [] then
        bind_r (release_uncommitted_blocks ctx m) (\<lambda>(ctx, m).
        let m = set_blocks i (blocks_of m i @ found) m;
            new_committed_idx = committed_of m i + int (length found) * block_size m;
            m = m\<lparr>req_to_committed_idx := AList.update i new_committed_idx (req_to_committed_idx m)\<rparr>;
            skip_amount = new_committed_idx - processed_length (ctx_tokens ctx)
        in bind_r (skip_processing skip_amount (ctx_tokens ctx)) (\<lambda>t.
           assert_r (active_length t \<ge> 1)
             (let ctx = set_tokens t ctx
              in Inr (skip_amount, if is_first_admission then set_cached_prefix skip_amount ctx else ctx, m))))
      else Inr (0, if is_first_admission then set_cached_prefix 0 ctx else ctx, m))"

definition reuse_blocks_from_prefix_cache ::
  "hash_prims \<Rightarrow> 'k kv_connector \<Rightarrow> ('m, 'l) any_context \<Rightarrow> 'k block_manager \<Rightarrow>
   ((int \<times> transfer) \<times> ('m, 'l) any_context \<times> 'k block_manager) result" where
  "reuse_blocks_from_prefix_cache P C ctx m =
     bind_r (replica_of ctx m) (\<lambda>_.
     bind_r (bm_assert_runtime_invariants ctx m) (\<lambda>_.
     if \<not> enable_prefix_caching m \<or> active_length (ctx_tokens ctx) = 1
     then Inr ((0, CompletedTransfer LOAD []), ctx, m)
     else bind_r (compute_hashes_for_request P ctx m) (\<lambda>m.
       bind_r (get_full_blocks_from_prefix_cache C ctx m) (\<lambda>((found, load_event), m).
       bind_r (adopt_blocks ctx found m) (\<lambda>(skip, ctx, m). Inr ((skip, load_event), ctx, m))))))"

definition bm_reset_prefix_cache :: "'k block_manager \<Rightarrow> 'k block_manager result" where
  "bm_reset_prefix_cache m =
     fold_r (\<lambda>m r. bind_r (pool_at r m) (\<lambda>p. bind_r (pool_reset_prefix_cache p) (\<lambda>p. Inr (set_pool r p m))))
       m [0..<length (device_block_pools m)]"

end
