(* ===== verification/Block_Accounting.thy ===== *)
theory Block_Accounting
  imports Block_Manager
begin

text \<open>
  Reference accounting of the block manager: at every replica the reference count of every block
  is the number of times it is held, by the block lists of the requests claimed there and by the
  transfers in flight. Inside an operation some references are loose (allocated or pinned, not
  yet recorded); \<open>accounts\<close> carries them as an argument, and \<open>bm_inv\<close> is the case of none.
\<close>

section \<open>Who holds a block\<close>

definition claimed :: "'k block_manager \<Rightarrow> nat \<Rightarrow> request_id set" where
  "claimed m r = {i. map_of (req_to_replica m) i = Some r}"

definition pinned :: "'k block_manager \<Rightarrow> nat \<Rightarrow> bid multiset" where
  "pinned m r = sum_list (map (\<lambda>pt. mset (pt_blocks pt)) (pending_transfers m ! r))"

definition held :: "'k block_manager \<Rightarrow> nat \<Rightarrow> bid multiset" where
  "held m r = (\<Sum>i\<in>claimed m r. mset (blocks_of m i)) + pinned m r"

definition bm_shape :: "'k block_manager \<Rightarrow> bool" where
  "bm_shape m \<longleftrightarrow> length (device_block_pools m) = num_replicas m \<and>
     length (pending_transfers m) = num_replicas m \<and> length (pending_offloads m) = num_replicas m \<and>
     distinct (map fst (req_to_blocks m)) \<and>
     (\<forall>i. map_of (req_to_replica m) i = None \<longrightarrow> blocks_of m i = [])"

definition accounts :: "(nat \<Rightarrow> bid multiset) \<Rightarrow> 'k block_manager \<Rightarrow> bool" where
  "accounts X m \<longleftrightarrow> bm_shape m \<and> (\<forall>r < num_replicas m.
     total_num_blocks (device_block_pools m ! r) = bm_total_num_blocks m \<and>
     pool_tracks (device_block_pools m ! r) (held m r + X r))"

abbreviation none_loose :: "nat \<Rightarrow> bid multiset" where
  "none_loose \<equiv> \<lambda>_. {#}"

definition bm_inv :: "'k block_manager \<Rightarrow> bool" where
  "bm_inv m \<longleftrightarrow> accounts none_loose m"

lemma finite_claimed [simp]: "finite (claimed m r)"
  by (rule finite_subset [OF _ finite_dom_map_of [of "req_to_replica m"]]) (auto simp: claimed_def)

text \<open>The manager apart from its pools, transfers and connector state.\<close>

definition same_requests :: "'k block_manager \<Rightarrow> 'k block_manager \<Rightarrow> bool" where
  "same_requests m m' \<longleftrightarrow> req_to_replica m' = req_to_replica m \<and> req_to_blocks m' = req_to_blocks m \<and>
     req_to_hashes m' = req_to_hashes m \<and> req_to_committed_idx m' = req_to_committed_idx m \<and>
     num_replicas m' = num_replicas m \<and> bm_total_num_blocks m' = bm_total_num_blocks m \<and>
     block_size m' = block_size m \<and> enable_prefix_caching m' = enable_prefix_caching m \<and>
     pending_offloads m' = pending_offloads m"

lemma same_requests_refl [simp]: "same_requests m m"
  by (simp add: same_requests_def)

lemma same_requests_trans: "same_requests a b \<Longrightarrow> same_requests b c \<Longrightarrow> same_requests a c"
  by (simp add: same_requests_def)

lemma same_requests_set_pool [simp]: "same_requests m (set_pool r p m)"
  by (simp add: same_requests_def set_pool_def)

lemma same_requests_conn [simp]: "same_requests m (m\<lparr>conn_state := k\<rparr>)"
  by (simp add: same_requests_def)

lemma same_requests_absorb [simp]:
  "same_requests (set_pool r p m) m' \<longleftrightarrow> same_requests m m'"
  "same_requests (m\<lparr>conn_state := k\<rparr>) m' \<longleftrightarrow> same_requests m m'"
  "same_requests m (set_pool r p m') \<longleftrightarrow> same_requests m m'"
  "same_requests m (m'\<lparr>conn_state := k\<rparr>) \<longleftrightarrow> same_requests m m'"
  by (simp_all add: same_requests_def set_pool_def)

lemma set_pool_simps [simp]:
  "device_block_pools (set_pool r p m) = (device_block_pools m)[r := p]"
  "pending_transfers (set_pool r p m) = pending_transfers m"
  "conn_state (set_pool r p m) = conn_state m"
  "req_to_replica (set_pool r p m) = req_to_replica m" "req_to_blocks (set_pool r p m) = req_to_blocks m"
  "req_to_hashes (set_pool r p m) = req_to_hashes m"
  "req_to_committed_idx (set_pool r p m) = req_to_committed_idx m"
  "num_replicas (set_pool r p m) = num_replicas m" "block_size (set_pool r p m) = block_size m"
  "bm_total_num_blocks (set_pool r p m) = bm_total_num_blocks m"
  "pending_offloads (set_pool r p m) = pending_offloads m"
  "cross_replica_copy_enabled (set_pool r p m) = cross_replica_copy_enabled m"
  "only_last_level_cache (set_pool r p m) = only_last_level_cache m"
  "enable_prefix_caching (set_pool r p m) = enable_prefix_caching m"
  by (simp_all add: set_pool_def)

lemma set_blocks_simps [simp]:
  "device_block_pools (set_blocks i bs m) = device_block_pools m"
  "pending_transfers (set_blocks i bs m) = pending_transfers m"
  "req_to_replica (set_blocks i bs m) = req_to_replica m"
  "req_to_hashes (set_blocks i bs m) = req_to_hashes m"
  "req_to_committed_idx (set_blocks i bs m) = req_to_committed_idx m"
  "num_replicas (set_blocks i bs m) = num_replicas m" "block_size (set_blocks i bs m) = block_size m"
  "bm_total_num_blocks (set_blocks i bs m) = bm_total_num_blocks m"
  "pending_offloads (set_blocks i bs m) = pending_offloads m"
  "enable_prefix_caching (set_blocks i bs m) = enable_prefix_caching m"
  by (simp_all add: set_blocks_def)

lemma blocks_of_set_blocks [simp]: "blocks_of (set_blocks i bs m) j = (if j = i then bs else blocks_of m j)"
  by (simp add: set_blocks_def dget_def update_conv')

lemma set_pool_set_blocks: "set_pool r p (set_blocks i bs m) = set_blocks i bs (set_pool r p m)"
  by (cases m) (simp add: set_pool_def set_blocks_def)

lemma same_conn: "\<exists>k. m = m\<lparr>conn_state := k\<rparr>"
  by (rule exI [of _ "conn_state m"]) simp

lemma pool_at_eq: "pool_at r m = Inr p \<longleftrightarrow> r < length (device_block_pools m) \<and> p = device_block_pools m ! r"
  by (auto simp: pool_at_def raise_if_def)

lemma replica_of_eq: "replica_of ctx m = Inr r \<longleftrightarrow> map_of (req_to_replica m) (rid ctx) = Some r"
  by (auto simp: replica_of_def split: option.splits)

section \<open>Moving references\<close>

lemma held_split:
  assumes "i \<in> claimed m r"
  shows "held m r = mset (blocks_of m i) + ((\<Sum>j\<in>claimed m r - {i}. mset (blocks_of m j)) + pinned m r)"
  using sum.remove [OF finite_claimed assms, of "\<lambda>i. mset (blocks_of m i)"] by (simp add: held_def add.assoc)

lemma held_set_blocks:
  assumes "i \<in> claimed m r"
  shows "held (set_blocks i bs m) r + mset (blocks_of m i) = held m r + mset bs"
proof -
  have c: "claimed (set_blocks i bs m) r = claimed m r" "pinned (set_blocks i bs m) r = pinned m r"
    by (simp_all add: claimed_def pinned_def)
  have "(\<Sum>j\<in>claimed m r - {i}. mset (blocks_of (set_blocks i bs m) j)) =
      (\<Sum>j\<in>claimed m r - {i}. mset (blocks_of m j))"
    by (rule sum.cong) auto
  with assms show ?thesis
    using held_split [of i "set_blocks i bs m" r] held_split [of i m r] by (simp add: c)
qed

lemma held_set_blocks_other:
  assumes "i \<notin> claimed m r"
  shows "held (set_blocks i bs m) r = held m r"
proof -
  have c: "claimed (set_blocks i bs m) r = claimed m r" "pinned (set_blocks i bs m) r = pinned m r"
    by (simp_all add: claimed_def pinned_def)
  have "(\<Sum>j\<in>claimed m r. mset (blocks_of (set_blocks i bs m) j)) = (\<Sum>j\<in>claimed m r. mset (blocks_of m j))"
    using assms by (intro sum.cong) auto
  then show ?thesis by (simp add: held_def c)
qed

lemma held_cong:
  "same_requests m m' \<Longrightarrow> pending_transfers m' ! r = pending_transfers m ! r \<Longrightarrow> held m' r = held m r"
  by (simp add: held_def claimed_def pinned_def same_requests_def)

lemma bm_shape_cong:
  assumes "bm_shape m" and "same_requests m m'" and "length (device_block_pools m') = length (device_block_pools m)"
    and "length (pending_transfers m') = length (pending_transfers m)"
  shows "bm_shape m'"
  using assms by (simp add: bm_shape_def same_requests_def)

lemma accounts_pool:
  assumes "accounts X m" and "r < num_replicas m"
  shows "pool_tracks (device_block_pools m ! r) (held m r + X r)"
    and "total_num_blocks (device_block_pools m ! r) = bm_total_num_blocks m"
  using assms by (simp_all add: accounts_def)

lemma accounts_shape: "accounts X m \<Longrightarrow> bm_shape m"
  by (simp add: accounts_def)

lemma accounts_replicas: "accounts X m \<Longrightarrow> length (device_block_pools m) = num_replicas m"
  by (simp add: accounts_def bm_shape_def)

lemma accounts_set_pool:
  assumes "accounts X m" and "r < num_replicas m" and "pool_tracks p (held m r + Y)"
    and "total_num_blocks p = bm_total_num_blocks m"
  shows "accounts (X(r := Y)) (set_pool r p m)"
proof -
  have "bm_shape (set_pool r p m)"
    by (rule bm_shape_cong [OF accounts_shape [OF assms(1)]]) simp_all
  moreover have "held (set_pool r p m) s = held m s" for s
    by (rule held_cong) simp_all
  ultimately show ?thesis
    using assms by (auto simp: accounts_def nth_list_update bm_shape_def)
qed

lemma accounts_set_blocks:
  assumes "accounts X m" and i: "map_of (req_to_replica m) i = Some r" and "r < num_replicas m"
    and bal: "mset bs + Y = mset (blocks_of m i) + X r"
  shows "accounts (X(r := Y)) (set_blocks i bs m)"
proof -
  let ?m = "set_blocks i bs m"
  have cl: "i \<in> claimed m s \<longleftrightarrow> s = r" for s using i by (auto simp: claimed_def)
  have "held ?m r + Y = held m r + X r"
  proof -
    have "held ?m r + Y + mset (blocks_of m i) = held m r + X r + mset (blocks_of m i)"
      using held_set_blocks [of i m r bs] cl bal by (metis (no_types, lifting) add.commute add.left_commute)
    then show ?thesis by simp
  qed
  moreover have "held ?m s = held m s" if "s \<noteq> r" for s
    using that cl by (simp add: held_set_blocks_other)
  moreover have "bm_shape ?m"
    using accounts_shape [OF assms(1)] i by (auto simp: bm_shape_def set_blocks_def distinct_update dget_def update_conv')
  ultimately show ?thesis
    using assms(1) by (auto simp: accounts_def)
qed

lemma accounts_conn [simp]: "accounts X (m\<lparr>conn_state := k\<rparr>) \<longleftrightarrow> accounts X m"
  by (simp add: accounts_def bm_shape_def held_def claimed_def pinned_def)

lemma accounts_hashes [simp]: "accounts X (m\<lparr>req_to_hashes := d\<rparr>) \<longleftrightarrow> accounts X m"
  by (simp add: accounts_def bm_shape_def held_def claimed_def pinned_def)

lemma accounts_committed [simp]: "accounts X (m\<lparr>req_to_committed_idx := d\<rparr>) \<longleftrightarrow> accounts X m"
  by (simp add: accounts_def bm_shape_def held_def claimed_def pinned_def)

lemma accounts_offloads:
  "accounts X m \<Longrightarrow> length d = num_replicas m \<Longrightarrow> accounts X (m\<lparr>pending_offloads := d\<rparr>)"
  by (simp add: accounts_def bm_shape_def held_def claimed_def pinned_def)

section \<open>Every operation keeps the accounts\<close>

lemma BlockManager_init_inv:
  assumes "BlockManager_init n bs k caching checks replicas algo seed mem flag ol = Inr m"
  shows "bm_inv m"
  using assms BlockPool_init_inv [of n checks]
  by (auto simp: BlockManager_init_def raise_if_eq_Inr bm_inv_def accounts_def bm_shape_def held_def
      claimed_def pinned_def pool_tracks_def dget_def BlockPool_init_def)

lemma claim_inv:
  assumes "accounts X m" and "claim ctx r m = Inr m'"
  shows "accounts X m'"
proof -
  let ?i = "rid ctx"
  have new: "map_of (req_to_replica m) ?i = None" and m': "m' = m\<lparr>req_to_replica := AList.update ?i r (req_to_replica m)\<rparr>"
    using assms(2) by (auto simp: claim_def raise_if_eq_Inr)
  have b: "blocks_of m ?i = []" using accounts_shape [OF assms(1)] new by (simp add: bm_shape_def)
  have "claimed m' s = (if s = r then insert ?i (claimed m s) else claimed m s)" for s
    using new by (auto simp: claimed_def m' update_conv')
  moreover have "?i \<notin> claimed m s" for s using new by (simp add: claimed_def)
  ultimately have "held m' s = held m s" for s
    using b by (simp add: held_def pinned_def m')
  then show ?thesis
    using assms(1) by (auto simp: accounts_def bm_shape_def m' update_conv')
qed

lemma allocate_device_blocks_inv:
  assumes "accounts X m" and "allocate_device_blocks n r m = Inr (bs, m')"
  shows "accounts (X(r := X r + mset bs)) m'" and "\<exists>p. m' = set_pool r p m" and "length bs = n"
    and "set bs \<subseteq> {..<bm_total_num_blocks m}" and "r < num_replicas m"
proof -
  from assms(2) obtain p where r: "r < num_replicas m"
    and al: "alloc_many alloc_id n (device_block_pools m ! r) = Inr (bs, p)" and m': "m' = set_pool r p m"
    using accounts_replicas [OF assms(1)] by (auto simp: allocate_device_blocks_def bind_r_eq_Inr pool_at_eq)
  note tr = accounts_pool [OF assms(1) r]
  note ok = refs.alloc_many_returns [OF tr(1) al]
  have "set bs \<subseteq> set (free_list (device_block_pools m ! r))"
    using ok by (metis set_take_subset)
  then show "set bs \<subseteq> {..<bm_total_num_blocks m}"
    using refs.free_unheld [OF tr(1)] tr(2) by auto
  show "accounts (X(r := X r + mset bs)) m'"
    unfolding m' by (rule accounts_set_pool [OF assms(1) r]) (use ok tr(2) in \<open>auto simp: add.assoc\<close>)
  show "\<exists>p. m' = set_pool r p m" "r < num_replicas m" using m' r by blast+
  show "length bs = n" using ok by (simp add: min_def)
qed

lemma allocate_device_block_many:
  assumes "allocate_device_block r m = Inr (b, m')"
  shows "allocate_device_blocks 1 r m = Inr ([b], m')"
  using assms by (auto simp: allocate_device_block_def allocate_device_blocks_def bind_r_eq_Inr)

lemma allocate_new_blocks_inv:
  assumes "accounts X m" and "allocate_new_blocks ctx d s m = Inr m'"
  shows "accounts X m'"
proof -
  from assms(2) obtain r new m1 where r: "map_of (req_to_replica m) (rid ctx) = Some r"
    and al: "allocate_device_blocks (nat (num_blocks_to_allocate ctx d s m)) r m = Inr (new, m1)"
    and m': "m' = set_blocks (rid ctx) (blocks_of m (rid ctx) @ new) m1"
    by (auto simp: allocate_new_blocks_def Let_def result_Inr replica_of_eq)
  note a = allocate_device_blocks_inv [OF assms(1) al]
  then have fr: "req_to_replica m1 = req_to_replica m" "req_to_blocks m1 = req_to_blocks m"
    "num_replicas m1 = num_replicas m" by auto
  have "accounts ((X(r := X r + mset new))(r := X r)) m'"
    unfolding m' by (rule accounts_set_blocks [OF a(1)]) (use a(5) r fr in auto)
  then show ?thesis by simp
qed

lemma free_in_order_inv:
  assumes "accounts X m" and r: "r < num_replicas m" and sub: "mset bs \<subseteq># held m r + X r"
    and "free_blocks_in_order bs (device_block_pools m ! r) = Inr p"
  shows "pool_tracks p (held m r + X r - mset bs)" and "total_num_blocks p = bm_total_num_blocks m"
proof -
  note tr = accounts_pool [OF assms(1) r]
  from refs.free_all_ok [OF tr(1) sub] assms(4) tr(2)
  show "pool_tracks p (held m r + X r - mset bs)" "total_num_blocks p = bm_total_num_blocks m"
    by (auto simp: free_blocks_in_order_def)
qed

text \<open>Dropping blocks from a request's list and freeing them.\<close>

lemma drop_blocks_inv:
  assumes "accounts X m" and i: "map_of (req_to_replica m) i = Some r" and r: "r < num_replicas m"
    and part: "mset (blocks_of m i) = mset kept + mset dropped"
    and fr: "free_blocks_in_order dropped (device_block_pools m ! r) = Inr p"
  shows "accounts X (set_blocks i kept (set_pool r p m))"
proof -
  let ?m = "set_blocks i kept m"
  have a: "accounts (X(r := X r + mset dropped)) ?m"
    by (rule accounts_set_blocks [OF assms(1) i r]) (simp add: part)
  have "pool_tracks p (held ?m r + X r)" "total_num_blocks p = bm_total_num_blocks ?m"
    using free_in_order_inv [OF a, of r dropped p] r fr by (simp_all add: add.assoc)
  from accounts_set_pool [OF a _ this] r have "accounts X (set_pool r p ?m)" by simp
  then show ?thesis by (simp add: set_pool_set_blocks)
qed

lemma forget_inv:
  assumes "accounts X m" and "blocks_of m i = []"
  shows "accounts X (m\<lparr>req_to_blocks := AList.delete i (req_to_blocks m), req_to_hashes := h,
    req_to_replica := AList.delete i (req_to_replica m), req_to_committed_idx := c\<rparr>)" (is "accounts X ?m")
proof -
  have b: "dget [] (AList.delete i (req_to_blocks m)) j = blocks_of m j" for j
    using assms(2) by (auto simp: dget_def delete_conv' split: option.splits)
  have "claimed ?m s = claimed m s - {i}" for s by (auto simp: claimed_def delete_conv')
  moreover have "(\<Sum>j\<in>claimed m s - {i}. mset (blocks_of m j)) = (\<Sum>j\<in>claimed m s. mset (blocks_of m j))" for s
    by (rule sum.mono_neutral_left) (auto simp: assms(2))
  ultimately have "held ?m s = held m s" for s by (simp add: held_def pinned_def b)
  then show ?thesis
    using assms b by (auto simp: accounts_def bm_shape_def distinct_delete delete_conv')
qed

lemma release_runs:
  assumes "accounts X m" and "release ctx m = Inr m'"
  obtains r p where "map_of (req_to_replica m) (rid ctx) = Some r" and "r < num_replicas m"
    and "free_blocks_in_order (if enable_prefix_caching m then rev (blocks_of m (rid ctx)) else blocks_of m (rid ctx))
      (device_block_pools m ! r) = Inr p"
    and "m' = (set_pool r p m)\<lparr>req_to_blocks := AList.delete (rid ctx) (req_to_blocks m),
        req_to_hashes := AList.delete (rid ctx) (req_to_hashes m),
        req_to_replica := AList.delete (rid ctx) (req_to_replica m),
        req_to_committed_idx := AList.delete (rid ctx) (req_to_committed_idx m)\<rparr>"
  using assms accounts_replicas [OF assms(1)]
  by (auto simp: release_def Let_def bind_r_eq_Inr replica_of_eq pool_at_eq)

lemma release_inv:
  assumes "accounts X m" and "release ctx m = Inr m'"
  shows "accounts X m'"
proof -
  let ?i = "rid ctx"
  obtain r p where r: "map_of (req_to_replica m) ?i = Some r" "r < num_replicas m"
    and fr: "free_blocks_in_order (if enable_prefix_caching m then rev (blocks_of m ?i) else blocks_of m ?i)
      (device_block_pools m ! r) = Inr p"
    and m': "m' = (set_pool r p m)\<lparr>req_to_blocks := AList.delete ?i (req_to_blocks m),
        req_to_hashes := AList.delete ?i (req_to_hashes m), req_to_replica := AList.delete ?i (req_to_replica m),
        req_to_committed_idx := AList.delete ?i (req_to_committed_idx m)\<rparr>"
    by (rule release_runs [OF assms])
  have "accounts X (set_blocks ?i [] (set_pool r p m))"
    by (rule drop_blocks_inv [OF assms(1) r _ fr]) simp
  from forget_inv [OF this, of ?i "AList.delete ?i (req_to_committed_idx m)"
      "AList.delete ?i (req_to_hashes m)"]
  show ?thesis
    by (simp add: m' set_blocks_def delete_update_same dget_def update_conv')
qed

lemma release_uncommitted_runs:
  assumes "accounts X m" and "release_uncommitted_blocks ctx m = Inr (ctx', m')"
  defines "n \<equiv> nat (num_committed_blocks m (rid ctx))"
  obtains r p t where "map_of (req_to_replica m) (rid ctx) = Some r" and "r < num_replicas m"
    and "free_blocks_in_order (rev (drop n (blocks_of m (rid ctx)))) (device_block_pools m ! r) = Inr p"
    and "m' = set_blocks (rid ctx) (take n (blocks_of m (rid ctx))) (set_pool r p m)" and "ctx' = set_tokens t ctx"
  using assms accounts_replicas [OF assms(1)]
  by (auto simp: release_uncommitted_blocks_def Let_def result_Inr replica_of_eq pool_at_eq)

lemma rid_set_tokens [simp]: "rid (set_tokens t ctx) = rid ctx"
  by (cases ctx) (simp_all add: text_context.truncate_def)

lemma release_uncommitted_inv:
  assumes "accounts X m" and "release_uncommitted_blocks ctx m = Inr (ctx', m')"
  shows "accounts X m'"
proof -
  let ?i = "rid ctx" and ?n = "nat (num_committed_blocks m (rid ctx))"
  obtain r p t where r: "map_of (req_to_replica m) ?i = Some r" "r < num_replicas m"
    and fr: "free_blocks_in_order (rev (drop ?n (blocks_of m ?i))) (device_block_pools m ! r) = Inr p"
    and m': "m' = set_blocks ?i (take ?n (blocks_of m ?i)) (set_pool r p m)" and "ctx' = set_tokens t ctx"
    by (rule release_uncommitted_runs [OF assms])
  have "mset (blocks_of m ?i) = mset (take ?n (blocks_of m ?i)) + mset (rev (drop ?n (blocks_of m ?i)))"
    by (metis append_take_drop_id mset_append mset_rev)
  from drop_blocks_inv [OF assms(1) r this fr] show ?thesis by (simp add: m')
qed

lemma register_dummy_inv:
  assumes "accounts X m" and "register_dummy_request ctx m = Inr m'"
  shows "accounts X m'"
proof -
  let ?i = "rid ctx"
  from assms(2) obtain r where e: "blocks_of m ?i = []" and r: "map_of (req_to_replica m) ?i = Some r" "r < num_replicas m"
    and m': "m' = set_blocks ?i [null_block (device_block_pools m ! r)] m"
    using accounts_replicas [OF assms(1)]
    by (auto simp: register_dummy_request_def result_Inr replica_of_eq pool_at_eq)
  note tr = accounts_pool [OF assms(1) r(2)]
  let ?p = "device_block_pools m ! r" and ?b = "null_block (device_block_pools m ! r)"
  have b: "?b = total_num_blocks ?p" using pool_inv_null [OF tracks_inv [OF tr(1)]] by simp
  have "pool_tracks ?p (held m r + add_mset ?b (X r))"
    by (rule tracks_update [OF tr(1) tracks_inv [OF tr(1)]])
      (use tr b in \<open>auto simp: pool_tracks_def\<close>)
  from accounts_set_pool [OF assms(1) r(2) this tr(2)]
  have "accounts (X(r := add_mset ?b (X r))) m" by (simp add: set_pool_def)
  from accounts_set_blocks [OF this r, of "[?b]" "X r"] e show ?thesis by (simp add: m')
qed

subsection \<open>Transfers\<close>

lemma track_transfer_inv:
  assumes "accounts X m" and r: "r < num_replicas m" and "set blks \<subseteq> {..<bm_total_num_blocks m}"
    and "track_transfer ev blks r hs m = Inr m'"
  shows "accounts X m'" and "same_requests m m'"
proof -
  note tr = accounts_pool [OF assms(1) r]
  have "accounts X m' \<and> same_requests m m'"
  proof (cases "blks = []")
    case False
    let ?pt = "\<lparr>pt_event = ev, pt_blocks = blks, pt_commit_hashes = hs\<rparr>"
    from False assms(4) obtain p where p: "fold_r (\<lambda>p b. touch b p) (device_block_pools m ! r) blks = Inr p"
      and m': "m' = (set_pool r p m)\<lparr>pending_transfers := (pending_transfers m)[r := pending_transfers m ! r @ [?pt]]\<rparr>"
      by (auto simp: track_transfer_def Let_def bind_r_eq_Inr pool_at_eq)
    have ok: "pool_tracks p (held m r + X r + mset blks)" "total_num_blocks p = bm_total_num_blocks m"
      using refs.pin_all_ok [OF tr(1), of blks] assms(3) tr(2) p by auto
    have len: "length (pending_transfers m) = num_replicas m"
      using accounts_shape [OF assms(1)] by (simp add: bm_shape_def)
    have cl: "claimed m' s = claimed m s" "blocks_of m' = blocks_of m" for s by (simp_all add: claimed_def m')
    have pin: "pinned m' s = (if s = r then pinned m s + mset blks else pinned m s)" for s
      using len r by (simp add: pinned_def m' nth_list_update)
    have "held m' s = (if s = r then held m s + mset blks else held m s)" for s
      by (simp add: held_def cl pin add.assoc)
    then have "accounts X m'"
      using ok assms(1) by (auto simp: accounts_def bm_shape_def m' nth_list_update add_ac)
    then show ?thesis by (simp add: m' same_requests_def)
  qed (use assms in \<open>simp add: track_transfer_def\<close>)
  then show "accounts X m'" "same_requests m m'" by simp_all
qed

lemma tracks_commit_held:
  assumes "pool_tracks p H" and "b \<in># H" and "commit_into_prefix_cache h b p = Inr p'"
  shows "pool_tracks p' H \<and> total_num_blocks p' = total_num_blocks p"
proof -
  have "b < total_num_blocks p"
    using tracks_bound [OF assms(1,2)] tracks_commit_null [OF assms(1,3)] by simp
  from tracks_commit [OF assms(1) this assms(3)] show ?thesis by simp
qed

text \<open>A loop of commits of held blocks, whatever decides which of them are made.\<close>

lemma commit_loop_tracks:
  assumes "pool_tracks p H" and "set bs \<subseteq> set_mset H"
    and "\<And>p b h p'. f p (b, h) = Inr p' \<Longrightarrow> p' = p \<or> commit_into_prefix_cache h b p = Inr p'"
    and "fold_r f p (zip bs hs) = Inr p'"
  shows "pool_tracks p' H \<and> total_num_blocks p' = total_num_blocks p"
proof (rule fold_r_invariant [OF assms(4), where I = "\<lambda>q. pool_tracks q H \<and> total_num_blocks q = total_num_blocks p"])
  fix q e q'
  assume q: "pool_tracks q H \<and> total_num_blocks q = total_num_blocks p" and e: "e \<in> set (zip bs hs)"
    and run: "f q e = Inr q'"
  obtain b h where [simp]: "e = (b, h)" by (cases e)
  have "b \<in># H" using e assms(2) by (auto dest: set_zip_leftD)
  with assms(3) [of q b h q'] run q tracks_commit_held [of q H b h q']
  show "pool_tracks q' H \<and> total_num_blocks q' = total_num_blocks p" by auto
qed (use assms(1) in simp)

lemma settle_transfer_tracks:
  assumes "pool_tracks p (mset (pt_blocks pt) + Y)" and "settle_transfer pt p = Inr p'"
  shows "pool_tracks p' Y \<and> total_num_blocks p' = total_num_blocks p"
proof -
  from assms(2) obtain q where q: "q = p \<or> (\<exists>hs. fold_r commit_landed p (zip (pt_blocks pt) hs) = Inr q)"
    and fr: "free_blocks_in_order (pt_blocks pt) q = Inr p'"
    by (auto simp: settle_transfer_def result_Inr split: option.splits)
  have land: "commit_landed p (b, h) = Inr p' \<Longrightarrow> p' = p \<or> commit_into_prefix_cache h b p = Inr p'" for p b h p'
    by (auto simp: commit_landed_def split: if_splits)
  have "pool_tracks q (mset (pt_blocks pt) + Y) \<and> total_num_blocks q = total_num_blocks p"
    using q commit_loop_tracks [OF assms(1) _ land, of "pt_blocks pt"] assms(1) by auto
  with refs.free_all_ok [of q "mset (pt_blocks pt) + Y" "pt_blocks pt"] fr show ?thesis
    by (auto simp: free_blocks_in_order_def)
qed

lemma settle_transfers_tracks:
  assumes "pool_tracks p (sum_list (map (\<lambda>pt. mset (pt_blocks pt)) pts) + Y)"
    and "settle_transfers fin pts p = Inr (still, p')"
  shows "pool_tracks p' (sum_list (map (\<lambda>pt. mset (pt_blocks pt)) still) + Y) \<and>
    total_num_blocks p' = total_num_blocks p \<and> still = filter (\<lambda>pt. \<not> fin (pt_event pt)) pts"
  using assms
proof (induction pts arbitrary: p Y still)
  case (Cons pt pts)
  show ?case
  proof (cases "fin (pt_event pt)")
    case True
    with Cons.prems(2) obtain q where q: "settle_transfer pt p = Inr q"
      "settle_transfers fin pts q = Inr (still, p')" by (auto simp: bind_r_eq_Inr)
    have "pool_tracks p (mset (pt_blocks pt) + (sum_list (map (\<lambda>pt. mset (pt_blocks pt)) pts) + Y))"
      using Cons.prems(1) by (simp add: add.assoc)
    from settle_transfer_tracks [OF this q(1)] Cons.IH [OF _ q(2)] True show ?thesis by auto
  next
    case False
    with Cons.prems(2) obtain st where st: "settle_transfers fin pts p = Inr (st, p')" "still = pt # st"
      by (auto simp: bind_r_eq_Inr)
    have "pool_tracks p (sum_list (map (\<lambda>pt. mset (pt_blocks pt)) pts) + (mset (pt_blocks pt) + Y))"
      using Cons.prems(1) by (simp add: add_ac)
    from Cons.IH [OF this st(1)] st(2) False show ?thesis by (auto simp: add_ac)
  qed
qed simp

lemma poll_replica_inv:
  assumes "accounts X m" and r: "r < num_replicas m" and "poll_replica C m r = Inr m'"
  shows "accounts X m' \<and> same_requests m m' \<and> conn_state m' = conn_state m \<and>
    pending_transfers m' = (pending_transfers m)[r :=
      filter (\<lambda>pt. \<not> is_complete C (conn_state m) (pt_event pt)) (pending_transfers m ! r)]"
proof (cases "pending_transfers m ! r = []")
  case True
  then have "(pending_transfers m)[r := []] = pending_transfers m" by (metis list_update_id)
  with True assms show ?thesis by (simp add: poll_replica_def)
next
  case False
  with assms(3) obtain still p where run: "settle_transfers (is_complete C (conn_state m)) (pending_transfers m ! r)
      (device_block_pools m ! r) = Inr (still, p)"
    and m': "m' = (set_pool r p m)\<lparr>pending_transfers := (pending_transfers m)[r := still]\<rparr>"
    by (auto simp: poll_replica_def bind_r_eq_Inr pool_at_eq)
  note tr = accounts_pool [OF assms(1) r]
  let ?R = "\<Sum>i\<in>claimed m r. mset (blocks_of m i)"
  have "pool_tracks (device_block_pools m ! r) (sum_list (map (\<lambda>pt. mset (pt_blocks pt)) (pending_transfers m ! r)) + (?R + X r))"
    using tr(1) by (simp add: held_def pinned_def add_ac)
  note ok = settle_transfers_tracks [OF this run]
  have len: "length (pending_transfers m) = num_replicas m"
    using accounts_shape [OF assms(1)] by (simp add: bm_shape_def)
  have cl: "claimed m' s = claimed m s" "blocks_of m' = blocks_of m" for s by (simp_all add: claimed_def m')
  have pin: "pinned m' s = (if s = r then sum_list (map (\<lambda>pt. mset (pt_blocks pt)) still) else pinned m s)" for s
    using len r by (simp add: pinned_def m' nth_list_update)
  have "held m' s = (if s = r then ?R + sum_list (map (\<lambda>pt. mset (pt_blocks pt)) still) else held m s)" for s
    by (simp add: held_def cl pin)
  then have "accounts X m'"
    using ok tr(2) assms(1) by (auto simp: accounts_def bm_shape_def m' nth_list_update add_ac)
  with ok show ?thesis by (simp add: m' same_requests_def)
qed

lemma poll_transfers_inv:
  assumes "accounts X m" and "poll_transfers C m = Inr m'"
  shows "accounts X m'" and "same_requests m m'"
proof -
  have len: "length (pending_transfers m) = num_replicas m"
    using accounts_shape [OF assms(1)] by (simp add: bm_shape_def)
  have "accounts X m' \<and> same_requests m m'"
  proof (rule fold_r_invariant [OF assms(2) [unfolded poll_transfers_def]])
    fix q r q'
    assume "accounts X q \<and> same_requests m q" "r \<in> set [0..<length (pending_transfers m)]" "poll_replica C q r = Inr q'"
    then show "accounts X q' \<and> same_requests m q'"
      using poll_replica_inv [of X q r C q'] len by (auto simp: same_requests_def)
  qed (use assms(1) in simp)
  then show "accounts X m'" "same_requests m m'" by simp_all
qed

lemma offload_run_inv:
  assumes "accounts X m" and r: "r < num_replicas m" and "offload_run C r m hs = Inr m'"
  shows "accounts X m' \<and> same_requests m m'"
proof -
  let ?p = "device_block_pools m ! r"
  let ?f = "map_of (prefix_cache ?p)"
  define bh where "bh = takeWhile (\<lambda>h. ?f h \<noteq> None) hs"
  note tr = accounts_pool [OF assms(1) r]
  have "the (?f h) < bm_total_num_blocks m" if "h \<in> set bh" for h
  proof -
    from that obtain b where b: "?f h = Some b" unfolding bh_def by (auto dest!: set_takeWhileD)
    then show ?thesis using pool_invD(6) [OF tracks_inv [OF tr(1)], of h b] tr(2) by simp
  qed
  then have lt: "set (map (\<lambda>h. the (?f h)) bh) \<subseteq> {..<bm_total_num_blocks m}" by auto
  obtain ev k where ck: "conn_offload C (map (\<lambda>h. the (?f h)) bh) bh r (conn_state m) = (ev, k)" by fastforce
  have "m' = m \<or> m' = m\<lparr>conn_state := k\<rparr> \<or>
      track_transfer ev (map (\<lambda>h. the (?f h)) bh) r None (m\<lparr>conn_state := k\<rparr>) = Inr m'"
    using assms(3) ck unfolding bh_def
    by (auto simp: offload_run_def Let_def bind_r_eq_Inr pool_at_eq split: if_splits)
  moreover have "accounts X m' \<and> same_requests m m'"
    if "track_transfer ev (map (\<lambda>h. the (?f h)) bh) r None (m\<lparr>conn_state := k\<rparr>) = Inr m'"
    using track_transfer_inv [OF _ _ _ that, of X] assms(1) r lt
    by (auto intro: same_requests_trans [OF same_requests_conn])
  ultimately show ?thesis using assms(1) by auto
qed

lemma offload_inv:
  assumes "accounts X m" and "offload C r m = Inr m'"
  shows "accounts X m'"
proof -
  from assms(2) obtain q where r: "r < num_replicas m"
    and run: "fold_r (offload_run C r) m (pending_offloads m ! r) = Inr q"
    and m': "m' = q\<lparr>pending_offloads := (pending_offloads q)[r := []]\<rparr>"
    using accounts_replicas [OF assms(1)] by (auto simp: offload_def bind_r_eq_Inr pool_at_eq)
  have "accounts X q \<and> same_requests m q"
  proof (rule fold_r_invariant [OF run])
    fix a hs b
    assume "accounts X a \<and> same_requests m a" "offload_run C r a hs = Inr b"
    then show "accounts X b \<and> same_requests m b"
      using offload_run_inv [of X a r C hs b] r by (auto simp: same_requests_def)
  qed (use assms(1) in simp)
  moreover from this have "length (pending_offloads q) = num_replicas q"
    using accounts_shape [of X q] by (simp add: bm_shape_def)
  ultimately show ?thesis
    unfolding m' by (intro accounts_offloads) simp_all
qed

subsection \<open>Prefix-cache lookup\<close>

lemma concat_snd_add:
  "set (concat (map snd (AList.update k (dget [] al k @ [x]) al))) = insert x (set (concat (map snd al)))"
  by (induction al) (auto simp: dget_def)

text \<open>Destinations of cross-replica copies are among the blocks found.\<close>

definition copies_within :: "copies \<Rightarrow> bid set \<Rightarrow> bool" where
  "copies_within pending B \<longleftrightarrow> (\<lambda>e. fst (snd e)) ` set (concat (map snd pending)) \<subseteq> B"

lemma copies_within_add:
  assumes "copies_within pending B"
  shows "copies_within (AList.update k (dget [] pending k @ [(h, dst, src)]) pending) (insert dst B)"
  using assms unfolding copies_within_def concat_snd_add by auto

lemma copies_within_mono: "copies_within pending B \<Longrightarrow> B \<subseteq> B' \<Longrightarrow> copies_within pending B'"
  by (auto simp: copies_within_def)

lemma touch_cached_inv:
  assumes "accounts X m" and r: "r < num_replicas m" and "map_of (prefix_cache (device_block_pools m ! r)) h = Some b"
    and "touch b (device_block_pools m ! r) = Inr p"
  shows "accounts (X(r := X r + {#b#})) (set_pool r p m)"
proof -
  note tr = accounts_pool [OF assms(1) r]
  have "b < total_num_blocks (device_block_pools m ! r)" using pool_invD(6) [OF tracks_inv [OF tr(1)]] assms(3) by blast
  note t = tracks_touch [OF tr(1) this assms(4)]
  show ?thesis
    by (rule accounts_set_pool [OF assms(1) r]) (use t tr(2) in simp_all)
qed

lemma device_hits_Cons_cases:
  assumes "device_hits r (h # hs) m blks pending = Inr (m', blks', pending')"
  obtains (stop) "m' = m" "blks' = blks" "pending' = pending"
    | (hit) b p where "map_of (prefix_cache (device_block_pools m ! r)) h = Some b" "touch b (device_block_pools m ! r) = Inr p"
        "device_hits r hs (set_pool r p m) (blks @ [b]) pending = Inr (m', blks', pending')"
    | (copy) sr src dst m1 where "allocate_device_block r m = Inr (dst, m1)"
        "device_hits r hs m1 (blks @ [dst]) (AList.update sr (dget [] pending sr @ [(h, dst, src)]) pending) =
           Inr (m', blks', pending')"
  using assms by (auto simp: bind_r_eq_Inr pool_at_eq split: if_splits option.splits)

lemma device_hits_inv:
  assumes "accounts X m" and "r < num_replicas m" and "device_hits r hs m blks pending = Inr (m', blks', pending')"
    and "copies_within pending (set blks)"
  shows "\<exists>found. blks' = blks @ found \<and> accounts (X(r := X r + mset found)) m' \<and> same_requests m m' \<and>
    copies_within pending' (set blks') \<and> conn_state m' = conn_state m \<and> length found \<le> length hs"
  using assms
proof (induction hs arbitrary: m X blks pending)
  case Nil
  then show ?case by (intro exI [of _ "[]"]) simp
next
  case (Cons h hs)
  have extend: ?case if "accounts (X(r := X r + {#b#})) m1" "same_requests m m1" "conn_state m1 = conn_state m"
      "r < num_replicas m1" "device_hits r hs m1 (blks @ [b]) pending1 = Inr (m', blks', pending')"
      "copies_within pending1 (set (blks @ [b]))" for b m1 pending1
  proof -
    from Cons.IH [OF that(1,4-6)] obtain found where "blks' = (blks @ [b]) @ found"
        "accounts ((X(r := X r + {#b#}))(r := (X(r := X r + {#b#})) r + mset found)) m'" "same_requests m1 m'"
        "copies_within pending' (set blks')" "conn_state m' = conn_state m1" "length found \<le> length hs"
      by blast
    then have f: "blks' = blks @ b # found" "accounts (X(r := X r + mset (b # found))) m'" "same_requests m1 m'"
        "copies_within pending' (set blks')" "conn_state m' = conn_state m1" "length (b # found) \<le> length (h # hs)"
      by simp_all
    have "same_requests m m'" by (rule same_requests_trans [OF that(2) f(3)])
    with f that(3) show ?thesis by metis
  qed
  from Cons.prems(3) show ?case
  proof (cases rule: device_hits_Cons_cases)
    case stop
    then show ?thesis using Cons.prems(1,4) by (intro exI [of _ "[]"]) simp
  next
    case (hit b p)
    show ?thesis
    proof (rule extend [OF touch_cached_inv [OF Cons.prems(1,2) hit(1,2)] same_requests_set_pool _ _ hit(3)])
      show "copies_within pending (set (blks @ [b]))" by (rule copies_within_mono [OF Cons.prems(4)]) auto
    qed (use Cons.prems(2) in simp_all)
  next
    case (copy sr src dst m1)
    note a = allocate_device_blocks_inv [OF Cons.prems(1) allocate_device_block_many [OF copy(1)]]
    show ?thesis
    proof (rule extend [OF _ _ _ _ copy(2)])
      show "copies_within (AList.update sr (dget [] pending sr @ [(h, dst, src)]) pending) (set (blks @ [dst]))"
        using copies_within_add [OF Cons.prems(4)] by simp
      show "same_requests m m1" using a(2) by (auto intro: same_requests_set_pool)
    qed (use a(1,2) Cons.prems(2) in auto)
  qed
qed

lemma publish_copies_tracks:
  assumes "pool_tracks p H" and "copies_within pending (set_mset H)" and "publish_copies pending p = Inr p'"
  shows "pool_tracks p' H \<and> total_num_blocks p' = total_num_blocks p"
proof (rule fold_r_invariant [OF assms(3) [unfolded publish_copies_def],
      where I = "\<lambda>q. pool_tracks q H \<and> total_num_blocks q = total_num_blocks p"])
  fix q e q'
  assume q: "pool_tracks q H \<and> total_num_blocks q = total_num_blocks p"
    and e: "e \<in> set (concat (map snd pending))" and run: "(case e of (h, dst, _) \<Rightarrow> commit_into_prefix_cache h dst q) = Inr q'"
  obtain h dst src where [simp]: "e = (h, dst, src)" by (cases e)
  have "dst \<in># H" using e assms(2) unfolding copies_within_def by force
  from tracks_commit_held [of q H dst h q', OF _ this] q run
  show "pool_tracks q' H \<and> total_num_blocks q' = total_num_blocks p" by simp
qed (use assms(1) in simp)

lemma device_lookup_inv:
  assumes "accounts X m" and r: "r < num_replicas m" and "get_full_blocks_from_device_prefix_cache hs r m = Inr (found, m')"
  shows "accounts (X(r := X r + mset found)) m'" and "same_requests m m'" and "conn_state m' = conn_state m"
    and "length found \<le> length hs"
proof -
  have "accounts (X(r := X r + mset found)) m' \<and> same_requests m m' \<and> conn_state m' = conn_state m \<and> length found \<le> length hs"
  proof (cases "only_last_level_cache m")
    case True
    with assms show ?thesis by (simp add: get_full_blocks_from_device_prefix_cache_def fun_upd_idem)
  next
    case False
    with assms(3) obtain m1 pending p where h: "device_hits r hs m [] [] = Inr (m1, found, pending)"
      and p: "publish_copies pending (device_block_pools m1 ! r) = Inr p" and m': "m' = set_pool r p m1"
      by (auto simp: get_full_blocks_from_device_prefix_cache_def bind_r_eq_Inr pool_at_eq)
    have a: "accounts (X(r := X r + mset found)) m1" "same_requests m m1" "copies_within pending (set found)"
      "conn_state m1 = conn_state m" "length found \<le> length hs"
      using device_hits_inv [OF assms(1,2) h] by (auto simp: copies_within_def)
    have r1: "r < num_replicas m1" using r a(2) by (simp add: same_requests_def)
    note tr = accounts_pool [OF a(1) r1]
    have "copies_within pending (set_mset (held m1 r + (X(r := X r + mset found)) r))"
      by (rule copies_within_mono [OF a(3)]) auto
    note pub = publish_copies_tracks [OF tr(1) this p]
    have "accounts ((X(r := X r + mset found))(r := X r + mset found)) m'"
      unfolding m' by (rule accounts_set_pool [OF a(1) r1]) (use pub tr(2) in simp_all)
    with a show ?thesis by (auto simp: m' intro: same_requests_trans)
  qed
  then show "accounts (X(r := X r + mset found)) m'" and "same_requests m m'" and "conn_state m' = conn_state m"
    and "length found \<le> length hs" by simp_all
qed

lemma receive_load_inv:
  assumes "accounts (X(r := X r + mset blks)) m" and r: "r < num_replicas m"
    and lt: "set blks \<subseteq> {..<bm_total_num_blocks m}"
    and "receive_load C r blks ds ev m = Inr ((found, e), m')"
  shows "accounts (X(r := X r + mset found)) m' \<and> same_requests m m' \<and> length found \<le> length blks"
proof -
  define l where "l = length (g0_blocks ev)"
  from assms(4) [unfolded receive_load_def Let_def, folded l_def]
  obtain p where fr: "free_blocks_in_order (drop l blks) (device_block_pools m ! r) = Inr p"
    and fin: "(if take l blks = [] then Inr (([], CompletedTransfer LOAD []), set_pool r p m)
         else if is_complete C (conn_state (set_pool r p m)) ev then
           raise_if (length (take l blks) \<noteq> length (take l ds)) ValueError
           (bind_r (fold_r (commit_loaded (only_last_level_cache (set_pool r p m))) p (zip (take l blks) (take l ds))) (\<lambda>pool.
              Inr ((take l blks, ev), set_pool r pool (set_pool r p m))))
         else
           bind_r (track_transfer ev (take l blks) r (Some (take l ds)) (set_pool r p m)) (\<lambda>m.
             Inr ((take l blks, ev), m))) = Inr ((found, e), m')"
    by (auto simp: bind_r_eq_Inr pool_at_eq)
  have parts: "mset blks = mset (take l blks) + mset (drop l blks)" by (metis append_take_drop_id mset_append)
  have sub: "mset (drop l blks) \<subseteq># held m r + (X(r := X r + mset blks)) r" by (simp add: parts)
  have p: "pool_tracks p (held m r + (X r + mset (take l blks)))" "total_num_blocks p = bm_total_num_blocks m"
    using free_in_order_inv [OF assms(1) r sub fr] by (simp_all add: parts)
  have a: "accounts (X(r := X r + mset (take l blks))) (set_pool r p m)"
    using accounts_set_pool [OF assms(1) r p] by simp
  consider "found = []" "take l blks = []" "m' = set_pool r p m"
    | q where "found = take l blks" "fold_r (commit_loaded (only_last_level_cache m)) p (zip (take l blks) (take l ds)) = Inr q"
      "m' = set_pool r q (set_pool r p m)"
    | "found = take l blks" "track_transfer ev (take l blks) r (Some (take l ds)) (set_pool r p m) = Inr m'"
    using fin by (auto simp: bind_r_eq_Inr raise_if_eq_Inr split: if_splits)
  then show ?thesis
  proof cases
    case 1
    with a show ?thesis by simp
  next
    case (2 q)
    have "pool_tracks q (held m r + (X r + mset (take l blks))) \<and> total_num_blocks q = total_num_blocks p"
      by (rule commit_loop_tracks [OF p(1) _ _ 2(2)])
        (auto simp: commit_loaded_def assert_r_eq_Inr split: if_splits dest: in_set_takeD)
    moreover have "held (set_pool r p m) r = held m r" by (rule held_cong) simp_all
    ultimately have "accounts ((X(r := X r + mset (take l blks)))(r := X r + mset (take l blks))) m'"
      unfolding 2(3) by (intro accounts_set_pool [OF a]) (use r p(2) in auto)
    with 2 show ?thesis by (simp add: same_requests_def)
  next
    case 3
    have "set (take l blks) \<subseteq> {..<bm_total_num_blocks (set_pool r p m)}"
      using lt set_take_subset [of l blks] by auto
    from track_transfer_inv [OF a _ this 3(2)] r 3 show ?thesis
      by (auto intro: same_requests_trans)
  qed
qed

lemma host_lookup_inv:
  assumes "accounts X m" and r: "r < num_replicas m"
    and "get_full_blocks_from_host_prefix_cache C hs r m = Inr ((found, e), m')"
  shows "accounts (X(r := X r + mset found)) m' \<and> same_requests m m' \<and> length found \<le> length hs"
proof (cases "hs = []")
  case True
  with assms show ?thesis
    by (auto simp: get_full_blocks_from_host_prefix_cache_def bind_r_eq_Inr pool_at_eq)
next
  case False
  define n where "n = nat (min (int (length hs)) (pool_num_free_blocks (device_block_pools m ! r)))"
  from False assms(3) obtain blks m1 where al: "allocate_device_blocks n r m = Inr (blks, m1)"
    and "(case conn_load C blks (take n hs) r (conn_state m1) of (ev, k) \<Rightarrow>
      receive_load C r blks (take n hs) ev (m1\<lparr>conn_state := k\<rparr>)) = Inr ((found, e), m')"
    by (auto simp: get_full_blocks_from_host_prefix_cache_def bind_r_eq_Inr pool_at_eq Let_def n_def)
  then obtain ev k where rest: "receive_load C r blks (take n hs) ev (m1\<lparr>conn_state := k\<rparr>) = Inr ((found, e), m')"
    by (auto split: prod.splits)
  note a = allocate_device_blocks_inv [OF assms(1) al]
  have s: "same_requests m (m1\<lparr>conn_state := k\<rparr>)" using a(2) by (auto simp: same_requests_def)
  have "length blks \<le> length hs" using a(3) by (simp add: n_def)
  with receive_load_inv [of X r blks "m1\<lparr>conn_state := k\<rparr>", OF _ _ _ rest] a r s show ?thesis
    by (auto simp: same_requests_def)
qed

lemma lookup_inv:
  assumes "accounts X m" and rep: "map_of (req_to_replica m) (rid ctx) = Some r" and r: "r < num_replicas m"
    and "get_full_blocks_from_prefix_cache C ctx m = Inr ((found, e), m')"
  shows "accounts (X(r := X r + mset found)) m' \<and> same_requests m m' \<and>
    length found \<le> length (drop (nat (num_committed_blocks m (rid ctx))) (hashes_of m (rid ctx)))"
proof -
  let ?hs = "drop (nat (num_committed_blocks m (rid ctx))) (hashes_of m (rid ctx))"
  from assms(4) rep obtain dev m1 where d: "get_full_blocks_from_device_prefix_cache ?hs r m = Inr (dev, m1)"
    by (auto simp: get_full_blocks_from_prefix_cache_def Let_def result_Inr replica_of_eq)
  from assms(4) rep d have rest: "(found = dev \<and> m' = m1) \<or>
      (\<exists>host ev m2. get_full_blocks_from_host_prefix_cache C (drop (length dev) ?hs) r m1 = Inr ((host, ev), m2) \<and>
       found = dev @ host \<and> (\<exists>k. m' = m2\<lparr>conn_state := k\<rparr>))"
    by (auto simp: get_full_blocks_from_prefix_cache_def Let_def result_Inr replica_of_eq same_conn simp del: drop_drop
        split: if_splits)
  note dv = device_lookup_inv [OF assms(1) r d]
  have r1: "r < num_replicas m1" using r dv(2) by (simp add: same_requests_def)
  from rest show ?thesis
  proof (elim disjE exE conjE)
    fix host ev m2 k
    assume h: "get_full_blocks_from_host_prefix_cache C (drop (length dev) ?hs) r m1 = Inr ((host, ev), m2)"
      and f: "found = dev @ host"
    note hv = host_lookup_inv [OF dv(1) r1 h]
    have l: "length dev + length host \<le> length ?hs" using hv dv(4) by auto
    have s: "same_requests m m2" using same_requests_trans dv(2) hv by blast
    have a: "accounts (X(r := X r + mset found)) m2" using hv by (simp add: f add.assoc)
    assume "m' = m2\<lparr>conn_state := k\<rparr>"
    then show ?thesis using l s a f by (auto intro: same_requests_trans)
  qed (use dv in auto)
qed

subsection \<open>Committing and adopting\<close>

lemma commit_block_tracks:
  assumes "pool_tracks p (Y + mset bs)" and "commit_block hs (p, bs) idx = Inr (p', bs')"
  shows "pool_tracks p' (Y + mset bs') \<and> total_num_blocks p' = total_num_blocks p \<and> length bs' = length bs"
proof -
  let ?k = "nat (seq_pos bs idx)"
  from assms(2) obtain h r where k: "seq_has bs idx" and gc: "get_or_commit_into_prefix_cache h (bs ! ?k) p = Inr (r, p')"
    and bs': "bs' = (case r of None \<Rightarrow> bs | Some c \<Rightarrow> bs[?k := c])"
    by (auto simp: commit_block_def py_index_def py_store_def result_Inr split: option.splits)
  have lt: "?k < length bs" using k by (auto simp: seq_simps)
  then have mem: "bs ! ?k \<in># Y + mset bs" by simp
  note t = tracks_get_or_commit [OF assms(1) mem gc]
  have "add_mset c (Y + mset bs - {#bs ! ?k#}) = Y + mset (bs[?k := c])" for c
    using lt by (simp add: mset_update)
  moreover have "add_mset (bs ! ?k) (Y + mset bs - {#bs ! ?k#}) = Y + mset bs" using mem by (rule insert_DiffM)
  ultimately show ?thesis using t(1,2) bs' by (auto split: option.splits)
qed

lemma record_commit_inv:
  assumes "accounts X m"
  shows "accounts X (record_commit i r nc n m)"
proof -
  have "length (pending_offloads m) = num_replicas m" using accounts_shape [OF assms] by (simp add: bm_shape_def)
  then show ?thesis using assms by (simp add: record_commit_def Let_def accounts_offloads)
qed

lemma commit_to_prefix_cache_inv:
  assumes "accounts X m" and "commit_to_prefix_cache ctx m = Inr m'"
  shows "accounts X m'"
proof -
  let ?i = "rid ctx"
  from assms(2) obtain r p bs where r: "map_of (req_to_replica m) ?i = Some r" "r < num_replicas m"
    and run: "fold_r (commit_block (hashes_of m ?i)) (device_block_pools m ! r, blocks_of m ?i)
      [num_committed_blocks m ?i..num_computed_blocks ctx m - 1] = Inr (p, bs)"
    and m': "m' = record_commit ?i r (num_committed_blocks m ?i) (num_computed_blocks ctx m) (set_blocks ?i bs (set_pool r p m))"
    using accounts_replicas [OF assms(1)]
    by (auto simp: commit_to_prefix_cache_def Let_def bind_r_eq_Inr replica_of_eq pool_at_eq)
  have cl: "?i \<in> claimed m r" using r by (simp add: claimed_def)
  define Y where "Y = (\<Sum>j\<in>claimed m r - {?i}. mset (blocks_of m j)) + pinned m r + X r"
  have Y: "held m r + X r = Y + mset (blocks_of m ?i)" using held_split [OF cl] by (simp add: Y_def add_ac)
  note tr = accounts_pool [OF assms(1) r(2)]
  have "pool_tracks p (Y + mset bs) \<and> total_num_blocks p = bm_total_num_blocks m"
  proof -
    have "case (p, bs) of (p, bs) \<Rightarrow> pool_tracks p (Y + mset bs) \<and> total_num_blocks p = bm_total_num_blocks m"
    proof (rule fold_r_invariant [OF run])
      fix st idx st'
      assume "case st of (p, bs) \<Rightarrow> pool_tracks p (Y + mset bs) \<and> total_num_blocks p = bm_total_num_blocks m"
        "commit_block (hashes_of m ?i) st idx = Inr st'"
      then show "case st' of (p, bs) \<Rightarrow> pool_tracks p (Y + mset bs) \<and> total_num_blocks p = bm_total_num_blocks m"
        using commit_block_tracks [of "fst st" Y "snd st" "hashes_of m ?i" idx "fst st'" "snd st'"] by auto
    qed (use tr Y in simp)
    then show ?thesis by simp
  qed
  moreover have "held (set_blocks ?i bs m) r + X r = Y + mset bs"
  proof -
    let ?H = "held (set_blocks ?i bs m) r" and ?B = "mset (blocks_of m ?i)"
    have "(?H + X r) + ?B = (?H + ?B) + X r" by (simp only: add_ac)
    also have "\<dots> = (held m r + X r) + mset bs" by (simp only: held_set_blocks [OF cl] add_ac)
    also have "\<dots> = (Y + mset bs) + ?B" unfolding Y by (simp only: add_ac)
    finally show ?thesis by simp
  qed
  ultimately have p: "pool_tracks p (held (set_blocks ?i bs m) r + X r)" "total_num_blocks p = bm_total_num_blocks m"
    by simp_all
  have "accounts X (set_blocks ?i bs (set_pool r p m))"
  proof -
    have hs: "held (set_blocks ?i bs m) s = held m s" if "s \<noteq> r" for s
      using that r by (intro held_set_blocks_other) (auto simp: claimed_def)
    have "held (set_blocks ?i bs (set_pool r p m)) s = held (set_blocks ?i bs m) s" for s
      unfolding set_pool_set_blocks [symmetric] by (rule held_cong) simp_all
    with p hs assms(1) r show ?thesis
      by (auto simp: accounts_def bm_shape_def nth_list_update set_blocks_def distinct_update dget_def update_conv')
  qed
  then show ?thesis unfolding m' by (rule record_commit_inv)
qed

lemma compute_hashes_inv:
  assumes "accounts X m" and "compute_hashes_for_request P ctx m = Inr m'"
  shows "accounts X m'"
  using assms by (auto simp: compute_hashes_for_request_def Let_def bind_r_eq_Inr)

lemma adopt_blocks_inv:
  assumes "accounts (X(r := X r + mset found)) m" and rep: "map_of (req_to_replica m) (rid ctx) = Some r"
    and r: "r < num_replicas m" and "adopt_blocks ctx found m = Inr (skip, ctx', m')"
  shows "accounts X m'"
proof (cases "found = []")
  case True
  with assms show ?thesis by (auto simp: adopt_blocks_def)
next
  case False
  with assms(4) obtain c m1 d where ru: "release_uncommitted_blocks ctx m = Inr (c, m1)"
    and m': "m' = (set_blocks (rid ctx) (blocks_of m1 (rid ctx) @ found) m1)\<lparr>req_to_committed_idx := d\<rparr>"
    by (auto simp: adopt_blocks_def Let_def result_Inr)
  note a = release_uncommitted_inv [OF assms(1) ru]
  have same: "req_to_replica m1 = req_to_replica m" "num_replicas m1 = num_replicas m"
    by (rule release_uncommitted_runs [OF assms(1) ru], simp)+
  have "accounts ((X(r := X r + mset found))(r := X r)) (set_blocks (rid ctx) (blocks_of m1 (rid ctx) @ found) m1)"
    by (rule accounts_set_blocks [OF a]) (use rep r same in simp_all)
  then show ?thesis by (simp add: m')
qed

lemma lookup_out_of_range:
  assumes "map_of (req_to_replica m) (rid ctx) = Some r" and "\<not> r < length (device_block_pools m)"
    and "get_full_blocks_from_prefix_cache C ctx m = Inr ((found, e), m')"
  shows "found = [] \<and> m' = m"
proof -
  have pool: "pool_at s m = Inl IndexError" if "s = r" for s using assms(2) that by (simp add: pool_at_def)
  have "device_hits r hs m [] [] = (if hs = [] then Inr (m, [], []) else Inl IndexError)" for hs
    by (cases hs) (simp_all add: pool)
  with assms(1,3) show ?thesis
    by (auto simp: get_full_blocks_from_prefix_cache_def get_full_blocks_from_device_prefix_cache_def
        get_full_blocks_from_host_prefix_cache_def pool replica_of_def Let_def result_Inr split: if_splits)
qed

lemma reuse_inv:
  assumes "accounts X m" and "reuse_blocks_from_prefix_cache P C ctx m = Inr (out, ctx', m')"
  shows "accounts X m'"
proof (cases "m' = m")
  case False
  with assms(2) obtain r m1 found e m2 where rep: "map_of (req_to_replica m) (rid ctx) = Some r"
    and h: "compute_hashes_for_request P ctx m = Inr m1"
    and l: "get_full_blocks_from_prefix_cache C ctx m1 = Inr ((found, e), m2)"
    and ad: "adopt_blocks ctx found m2 = Inr (fst out, ctx', m')"
    by (auto simp: reuse_blocks_from_prefix_cache_def bind_r_eq_Inr replica_of_eq split: if_splits)
  have a1: "accounts X m1" by (rule compute_hashes_inv [OF assms(1) h])
  have rep1: "map_of (req_to_replica m1) (rid ctx) = Some r" "num_replicas m1 = num_replicas m"
    using h rep by (auto simp: compute_hashes_for_request_def Let_def bind_r_eq_Inr)
  show ?thesis
  proof (cases "r < num_replicas m1")
    case True
    note lk = lookup_inv [OF a1 rep1(1) True l]
    show ?thesis
      by (rule adopt_blocks_inv [OF _ _ _ ad, of X r]) (use lk rep1 True in \<open>auto simp: same_requests_def\<close>)
  next
    case False
    with lookup_out_of_range [OF rep1(1) _ l] accounts_replicas [OF a1] ad a1 show ?thesis
      by (auto simp: adopt_blocks_def)
  qed
qed (use assms in simp)

lemma step_inv:
  assumes "accounts X m" and "step P ctx m = Inr m'"
  shows "accounts X m'"
  using assms commit_to_prefix_cache_inv compute_hashes_inv
  by (fastforce simp: step_def bind_r_eq_Inr split: if_splits)

lemma reset_prefix_cache_inv:
  assumes "accounts X m" and "bm_reset_prefix_cache m = Inr m'"
  shows "accounts X m'"
proof -
  have "accounts X m' \<and> num_replicas m' = num_replicas m"
  proof (rule fold_r_invariant [OF assms(2) [unfolded bm_reset_prefix_cache_def]])
    fix q r q'
    assume q: "accounts X q \<and> num_replicas q = num_replicas m" and rr: "r \<in> set [0..<length (device_block_pools m)]"
      and run: "bind_r (pool_at r q) (\<lambda>p. bind_r (pool_reset_prefix_cache p) (\<lambda>p. Inr (set_pool r p q))) = Inr q'"
    then have r: "r < num_replicas q" using accounts_replicas [OF assms(1)] by simp
    from run obtain p where p: "pool_reset_prefix_cache (device_block_pools q ! r) = Inr p" "q' = set_pool r p q"
      by (auto simp: bind_r_eq_Inr pool_at_eq)
    have a: "accounts X q" using q by simp
    have "accounts (X(r := X r)) q'"
      unfolding p(2)
      by (rule accounts_set_pool [OF a r])
        (use tracks_reset [OF accounts_pool(1) [OF a r]] accounts_pool(2) [OF a r] p(1) in auto)
    then show "accounts X q' \<and> num_replicas q' = num_replicas m" using q p(2) by simp
  qed (use assms(1) in simp)
  then show ?thesis by simp
qed

section \<open>Runs of the manager\<close>

text \<open>
  Any sequence of the scheduler's calls, for any requests, with the connector's state changing
  arbitrarily between calls (copies land, the tiers evict).
\<close>

datatype ('m, 'l, 'k) manager_op =
    Claim "('m, 'l) any_context" nat | Step "('m, 'l) any_context" | Reuse "('m, 'l) any_context"
  | Allocate "('m, 'l) any_context" int int | Release "('m, 'l) any_context"
  | ReleaseUncommitted "('m, 'l) any_context" | RegisterDummy "('m, 'l) any_context"
  | Offload nat | Poll | ResetPrefixCache | ConnectorMoves 'k

fun manager_exec ::
  "hash_prims \<Rightarrow> 'k kv_connector \<Rightarrow> 'k block_manager \<Rightarrow> ('m, 'l, 'k) manager_op \<Rightarrow> 'k block_manager result" where
  "manager_exec P C m (Claim ctx r) = claim ctx r m"
| "manager_exec P C m (Step ctx) = step P ctx m"
| "manager_exec P C m (Reuse ctx) = bind_r (reuse_blocks_from_prefix_cache P C ctx m) (\<lambda>(_, _, m). Inr m)"
| "manager_exec P C m (Allocate ctx d s) = allocate_new_blocks ctx d s m"
| "manager_exec P C m (Release ctx) = release ctx m"
| "manager_exec P C m (ReleaseUncommitted ctx) = bind_r (release_uncommitted_blocks ctx m) (\<lambda>(_, m). Inr m)"
| "manager_exec P C m (RegisterDummy ctx) = register_dummy_request ctx m"
| "manager_exec P C m (Offload r) = offload C r m"
| "manager_exec P C m Poll = poll_transfers C m"
| "manager_exec P C m ResetPrefixCache = bm_reset_prefix_cache m"
| "manager_exec P C m (ConnectorMoves k) = Inr (m\<lparr>conn_state := k\<rparr>)"

lemma manager_exec_inv:
  assumes "bm_inv m" and "manager_exec P C m op = Inr m'"
  shows "bm_inv m'"
  using assms unfolding bm_inv_def
  by (cases op) (auto simp: bind_r_eq_Inr intro: claim_inv step_inv reuse_inv allocate_new_blocks_inv release_inv
      release_uncommitted_inv register_dummy_inv offload_inv poll_transfers_inv(1) reset_prefix_cache_inv)

lemma manager_run_inv:
  assumes "bm_inv m" and "fold_r (manager_exec P C) m ops = Inr m'"
  shows "bm_inv m'"
  by (rule fold_r_invariant [OF assms(2), where I = bm_inv]) (use assms(1) manager_exec_inv in blast)+

text \<open>No call changes the number of replicas or the size of a pool.\<close>

definition same_size :: "'k block_manager \<Rightarrow> 'k block_manager \<Rightarrow> bool" where
  "same_size m m' \<longleftrightarrow> num_replicas m' = num_replicas m \<and> bm_total_num_blocks m' = bm_total_num_blocks m"

lemma same_requests_size: "same_requests m m' \<Longrightarrow> same_size m m'"
  by (simp add: same_requests_def same_size_def)

lemma same_size_trans: "same_size a b \<Longrightarrow> same_size b c \<Longrightarrow> same_size a c"
  by (simp add: same_size_def)

lemma reset_prefix_cache_size:
  assumes "bm_reset_prefix_cache m = Inr m'"
  shows "same_size m m'"
  by (rule fold_r_invariant [OF assms [unfolded bm_reset_prefix_cache_def], where I = "same_size m"])
    (auto simp: same_size_def bind_r_eq_Inr)

lemma offload_size:
  assumes "accounts X m" and "offload C r m = Inr m'"
  shows "same_size m m'"
proof -
  from assms(2) obtain q where r: "r < num_replicas m"
    and run: "fold_r (offload_run C r) m (pending_offloads m ! r) = Inr q"
    and m': "m' = q\<lparr>pending_offloads := (pending_offloads q)[r := []]\<rparr>"
    using accounts_replicas [OF assms(1)] by (auto simp: offload_def bind_r_eq_Inr pool_at_eq)
  have "accounts X q \<and> same_size m q"
  proof (rule fold_r_invariant [OF run])
    fix a hs b
    assume "accounts X a \<and> same_size m a" "offload_run C r a hs = Inr b"
    then show "accounts X b \<and> same_size m b"
      using offload_run_inv [of X a r C hs b] r by (auto simp: same_requests_def same_size_def)
  qed (use assms(1) in \<open>simp add: same_size_def\<close>)
  then show ?thesis by (simp add: m' same_size_def)
qed

lemma adopt_blocks_size:
  assumes "adopt_blocks ctx found m = Inr (skip, ctx', m')"
  shows "same_size m m'"
  using assms by (auto simp: adopt_blocks_def release_uncommitted_blocks_def Let_def result_Inr same_size_def split: if_splits)

lemma reuse_size:
  assumes "accounts X m" and "reuse_blocks_from_prefix_cache P C ctx m = Inr (out, ctx', m')"
  shows "same_size m m'"
proof (cases "m' = m")
  case False
  with assms(2) obtain r m1 found e m2 where rep: "map_of (req_to_replica m) (rid ctx) = Some r"
    and h: "compute_hashes_for_request P ctx m = Inr m1"
    and l: "get_full_blocks_from_prefix_cache C ctx m1 = Inr ((found, e), m2)"
    and ad: "adopt_blocks ctx found m2 = Inr (fst out, ctx', m')"
    by (auto simp: reuse_blocks_from_prefix_cache_def bind_r_eq_Inr replica_of_eq split: if_splits)
  have a1: "accounts X m1" by (rule compute_hashes_inv [OF assms(1) h])
  have s1: "map_of (req_to_replica m1) (rid ctx) = Some r" "same_size m m1"
    using h rep by (auto simp: compute_hashes_for_request_def Let_def bind_r_eq_Inr same_size_def)
  have "same_size m1 m2"
  proof (cases "r < num_replicas m1")
    case True
    from lookup_inv [OF a1 s1(1) True l] show ?thesis by (simp add: same_requests_size)
  next
    case False
    with lookup_out_of_range [OF s1(1) _ l] accounts_replicas [OF a1] show ?thesis by (simp add: same_size_def)
  qed
  with s1(2) adopt_blocks_size [OF ad] show ?thesis by (blast intro: same_size_trans)
qed (simp add: same_size_def)

lemma manager_exec_size:
  assumes "bm_inv m" and "manager_exec P C m op = Inr m'"
  shows "same_size m m'"
proof -
  have a: "accounts none_loose m" using assms(1) by (simp add: bm_inv_def)
  note defs = same_size_def bind_r_eq_Inr Let_def result_Inr
  show ?thesis
  proof (cases op)
    case (Reuse ctx)
    with assms(2) show ?thesis by (auto simp: bind_r_eq_Inr dest: reuse_size [OF a])
  next
    case (Offload r)
    with assms(2) show ?thesis by (auto dest: offload_size [OF a])
  next
    case Poll
    with assms(2) poll_transfers_inv(2) [OF a] show ?thesis by (simp add: same_requests_size)
  next
    case ResetPrefixCache
    with assms(2) show ?thesis by (simp add: reset_prefix_cache_size)
  next
    case (Claim ctx r)
    with assms(2) show ?thesis by (auto simp: claim_def defs)
  next
    case (Step ctx)
    with assms(2) show ?thesis
      by (auto simp: step_def commit_to_prefix_cache_def compute_hashes_for_request_def record_commit_def defs split: if_splits)
  next
    case (Allocate ctx d s)
    with assms(2) show ?thesis by (auto simp: allocate_new_blocks_def allocate_device_blocks_def defs)
  next
    case (Release ctx)
    with assms(2) show ?thesis by (auto simp: release_def defs)
  next
    case (ReleaseUncommitted ctx)
    with assms(2) show ?thesis by (auto simp: release_uncommitted_blocks_def defs)
  next
    case (RegisterDummy ctx)
    with assms(2) show ?thesis by (auto simp: register_dummy_request_def defs)
  next
    case (ConnectorMoves k)
    with assms(2) show ?thesis by (auto simp: defs)
  qed
qed

lemma manager_run_size:
  assumes "bm_inv m" and "fold_r (manager_exec P C) m ops = Inr m'"
  shows "bm_inv m' \<and> same_size m m'"
proof (rule fold_r_invariant [OF assms(2), where I = "\<lambda>q. bm_inv q \<and> same_size m q"])
  show "bm_inv m \<and> same_size m m" using assms(1) by (simp add: same_size_def)
qed (blast intro: manager_exec_inv manager_exec_size same_size_trans)

end
