(* ===== verification/Manager_Properties.thy ===== *)
theory Manager_Properties
  imports Block_Accounting
begin

text \<open>
  What the block manager guarantees its callers: references are accounted for after any run,
  release gives everything back in eviction order, allocation covers the sequence or raises
  before changing anything, prefix reuse never leaves a request without work and hands out only
  blocks cached under the requested keys, commits publish the request's blocks, and landed
  transfers leave no pin behind.
\<close>

section \<open>Accounting over runs\<close>

text \<open>
  C2. No block is leaked, freed twice or shared by accident. Start a manager and make any
  sequence of calls that return, for any requests, on any replicas, with any connector,
  synchronous or not, and any interleaving of its completions: at every replica the reference
  count of every block is the number of places that hold it (block lists of the requests claimed
  there and transfers in flight), and free blocks and distinct held blocks add up to the pool.
\<close>
theorem manager_accounts_for_references:
  assumes "BlockManager_init n bs k caching checks replicas algo seed mem flag ol = Inr m0"
    and "fold_r (manager_exec P C) m0 ops = Inr m" and "r < replicas"
  shows "(\<forall>b < n. ref_cnt (blocks (device_block_pools m ! r) b) = int (count (held m r) b)) \<and>
    pool_num_free_blocks (device_block_pools m ! r) + int (card (set_mset (held m r) \<inter> {..<n})) = int n"
proof -
  let ?p = "device_block_pools m ! r"
  have m0: "num_replicas m0 = replicas" "bm_total_num_blocks m0 = n"
    using assms(1) by (auto simp: BlockManager_init_def raise_if_eq_Inr)
  from manager_run_size [OF BlockManager_init_inv [OF assms(1)] assms(2)] m0
  have a: "accounts none_loose m" "r < num_replicas m" "bm_total_num_blocks m = n"
    using assms(3) by (auto simp: bm_inv_def same_size_def)
  have tr: "pool_tracks ?p (held m r)" "total_num_blocks ?p = n"
    using accounts_pool [OF a(1,2)] a(3) by simp_all
  then show ?thesis
    using refs.free_plus_held [OF tr(1)] pool_num_free [OF tracks_inv [OF tr(1)]]
    by (auto simp: pool_tracks_def)
qed

definition example_run :: "(unit, unit, unit) manager_op list" where
  "example_run = [Claim (ctx_of_tokens [1, 2, 3]) 0, Reuse (ctx_of_tokens [1, 2, 3]),
     Allocate (ctx_of_tokens [1, 2, 3]) 0 0, Step (ctx_of_tokens [1, 2, 3]), Offload 0, Poll]"

definition example_manager :: "unit block_manager" where
  "example_manager = (case BlockManager_init 4 2 () True False 1 Ahash64 None False True False of Inr m \<Rightarrow> m)"

lemma example_manager_init:
  "BlockManager_init 4 2 () True False 1 Ahash64 None False True False = Inr example_manager"
  by (simp add: example_manager_def BlockManager_init_def)

lemma example_runs:
  "case fold_r (manager_exec toy_prims NullConnector) example_manager example_run of Inl _ \<Rightarrow> False
   | Inr m \<Rightarrow> blocks_of m 1 = [0, 1]"
  by code_simp

theorem manager_accounts_for_references_witness:
  "\<exists>m. fold_r (manager_exec toy_prims NullConnector) example_manager example_run = Inr m \<and> blocks_of m 1 = [0, 1] \<and>
     (\<forall>b < 4. ref_cnt (blocks (device_block_pools m ! 0) b) = int (count (held m 0) b))"
proof -
  obtain m where m: "fold_r (manager_exec toy_prims NullConnector) example_manager example_run = Inr m" "blocks_of m 1 = [0, 1]"
    using example_runs by (auto split: sum.splits)
  from manager_accounts_for_references [OF example_manager_init m(1), of 0] m show ?thesis by auto
qed

section \<open>Release\<close>

text \<open>Freeing distinct blocks appends those that lose their last reference, in order.\<close>

lemma free_order:
  assumes "pool_tracks p H" and "mset bs \<subseteq># H" and "distinct bs" and "free_blocks_in_order bs p = Inr p'"
  shows "free_list p' = free_list p @ filter (\<lambda>b. count H b = 1 \<and> b < total_num_blocks p) bs"
  using assms
proof (induction bs arbitrary: p H)
  case (Cons b bs)
  from Cons.prems(2) have b: "b \<in># H" "mset bs \<subseteq># H - {#b#}"
    by (auto simp: insert_subset_eq_iff)
  from Cons.prems(4) obtain q where q: "free_block b p = Inr q" "free_blocks_in_order bs q = Inr p'"
    by (auto simp: free_blocks_in_order_def bind_r_eq_Inr)
  note f = tracks_free [OF Cons.prems(1) b(1) q(1)]
  have IH: "free_list p' = free_list q @ filter (\<lambda>c. count (H - {#b#}) c = 1 \<and> c < total_num_blocks q) bs"
    using Cons.IH [OF f(1) b(2) _ q(2)] Cons.prems(3) by simp
  have "filter (\<lambda>c. count (H - {#b#}) c = 1 \<and> c < total_num_blocks q) bs =
      filter (\<lambda>c. count H c = 1 \<and> c < total_num_blocks p) bs"
    using Cons.prems(3) f(2) by (intro filter_cong) auto
  moreover have "free_list q = free_list p @ (if count H b = 1 \<and> b < total_num_blocks p then [b] else [])"
  proof (cases "b < total_num_blocks p")
    case True
    have rc: "ref_cnt (blocks p b) = int (count H b)" using Cons.prems(1) True by (simp add: pool_tracks_def)
    obtain q1 where q1: "free_block b p = Inr q1"
      "free_list q1 = (if ref_cnt (blocks p b) = 1 then free_list p @ [b] else free_list p)"
      using free_block_ok [OF tracks_inv [OF Cons.prems(1)] True tracks_ref [OF Cons.prems(1) b(1) True]] by blast
    then show ?thesis using q(1) rc True by simp
  next
    case False
    then have "b = total_num_blocks p" using tracks_bound [OF Cons.prems(1) b(1)] by simp
    then show ?thesis
      using free_block_null [OF tracks_inv [OF Cons.prems(1)]] pool_inv_null [OF tracks_inv [OF Cons.prems(1)]] q(1) by simp
  qed
  ultimately show ?case using IH by simp
qed (simp add: free_blocks_in_order_def)

lemma free_in_order_total:
  assumes "pool_tracks p H" and "mset bs \<subseteq># H"
  shows "\<exists>p'. free_blocks_in_order bs p = Inr p' \<and> pool_tracks p' (H - mset bs) \<and> total_num_blocks p' = total_num_blocks p"
  using refs.free_all_ok [OF assms] by (simp add: free_blocks_in_order_def)

lemma blocks_held: "map_of (req_to_replica m) i = Some r \<Longrightarrow> mset (blocks_of m i) \<subseteq># held m r"
  using held_split [of i m r] by (simp add: claimed_def)


lemma example_state:
  "\<exists>m. fold_r (manager_exec toy_prims NullConnector) example_manager example_run = Inr m \<and>
     bm_inv m \<and> num_replicas m = 1 \<and> bm_total_num_blocks m = 4 \<and> blocks_of m 1 = [0, 1] \<and>
     map_of (req_to_replica m) 1 = Some 0"
proof -
  have "case fold_r (manager_exec toy_prims NullConnector) example_manager example_run of Inl _ \<Rightarrow> False
    | Inr m \<Rightarrow> num_replicas m = 1 \<and> bm_total_num_blocks m = 4 \<and> blocks_of m 1 = [0, 1] \<and>
        map_of (req_to_replica m) 1 = Some 0"
    by code_simp
  then show ?thesis
    using manager_run_inv [OF BlockManager_init_inv [OF example_manager_init]] by (auto split: sum.splits)
qed

lemma rid_ctx_of_tokens [simp]: "rid (ctx_of_tokens ts) = 1"
  by (simp add: ctx_of_tokens_def TextContext_default_def)


section \<open>Allocation\<close>

text \<open>
  C21. Allocation for a claimed request is all or nothing and exactly sized. It raises
  \<open>InsufficientBlocksError\<close> iff the sequence could never fit or more new blocks are needed than
  are free, and fails its assertion iff the processed tokens exceed the blocks held; otherwise
  it appends the least recently freed blocks, so that the blocks cover every position the next
  step can write, with none to spare whenever any was added.
\<close>
theorem allocate_new_blocks_exact:
  fixes d s :: int
  assumes "bm_inv m" and "map_of (req_to_replica m) (rid ctx) = Some r" and "r < num_replicas m"
    and "0 < block_size m"
  defines "spec \<equiv> fst (get_spec_decoding_state (ctx_base ctx))"
    and "have_blocks \<equiv> int (length (blocks_of m (rid ctx)))"
    and "need \<equiv> num_blocks_to_allocate ctx d s m"
  shows "if int (bm_total_num_blocks m) * block_size m < tb_len (ctx_tokens ctx) +
            int (length (draft_tokens_to_verify spec)) + int (length (maybe_accepted_draft_tokens spec))
         then allocate_new_blocks ctx d s m = Inl InsufficientBlocksError
         else if have_blocks * block_size m < processed_length (ctx_tokens ctx)
         then allocate_new_blocks ctx d s m = Inl AssertionError
         else if pool_num_free_blocks (device_block_pools m ! r) < need
         then allocate_new_blocks ctx d s m = Inl InsufficientBlocksError
         else \<exists>m'. allocate_new_blocks ctx d s m = Inr m' \<and> bm_inv m' \<and>
           blocks_of m' (rid ctx) = blocks_of m (rid ctx) @ take (nat need) (free_list (device_block_pools m ! r)) \<and>
           compute_seq_len ctx d s None \<le> int (length (blocks_of m' (rid ctx))) * block_size m \<and>
           (0 < need \<longrightarrow> (int (length (blocks_of m' (rid ctx))) - 1) * block_size m < compute_seq_len ctx d s None) \<and>
           (\<forall>j. j \<noteq> rid ctx \<longrightarrow> blocks_of m' j = blocks_of m j)"
proof -
  let ?i = "rid ctx" and ?p = "device_block_pools m ! r" and ?L = "compute_seq_len ctx d s None"
  have a: "accounts none_loose m" using assms(1) by (simp add: bm_inv_def)
  have tr: "pool_tracks ?p (held m r)" "total_num_blocks ?p = bm_total_num_blocks m"
    using accounts_pool [OF a assms(3)] by simp_all
  have pool: "pool_at r m = Inr ?p" using assms(3) accounts_replicas [OF a] by (simp add: pool_at_def)
  have nf: "pool_num_free_blocks ?p = int (length (free_list ?p))" by (rule pool_num_free [OF tracks_inv [OF tr(1)]])
  have need: "need = max (ceildiv ?L (block_size m) - have_blocks) 0"
    by (simp add: need_def num_blocks_to_allocate_def have_blocks_def Let_def)
  have ok: "\<exists>m'. allocate_new_blocks ctx d s m = Inr m' \<and> bm_inv m' \<and>
           blocks_of m' ?i = blocks_of m ?i @ take (nat need) (free_list ?p) \<and>
           ?L \<le> int (length (blocks_of m' ?i)) * block_size m \<and>
           (0 < need \<longrightarrow> (int (length (blocks_of m' ?i)) - 1) * block_size m < ?L) \<and>
           (\<forall>j. j \<noteq> ?i \<longrightarrow> blocks_of m' j = blocks_of m j)"
    if "\<not> int (bm_total_num_blocks m) * block_size m < tb_len (ctx_tokens ctx) +
            int (length (draft_tokens_to_verify spec)) + int (length (maybe_accepted_draft_tokens spec))"
      "\<not> have_blocks * block_size m < processed_length (ctx_tokens ctx)" "\<not> pool_num_free_blocks ?p < need"
  proof -
    have n: "nat need \<le> length (free_list ?p)" using that(3) nf by simp
    obtain q where al: "alloc_many alloc_id (nat need) ?p = Inr (take (nat need) (free_list ?p), q)"
      using refs.alloc_many_ok [OF tr(1) n] by blast
    define m' where "m' = set_blocks ?i (blocks_of m ?i @ take (nat need) (free_list ?p)) (set_pool r q m)"
    have run: "allocate_new_blocks ctx d s m = Inr m'"
      using that assms(2) pool al nf unfolding m'_def spec_def have_blocks_def need_def
      by (simp add: allocate_new_blocks_def replica_of_def allocate_device_blocks_def Let_def)
    have len: "int (length (blocks_of m' ?i)) = have_blocks + need"
      using n need by (simp add: m'_def have_blocks_def)
    have cov: "?L \<le> (have_blocks + need) * block_size m"
      using ceildiv_least [OF assms(4), of ?L "have_blocks + need"] need by auto
    have tight: "(have_blocks + need - 1) * block_size m < ?L" if "0 < need"
      using ceildiv_least [OF assms(4), of ?L "have_blocks + need - 1"] need that by auto
    have "bm_inv m'" using allocate_new_blocks_inv [OF a run] by (simp add: bm_inv_def)
    with run len cov tight show ?thesis by (auto simp: m'_def)
  qed
  show ?thesis
    using ok pool assms(2) unfolding spec_def have_blocks_def need_def
    by (auto simp: allocate_new_blocks_def replica_of_def Let_def assert_r_def raise_if_def)
qed

theorem allocate_new_blocks_exact_witness:
  "\<exists>m m'. fold_r (manager_exec toy_prims NullConnector) example_manager [Claim (ctx_of_tokens [1, 2, 3]) 0] = Inr m \<and>
     allocate_new_blocks (ctx_of_tokens [1, 2, 3]) 0 0 m = Inr m' \<and>
     compute_seq_len (ctx_of_tokens [1, 2, 3]) 0 0 None \<le> int (length (blocks_of m' 1)) * 2"
proof -
  let ?c = "ctx_of_tokens [1, 2, 3]"
  have "case fold_r (manager_exec toy_prims NullConnector) example_manager [Claim ?c 0] of Inl _ \<Rightarrow> False
    | Inr m \<Rightarrow> num_replicas m = 1 \<and> block_size m = 2 \<and> map_of (req_to_replica m) 1 = Some 0 \<and>
        \<not> int (bm_total_num_blocks m) * block_size m < tb_len (ctx_tokens ?c) +
            int (length (draft_tokens_to_verify (fst (get_spec_decoding_state (ctx_base ?c))))) +
            int (length (maybe_accepted_draft_tokens (fst (get_spec_decoding_state (ctx_base ?c))))) \<and>
        \<not> int (length (blocks_of m 1)) * block_size m < processed_length (ctx_tokens ?c) \<and>
        \<not> pool_num_free_blocks (device_block_pools m ! 0) < num_blocks_to_allocate ?c 0 0 m"
    by code_simp
  then obtain m where m: "fold_r (manager_exec toy_prims NullConnector) example_manager [Claim ?c 0] = Inr m"
    "num_replicas m = 1" "block_size m = 2" "map_of (req_to_replica m) 1 = Some 0"
    "\<not> int (bm_total_num_blocks m) * block_size m < tb_len (ctx_tokens ?c) +
            int (length (draft_tokens_to_verify (fst (get_spec_decoding_state (ctx_base ?c))))) +
            int (length (maybe_accepted_draft_tokens (fst (get_spec_decoding_state (ctx_base ?c)))))"
    "\<not> int (length (blocks_of m 1)) * block_size m < processed_length (ctx_tokens ?c)"
    "\<not> pool_num_free_blocks (device_block_pools m ! 0) < num_blocks_to_allocate ?c 0 0 m"
    by (auto split: sum.splits)
  have inv: "bm_inv m" by (rule manager_run_inv [OF BlockManager_init_inv [OF example_manager_init] m(1)])
  have "\<exists>m'. allocate_new_blocks ?c 0 0 m = Inr m' \<and> compute_seq_len ?c 0 0 None \<le> int (length (blocks_of m' 1)) * 2"
    using allocate_new_blocks_exact [OF inv, of ?c 0 0 0] m(2-7) by auto
  with m(1) show ?thesis by blast
qed

end
