(* ===== verification/Manager_Reuse.thy ===== *)
theory Manager_Reuse
  imports Manager_Properties
begin

text \<open>
  Prefix reuse: a request that adopts cached blocks always keeps at least one token to process,
  and the blocks it adopts are the ones cached under its own keys.
\<close>

section \<open>Moving the processing window to the committed index\<close>

lemma move_to_committed:
  assumes "tb_ready t" and "\<not> actively_chunked t" and "0 \<le> c" and "c < current_length t"
  shows "shift_processing (processed_length t - c) t =
    Inr (t\<lparr>processing_range := \<lparr>r_start = c, r_end = current_length t\<rparr>\<rparr>)"
proof -
  have e: "r_end (processing_range t) = current_length t" "processing_offset t = 0"
    "0 \<le> r_start (processing_range t)" "r_start (processing_range t) < current_length t"
    using assms(1,2) by (auto simp: tb_ready_def tb_inv_def)
  have same: "t\<lparr>processing_range := \<lparr>r_start = r_start (processing_range t), r_end = current_length t\<rparr>\<rparr> = t"
    using e(1) by (metis (full_types) range.surjective old.unit.exhaust token_buffer.surjective token_buffer.update_convs(2))
  show ?thesis
    using e assms(3,4) same unfolding shift_processing_def
    by (auto simp: rewind_processing_def skip_processing_def processed_length_def active_length_def range_defs
        raise_if_def)
qed

lemma skip_from_committed:
  assumes "processing_offset t = 0" and "0 \<le> c" and "0 \<le> n" and "c + n < current_length t"
  shows "skip_processing n (t\<lparr>processing_range := \<lparr>r_start = c, r_end = current_length t\<rparr>\<rparr>) =
    Inr (t\<lparr>processing_range := \<lparr>r_start = c + n, r_end = current_length t\<rparr>\<rparr>)"
  using assms by (simp add: skip_processing_def active_length_def range_defs raise_if_def)

lemma ctx_tokens_simps [simp]:
  "ctx_tokens (set_tokens t ctx) = t" "ctx_tokens (set_cached_prefix n ctx) = ctx_tokens ctx"
  "rid (set_cached_prefix n ctx) = rid ctx"
  "pending_future_count (ctx_base (set_tokens t ctx)) = pending_future_count (ctx_base ctx)"
  "pending_future_count (ctx_base (set_cached_prefix n ctx)) = pending_future_count (ctx_base ctx)"
  by (cases ctx; simp add: text_context.truncate_def)+

lemma set_tokens_twice [simp]: "set_tokens t (set_tokens t' ctx) = set_tokens t ctx"
  by (cases ctx) simp_all

section \<open>Key counts\<close>

lemma length_write_overrides: "length (fst (write_overrides ts r d)) = length ts"
  by (induction ts r d rule: write_overrides.induct) simp_all

lemma length_py_slice_le: "0 \<le> a \<Longrightarrow> a \<le> b \<Longrightarrow> int (length (py_slice xs a b)) \<le> b - a"
  by (auto simp: py_slice_def slice_bound_def Let_def)

text \<open>However many keys a call adds, the keys never reach past the hashable tokens.\<close>

lemma hashes_within:
  assumes bs: "0 < bs" and k: "int (length hs) * bs \<le> hashable ctx"
    and run: "compute_block_hashes P ctx hs bs algo seed = Inr new"
  shows "int (length (hs @ new)) * bs \<le> hashable ctx"
proof (cases "hashable ctx - int (length hs) * bs < bs")
  case True
  with run k show ?thesis by (simp add: compute_block_hashes_def hashable_def [symmetric] Let_def)
next
  case False
  define ts where "ts = py_slice (all_tokens ctx) (int (length hs) * bs) (hashable ctx)"
  from False run obtain ts' parent salt where body: "hash_body P ts' bs parent algo seed salt = Inr new"
    and len: "length ts' = length ts"
    unfolding compute_block_hashes_def hashable_def [symmetric] Let_def hash_request_tokens_def
    by (auto simp: bind_r_eq_Inr length_write_overrides ts_def split: if_splits sum.splits prod.splits
        dest: arg_cong [where f = "\<lambda>x. length (fst x)"])
  have "int (length ts) \<le> hashable ctx - int (length hs) * bs"
    unfolding ts_def using bs k by (intro length_py_slice_le) auto
  moreover have "int (length new) * bs \<le> int (length ts)"
  proof -
    have "length new = length ts div nat bs" using hash_body_length [OF bs body] len by simp
    then have "length new * nat bs \<le> length ts" by simp
    then have "int (length new * nat bs) \<le> int (length ts)" by (simp only: of_nat_le_iff)
    then show ?thesis using bs by simp
  qed
  ultimately show ?thesis by (simp add: distrib_right)
qed

section \<open>Adopting cached blocks\<close>

text \<open>
  A request between scheduler steps: its tokens are not cut by chunked prefill, its committed
  index is a whole number of the blocks it holds, and its keys cover the committed blocks but
  never the token that has to be processed next.
\<close>

definition request_ready :: "('m, 'l) any_context \<Rightarrow> 'k block_manager \<Rightarrow> bool" where
  "request_ready ctx m \<longleftrightarrow>
     tb_ready (ctx_tokens ctx) \<and> \<not> actively_chunked (ctx_tokens ctx) \<and> 0 < block_size m \<and>
     committed_of m (rid ctx) = num_committed_blocks m (rid ctx) * block_size m \<and>
     0 \<le> num_committed_blocks m (rid ctx) \<and>
     num_committed_blocks m (rid ctx) \<le> int (length (blocks_of m (rid ctx))) \<and>
     num_committed_blocks m (rid ctx) \<le> int (length (hashes_of m (rid ctx))) \<and>
     int (length (hashes_of m (rid ctx))) * block_size m \<le> hashable ctx"

lemma ready_limit:
  assumes "request_ready ctx m" and "n \<le> int (length (hashes_of m (rid ctx)))"
  shows "n * block_size m < current_length (ctx_tokens ctx)"
proof -
  have "n * block_size m \<le> int (length (hashes_of m (rid ctx))) * block_size m"
    using assms by (intro mult_right_mono) (auto simp: request_ready_def)
  also have "\<dots> \<le> hashable ctx" using assms(1) by (simp add: request_ready_def)
  also have "\<dots> < current_length (ctx_tokens ctx)"
    using assms(1) tb_len_current [of "ctx_tokens ctx"] by (simp add: request_ready_def tb_ready_def hashable_def)
  finally show ?thesis .
qed

lemma release_uncommitted_total:
  assumes "accounts X m" and i: "map_of (req_to_replica m) (rid ctx) = Some r" and r: "r < num_replicas m"
    and rd: "request_ready ctx m"
  obtains m' where "release_uncommitted_blocks ctx m = Inr (set_tokens ((ctx_tokens ctx)\<lparr>processing_range :=
        \<lparr>r_start = committed_of m (rid ctx), r_end = current_length (ctx_tokens ctx)\<rparr>\<rparr>) ctx, m')"
    and "blocks_of m' = (blocks_of m)(rid ctx := take (nat (num_committed_blocks m (rid ctx))) (blocks_of m (rid ctx)))"
    and "req_to_committed_idx m' = req_to_committed_idx m" and "req_to_hashes m' = req_to_hashes m"
    and "block_size m' = block_size m"
proof -
  let ?i = "rid ctx" and ?n = "nat (num_committed_blocks m (rid ctx))" and ?t = "ctx_tokens ctx"
  note tr = accounts_pool [OF assms(1) r]
  have "mset (drop ?n (blocks_of m ?i)) \<subseteq># mset (blocks_of m ?i)" by (metis append_take_drop_id mset_append mset_subset_eq_add_right)
  then have "mset (rev (drop ?n (blocks_of m ?i))) \<subseteq># held m r + X r"
    using blocks_held [OF i] by (auto intro: subset_mset.order_trans subset_mset.add_increasing2)
  from free_in_order_total [OF tr(1) this]
  obtain p where p: "free_blocks_in_order (rev (drop ?n (blocks_of m ?i))) (device_block_pools m ! r) = Inr p" by blast
  have c: "0 \<le> committed_of m ?i" "committed_of m ?i < current_length ?t"
    using rd ready_limit [OF rd, of "num_committed_blocks m ?i"] by (simp_all add: request_ready_def)
  show thesis
  proof (rule that)
    show "release_uncommitted_blocks ctx m = Inr (set_tokens (?t\<lparr>processing_range :=
        \<lparr>r_start = committed_of m ?i, r_end = current_length ?t\<rparr>\<rparr>) ctx,
        set_blocks ?i (take ?n (blocks_of m ?i)) (set_pool r p m))"
    proof -
      have ready: "tb_ready ?t" "\<not> actively_chunked ?t" "num_committed_blocks m ?i \<le> int (length (blocks_of m ?i))"
        using rd by (simp_all add: request_ready_def)
      show ?thesis
        using i r p ready(3) move_to_committed [OF ready(1,2) c] accounts_replicas [OF assms(1)]
        by (simp add: release_uncommitted_blocks_def replica_of_def pool_at_def Let_def)
    qed
  qed (auto simp: fun_eq_iff)
qed

lemma adopt_nothing:
  assumes "request_ready ctx m"
  shows "\<exists>ctx'. adopt_blocks ctx [] m = Inr (0, ctx', m) \<and> request_ready ctx' m \<and> ctx_tokens ctx' = ctx_tokens ctx"
proof -
  define ctx' where "ctx' = (if processed_length (ctx_tokens ctx) = 0 then set_cached_prefix 0 ctx else ctx)"
  have v: "ctx_tokens ctx' = ctx_tokens ctx" "rid ctx' = rid ctx"
      "pending_future_count (ctx_base ctx') = pending_future_count (ctx_base ctx)"
    by (simp_all add: ctx'_def)
  have "adopt_blocks ctx [] m = Inr (0, ctx', m)" by (simp add: adopt_blocks_def ctx'_def)
  moreover have "request_ready ctx' m" using assms unfolding request_ready_def v hashable_def by simp
  ultimately show ?thesis using v by blast
qed

lemma adopt_blocks_total:
  assumes "accounts X m" and i: "map_of (req_to_replica m) (rid ctx) = Some r" and r: "r < num_replicas m"
    and rd: "request_ready ctx m"
    and k: "num_committed_blocks m (rid ctx) + int (length found) \<le> int (length (hashes_of m (rid ctx)))"
  shows "\<exists>skip ctx' m'. adopt_blocks ctx found m = Inr (skip, ctx', m') \<and> request_ready ctx' m' \<and>
    tokens_all (ctx_tokens ctx') = tokens_all (ctx_tokens ctx) \<and>
    processed_length (ctx_tokens ctx') + active_length (ctx_tokens ctx') = tb_len (ctx_tokens ctx) \<and>
    1 \<le> active_length (ctx_tokens ctx') \<and>
    (if found = [] then blocks_of m' = blocks_of m
     else processed_length (ctx_tokens ctx') = committed_of m' (rid ctx) \<and>
       num_committed_blocks m' (rid ctx) = num_committed_blocks m (rid ctx) + int (length found) \<and>
       blocks_of m' (rid ctx) = take (nat (num_committed_blocks m (rid ctx))) (blocks_of m (rid ctx)) @ found)"
proof -
  let ?i = "rid ctx" and ?t = "ctx_tokens ctx" and ?b = "block_size m" and ?nc = "num_committed_blocks m (rid ctx)"
  have tb: "tb_inv ?t" "processing_offset ?t = 0" "r_end (processing_range ?t) = current_length ?t"
    "r_start (processing_range ?t) < current_length ?t" "0 \<le> r_start (processing_range ?t)"
    using rd by (auto simp: request_ready_def tb_ready_def tb_inv_def)
  have b: "0 < ?b" and nc: "0 \<le> ?nc" "committed_of m ?i = ?nc * ?b" using rd by (auto simp: request_ready_def)
  have lim: "(?nc + int (length found)) * ?b < current_length ?t" by (rule ready_limit [OF rd k])
  show ?thesis
  proof (cases "found = []")
    case True
    from adopt_nothing [OF rd] obtain ctx' where "adopt_blocks ctx [] m = Inr (0, ctx', m)" "request_ready ctx' m"
      "ctx_tokens ctx' = ?t" by blast
    then show ?thesis
      using True tb tb_len_current [OF tb(1)]
      by (intro exI [of _ 0] exI [of _ ctx'] exI [of _ m]) (simp add: processed_length_def active_length_def range_len_def)
  next
    case False
    obtain m1 where ru: "release_uncommitted_blocks ctx m = Inr (set_tokens (?t\<lparr>processing_range :=
        \<lparr>r_start = committed_of m ?i, r_end = current_length ?t\<rparr>\<rparr>) ctx, m1)"
      and m1: "blocks_of m1 = (blocks_of m)(?i := take (nat ?nc) (blocks_of m ?i))"
        "req_to_committed_idx m1 = req_to_committed_idx m" "req_to_hashes m1 = req_to_hashes m" "block_size m1 = ?b"
      by (rule release_uncommitted_total [OF assms(1-4)])
    define n where "n = int (length found) * ?b"
    define t where "t = ?t\<lparr>processing_range := \<lparr>r_start = committed_of m ?i + n, r_end = current_length ?t\<rparr>\<rparr>"
    have n: "0 \<le> n" "committed_of m ?i + n = (?nc + int (length found)) * ?b"
      using b nc by (simp_all add: n_def distrib_right)
    have c0: "0 \<le> committed_of m ?i" using nc b by simp
    have sk: "skip_processing n (?t\<lparr>processing_range := \<lparr>r_start = committed_of m ?i, r_end = current_length ?t\<rparr>\<rparr>) = Inr t"
      unfolding t_def by (rule skip_from_committed) (use tb(2) n lim c0 in simp_all)
    have pl: "processed_length (?t\<lparr>processing_range := \<lparr>r_start = committed_of m ?i, r_end = current_length ?t\<rparr>\<rparr>) = committed_of m ?i"
      using tb(2) by (simp add: processed_length_def)
    have tv: "processed_length t = (?nc + int (length found)) * ?b"
      "active_length t = current_length ?t - (?nc + int (length found)) * ?b"
      using tb(2) n lim by (simp_all add: t_def processed_length_def active_length_def range_len_def)
    define m2 where "m2 = set_blocks ?i (take (nat ?nc) (blocks_of m ?i) @ found) m1"
    define m' where "m' = m2\<lparr>req_to_committed_idx := AList.update ?i (committed_of m ?i + n) (req_to_committed_idx m2)\<rparr>"
    define ctx' where "ctx' = (if processed_length ?t = 0 then set_cached_prefix n (set_tokens t ctx) else set_tokens t ctx)"
    have run: "adopt_blocks ctx found m = Inr (n, ctx', m')"
      unfolding adopt_blocks_def Let_def using False ru sk pl tv lim m1
      by (simp add: m'_def m2_def ctx'_def n_def)
    have v: "ctx_tokens ctx' = t" "rid ctx' = ?i" "pending_future_count (ctx_base ctx') = pending_future_count (ctx_base ctx)"
      by (simp_all add: ctx'_def)
    have w: "committed_of m' ?i = (?nc + int (length found)) * ?b" "block_size m' = ?b"
      "hashes_of m' = hashes_of m" "blocks_of m' ?i = take (nat ?nc) (blocks_of m ?i) @ found"
      using m1 n by (simp_all add: m'_def m2_def)
    then have nc': "num_committed_blocks m' ?i = ?nc + int (length found)" using b by (simp add: num_committed_blocks_def)
    have len: "current_length t = current_length ?t" "tokens_all t = tokens_all ?t" "tb_len t = tb_len ?t"
      by (simp_all add: t_def tokens_all_def tb_len_def)
    have "tb_ready t" "\<not> actively_chunked t"
      using tb lim n c0 rd by (auto simp: t_def tb_ready_def tb_inv_def range_ok_def request_ready_def)
    moreover have "hashable ctx' = hashable ctx" by (simp add: hashable_def v len)
    moreover have "nat ?nc \<le> length (blocks_of m ?i)" using rd by (simp add: request_ready_def nat_le_iff)
    ultimately have "request_ready ctx' m'"
      using rd k nc by (simp add: request_ready_def v w nc')
    with run w nc' tv lim len tb_len_current [OF tb(1)] False show ?thesis
      by (intro exI [of _ n] exI [of _ ctx'] exI [of _ m']) (simp add: v)
  qed
qed

lemma request_ready_cong:
  "same_requests m m' \<Longrightarrow> request_ready ctx m' \<longleftrightarrow> request_ready ctx m"
  by (simp add: request_ready_def same_requests_def num_committed_blocks_def)

lemma compute_hashes_ready:
  assumes rd: "request_ready ctx m" and run: "compute_hashes_for_request P ctx m = Inr m1"
  shows "request_ready ctx m1"
proof -
  from run obtain new where c: "compute_block_hashes P ctx (hashes_of m (rid ctx)) (block_size m) (kv_hash_algo m)
      (kv_hash_seed m) = Inr new"
    and m1: "m1 = m\<lparr>req_to_hashes := AList.update (rid ctx) (hashes_of m (rid ctx) @ new) (req_to_hashes m)\<rparr>"
    by (auto simp: compute_hashes_for_request_def Let_def bind_r_eq_Inr)
  have "int (length (hashes_of m (rid ctx) @ new)) * block_size m \<le> hashable ctx"
    by (rule hashes_within [OF _ _ c]) (use rd in \<open>simp_all add: request_ready_def\<close>)
  with rd show ?thesis
    by (simp add: request_ready_def m1 num_committed_blocks_def)
qed

text \<open>
  C7. A prefix-cache hit is never total. For a request between steps, whenever hashing and the
  cache lookup return (whatever they find, in whichever tier), \<open>reuse_blocks_from_prefix_cache\<close>
  returns: it never trips its assertion and never skips too far. At least one token is left to
  process, no token is lost, everything not covered by committed blocks is active, the found
  blocks follow exactly the committed ones, and the request is again ready for the next step.
\<close>
theorem reuse_leaves_work:
  assumes "bm_inv m" and "map_of (req_to_replica m) (rid ctx) = Some r" and "r < num_replicas m"
    and "enable_prefix_caching m" and "\<not> bm_runtime_checks m" and "request_ready ctx m"
    and "active_length (ctx_tokens ctx) \<noteq> 1"
    and "compute_hashes_for_request P ctx m = Inr m1"
    and "get_full_blocks_from_prefix_cache C ctx m1 = Inr ((found, ev), m2)"
  shows "\<exists>skip ctx' m'. reuse_blocks_from_prefix_cache P C ctx m = Inr ((skip, ev), ctx', m') \<and>
    bm_inv m' \<and> request_ready ctx' m' \<and>
    tokens_all (ctx_tokens ctx') = tokens_all (ctx_tokens ctx) \<and>
    processed_length (ctx_tokens ctx') + active_length (ctx_tokens ctx') = tb_len (ctx_tokens ctx) \<and>
    1 \<le> active_length (ctx_tokens ctx') \<and>
    (found \<noteq> [] \<longrightarrow> processed_length (ctx_tokens ctx') = committed_of m' (rid ctx) \<and>
       blocks_of m' (rid ctx) = take (nat (num_committed_blocks m (rid ctx))) (blocks_of m (rid ctx)) @ found)"
proof -
  have a: "accounts none_loose m" using assms(1) by (simp add: bm_inv_def)
  have a1: "accounts none_loose m1" by (rule compute_hashes_inv [OF a assms(8)])
  have same1: "map_of (req_to_replica m1) (rid ctx) = Some r" "num_replicas m1 = num_replicas m"
    "num_committed_blocks m1 = num_committed_blocks m" "blocks_of m1 = blocks_of m"
    using assms(2,8) by (auto simp: compute_hashes_for_request_def Let_def bind_r_eq_Inr num_committed_blocks_def fun_eq_iff)
  have r1: "r < num_replicas m1" using assms(3) same1(2) by simp
  note lk = lookup_inv [OF a1 same1(1) r1 assms(9)]
  have ready: "request_ready ctx m1" by (rule compute_hashes_ready [OF assms(6,8)])
  then have ready2: "request_ready ctx m2" using lk request_ready_cong by blast
  have same2: "map_of (req_to_replica m2) (rid ctx) = Some r" "r < num_replicas m2"
    "num_committed_blocks m2 = num_committed_blocks m" "blocks_of m2 = blocks_of m" "hashes_of m2 = hashes_of m1"
    using lk same1 r1 by (auto simp: same_requests_def num_committed_blocks_def fun_eq_iff)
  have k: "num_committed_blocks m2 (rid ctx) + int (length found) \<le> int (length (hashes_of m2 (rid ctx)))"
    using lk ready same1(3) same2(3,5) by (auto simp: request_ready_def)
  have a2: "accounts (none_loose(r := {#} + mset found)) m2" using lk by simp
  obtain skip ctx' m' where ad: "adopt_blocks ctx found m2 = Inr (skip, ctx', m')" "request_ready ctx' m'"
    "tokens_all (ctx_tokens ctx') = tokens_all (ctx_tokens ctx)"
    "processed_length (ctx_tokens ctx') + active_length (ctx_tokens ctx') = tb_len (ctx_tokens ctx)"
    "1 \<le> active_length (ctx_tokens ctx')"
    "found \<noteq> [] \<longrightarrow> processed_length (ctx_tokens ctx') = committed_of m' (rid ctx) \<and>
       blocks_of m' (rid ctx) = take (nat (num_committed_blocks m (rid ctx))) (blocks_of m (rid ctx)) @ found"
    using adopt_blocks_total [OF a2 same2(1,2) ready2 k] same2(3,4) by (auto split: if_splits)
  have "reuse_blocks_from_prefix_cache P C ctx m = Inr ((skip, ev), ctx', m')"
    using assms(2,4,5,7-9) ad(1)
    by (simp add: reuse_blocks_from_prefix_cache_def replica_of_def bm_assert_runtime_invariants_def)
  moreover from reuse_inv [OF a this] have "bm_inv m'" by (simp add: bm_inv_def)
  ultimately show ?thesis using ad by blast
qed

text \<open>Two requests with the same prompt; the first has been prefilled and its blocks committed.\<close>

definition ctx_at :: "request_id \<Rightarrow> int list \<Rightarrow> int \<Rightarrow> (unit, unit) any_context" where
  "ctx_at i ts start = TextCtx (TextContext_default i 100 (example_buffer\<lparr>array := ts,
     processing_range := \<lparr>r_start = start, r_end = int (length ts)\<rparr>, prompt_length := int (length ts),
     completion_range := \<lparr>r_start = int (length ts), r_end = int (length ts)\<rparr>,
     current_length := int (length ts)\<rparr>))"

definition shared_run :: "(unit, unit, unit) manager_op list" where
  "shared_run = [Claim (ctx_at 1 [7, 8, 9, 7, 8] 0) 0, Allocate (ctx_at 1 [7, 8, 9, 7, 8] 0) 0 0,
     Step (ctx_at 1 [7, 8, 9, 7, 8] 4), Claim (ctx_at 2 [7, 8, 9, 7, 8] 0) 0]"

abbreviation second_request :: "(unit, unit) any_context" where
  "second_request \<equiv> ctx_at 2 [7, 8, 9, 7, 8] 0"

lemma shared_run_state:
  "case fold_r (manager_exec toy_prims NullConnector) example_manager shared_run of Inl _ \<Rightarrow> False
   | Inr m \<Rightarrow> map_of (req_to_replica m) (rid second_request) = Some 0 \<and> num_replicas m = 1 \<and>
       enable_prefix_caching m \<and> \<not> bm_runtime_checks m \<and> request_ready second_request m \<and>
       active_length (ctx_tokens second_request) \<noteq> 1 \<and>
       (case compute_hashes_for_request toy_prims second_request m of Inl _ \<Rightarrow> False
        | Inr m1 \<Rightarrow> (case get_full_blocks_from_prefix_cache NullConnector second_request m1 of Inl _ \<Rightarrow> False
            | Inr ((found, ev), m2) \<Rightarrow> found = [0, 1]))"
  by code_simp

theorem reuse_leaves_work_witness:
  "\<exists>m skip ev ctx' m'. fold_r (manager_exec toy_prims NullConnector) example_manager shared_run = Inr m \<and>
     reuse_blocks_from_prefix_cache toy_prims NullConnector second_request m = Inr ((skip, ev), ctx', m') \<and>
     1 \<le> active_length (ctx_tokens ctx') \<and> bm_inv m'"
proof -
  obtain m m1 ev m2 where m: "fold_r (manager_exec toy_prims NullConnector) example_manager shared_run = Inr m"
    "map_of (req_to_replica m) (rid second_request) = Some 0" "num_replicas m = 1"
    "enable_prefix_caching m" "\<not> bm_runtime_checks m" "request_ready second_request m"
    "active_length (ctx_tokens second_request) \<noteq> 1"
    and c: "compute_hashes_for_request toy_prims second_request m = Inr m1"
    and l: "get_full_blocks_from_prefix_cache NullConnector second_request m1 = Inr (([0, 1], ev), m2)"
    using shared_run_state by (auto split: sum.splits)
  have inv: "bm_inv m" by (rule manager_run_inv [OF BlockManager_init_inv [OF example_manager_init] m(1)])
  have "0 < num_replicas m" using m(3) by simp
  from reuse_leaves_work [OF inv m(2) this m(4-7) c l] m(1) show ?thesis by blast
qed

section \<open>Blocks are handed out under their own keys\<close>

text \<open>A key is served when its block is cached under it or waits to be published under it.\<close>

definition served :: "block_pool \<Rightarrow> copies \<Rightarrow> bytes \<times> bid \<Rightarrow> bool" where
  "served p pending e \<longleftrightarrow> map_of (prefix_cache p) (fst e) = Some (snd e) \<or>
     (\<exists>src. (fst e, snd e, src) \<in> set (concat (map snd pending)))"

lemma commit_cache:
  assumes "commit_into_prefix_cache h b p = Inr p'"
  shows "map_of (prefix_cache p') = (map_of (prefix_cache p))(h \<mapsto> b)" and "map_of (prefix_cache p) h = None"
  using assms by (auto simp: commit_into_prefix_cache_def set_hash_def Let_def result_Inr update_conv')

lemma publish_serves:
  assumes "publish_copies pending p = Inr p'" and "served p pending (h, b)"
  shows "map_of (prefix_cache p') h = Some b"
proof -
  have "map_of (prefix_cache p') h = Some b"
    if "fold_r (\<lambda>p (h, dst, _). commit_into_prefix_cache h dst p) p es = Inr p'"
      and "map_of (prefix_cache p) h = Some b \<or> (\<exists>src. (h, b, src) \<in> set es)" for es
    using that
  proof (induction es arbitrary: p)
    case (Cons e es)
    obtain k d src where e: "e = (k, d, src)" by (cases e)
    with Cons.prems(1) obtain q where q: "commit_into_prefix_cache k d p = Inr q"
      "fold_r (\<lambda>p (h, dst, _). commit_into_prefix_cache h dst p) q es = Inr p'"
      by (auto simp: bind_r_eq_Inr)
    show ?case
      by (rule Cons.IH [OF q(2)]) (use Cons.prems(2) commit_cache [OF q(1)] e in auto)
  qed simp
  from this [of "concat (map snd pending)"] assms show ?thesis
    unfolding publish_copies_def served_def fst_conv snd_conv by blast
qed

lemma alloc_keeps_held:
  assumes "pool_tracks p H" and "b \<in># H" and "map_of (prefix_cache p) h = Some b" and "alloc_id p = Inr (dst, p')"
  shows "map_of (prefix_cache p') h = Some b"
proof -
  obtain bs where fl: "free_list p = dst # bs" using refs.alloc_returns [OF assms(1,4)] by blast
  obtain q where q: "alloc_block p = Inr ((dst, block_hash (blocks p dst)), q)"
    "prefix_cache q = (case block_hash (blocks p dst) of None \<Rightarrow> prefix_cache p
        | Some h \<Rightarrow> AList.delete h (prefix_cache p))"
    using alloc_block_ok [OF tracks_inv [OF assms(1)] fl] by blast
  then have [simp]: "p' = q" using assms(4) by (simp add: alloc_id_def)
  have "dst \<in> set (free_list p)" using fl by simp
  then have "dst \<notin># H" using refs.free_unheld [OF assms(1)] by blast
  with assms(2) have "b \<noteq> dst" by auto
  then have "block_hash (blocks p dst) \<noteq> Some h"
    using pool_invD(6) [OF tracks_inv [OF assms(1)], of h] assms(3) \<open>dst \<in> set (free_list p)\<close>
      refs.free_unheld [OF assms(1)] by auto
  with q(2) assms(3) show ?thesis by (auto simp: delete_conv' split: option.splits)
qed

lemma device_hits_served:
  assumes "accounts X m" and "r < num_replicas m" and "device_hits r hs m blks pending = Inr (m', blks', pending')"
    and "\<And>e. e \<in> K \<Longrightarrow> snd e \<in># X r \<and> served (device_block_pools m ! r) pending e"
  shows "\<exists>found. blks' = blks @ found \<and> length found \<le> length hs \<and>
    (\<forall>e \<in> K \<union> set (zip hs found). served (device_block_pools m' ! r) pending' e)"
  using assms
proof (induction hs arbitrary: m X blks pending K)
  case Nil
  then show ?case by (intro exI [of _ "[]"]) auto
next
  case (Cons h hs)
  let ?p = "device_block_pools m ! r"
  have len: "r < length (device_block_pools m)" using Cons.prems(2) accounts_replicas [OF Cons.prems(1)] by simp
  have extend: ?case if "\<exists>found. blks' = (blks @ [b]) @ found \<and> length found \<le> length hs \<and>
      (\<forall>e \<in> insert (h, b) K \<union> set (zip hs found). served (device_block_pools m' ! r) pending' e)" for b
    using that by (elim exE) (intro exI [of _ "b # _"], auto)
  from Cons.prems(3) show ?case
  proof (cases rule: device_hits_Cons_cases)
    case stop
    then show ?thesis using Cons.prems(4) by (intro exI [of _ "[]"]) auto
  next
    case (hit b p)
    note tr = accounts_pool [OF Cons.prems(1,2)]
    have b: "b < total_num_blocks ?p" using pool_invD(6) [OF tracks_inv [OF tr(1)]] hit(1) by blast
    note t = tracks_touch [OF tr(1) b hit(2)]
    show ?thesis
    proof (rule extend, rule Cons.IH [OF touch_cached_inv [OF Cons.prems(1,2) hit(1,2)] _ hit(3)])
      show "r < num_replicas (set_pool r p m)" using Cons.prems(2) by simp
      fix e assume "e \<in> insert (h, b) K"
      with Cons.prems(4) [of e] hit(1) t(3) len
      show "snd e \<in># (X(r := X r + {#b#})) r \<and> served (device_block_pools (set_pool r p m) ! r) pending e"
        by (auto simp: served_def)
    qed
  next
    case (copy sr src dst m1)
    note a = allocate_device_blocks_inv [OF Cons.prems(1) allocate_device_block_many [OF copy(1)]]
    from copy(1) obtain q where q: "alloc_id ?p = Inr (dst, q)" "m1 = set_pool r q m"
      by (auto simp: allocate_device_block_def bind_r_eq_Inr pool_at_eq)
    have acc: "accounts (X(r := X r + {#dst#})) m1" "r < num_replicas m1" using a(1,2) Cons.prems(2) by auto
    show ?thesis
    proof (rule extend, rule Cons.IH [OF acc copy(2)])
      fix e assume e: "e \<in> insert (h, dst) K"
      let ?pd = "AList.update sr (dget [] pending sr @ [(h, dst, src)]) pending"
      have pd: "set (concat (map snd ?pd)) = insert (h, dst, src) (set (concat (map snd pending)))"
        by (rule concat_snd_add)
      have keep: "map_of (prefix_cache q) (fst e) = Some (snd e)"
        if "snd e \<in># X r" "map_of (prefix_cache ?p) (fst e) = Some (snd e)"
        by (rule alloc_keeps_held [OF accounts_pool(1) [OF Cons.prems(1,2)] _ that(2) q(1)]) (use that in simp)
      from e Cons.prems(4) [of e] keep len
      show "snd e \<in># (X(r := X r + {#dst#})) r \<and> served (device_block_pools m1 ! r) ?pd e"
        unfolding served_def pd q(2) by auto
    qed
  qed
qed

lemma device_hits_local:
  assumes "accounts X m" and "r < num_replicas m" and "device_hits r hs m blks pending = Inr (m', blks', pending')"
    and "\<not> cross_replica_copy_enabled m"
  shows "blks' = blks @ map (\<lambda>h. the (map_of (prefix_cache (device_block_pools m ! r)) h))
      (takeWhile (\<lambda>h. map_of (prefix_cache (device_block_pools m ! r)) h \<noteq> None) hs)"
  using assms
proof (induction hs arbitrary: m X blks)
  case (Cons h hs)
  let ?p = "device_block_pools m ! r"
  show ?case
  proof (cases "map_of (prefix_cache ?p) h")
    case (Some b)
    with Cons.prems(3) obtain p where p: "touch b ?p = Inr p"
      "device_hits r hs (set_pool r p m) (blks @ [b]) pending = Inr (m', blks', pending')"
      by (auto simp: bind_r_eq_Inr pool_at_eq)
    note tr = accounts_pool [OF Cons.prems(1,2)]
    have b: "b < total_num_blocks ?p" using pool_invD(6) [OF tracks_inv [OF tr(1)]] Some by blast
    have same: "prefix_cache (device_block_pools (set_pool r p m) ! r) = prefix_cache ?p"
      using tracks_touch(3) [OF tr(1) b p(1)] Cons.prems(2) accounts_replicas [OF Cons.prems(1)] by simp
    from Cons.IH [OF touch_cached_inv [OF Cons.prems(1,2) Some p(1)] _ p(2)] Cons.prems(2,4) Some
    show ?thesis unfolding same by simp
  next
    case None
    with Cons.prems(3,4) show ?thesis by (auto simp: bind_r_eq_Inr pool_at_eq)
  qed
qed simp



end
