(* ===== verification/Manager_Commit.thy ===== *)
theory Manager_Commit
  imports Manager_Reuse
begin

text \<open>
  Committing a request's blocks to the prefix cache, draining landed transfers, and the runtime
  check of the manager.
\<close>

section \<open>Committing\<close>

lemma get_or_commit_cached:
  assumes "get_or_commit_into_prefix_cache h b p = Inr (r, p')" and "map_of (prefix_cache p) h = Some d"
  shows "(case r of None \<Rightarrow> b | Some c \<Rightarrow> c) = d"
  using assms by (auto simp: get_or_commit_into_prefix_cache_def result_Inr split: if_splits)

lemma unhashed_iff:
  "pool_inv p \<Longrightarrow> x < total_num_blocks p \<Longrightarrow> block_hash (blocks p x) = None \<longleftrightarrow> (\<forall>h. map_of (prefix_cache p) h \<noteq> Some x)"
  using pool_invD(6) [of p _ x] by (cases "block_hash (blocks p x)") auto

text \<open>One iteration on an unhashed block.\<close>

lemma commit_block_total:
  assumes tr: "pool_tracks p (Y + mset bs)" and k: "k < length bs" "k < length hs"
    and lt: "bs ! k < total_num_blocks p" and un: "block_hash (blocks p (bs ! k)) = None"
  obtains p' c where "commit_block hs (p, bs) (int k) = Inr (p', bs[k := c])"
    and "pool_tracks p' (Y + mset (bs[k := c]))" and "total_num_blocks p' = total_num_blocks p"
    and "map_of (prefix_cache p') = (map_of (prefix_cache p))(hs ! k \<mapsto> c)"
    and "map_of (prefix_cache p) (hs ! k) = Some c \<or> c = bs ! k \<and> map_of (prefix_cache p) (hs ! k) = None"
proof -
  have mem: "bs ! k \<in># Y + mset bs" using k by simp
  have pos: "0 < ref_cnt (blocks p (bs ! k))" by (rule tracks_ref [OF tr mem lt])
  obtain r p' where run: "get_or_commit_into_prefix_cache (hs ! k) (bs ! k) p = Inr (r, p')"
    using get_or_commit_ok [OF tracks_inv [OF tr] lt disjI1 [OF un] pos] by blast
  define c where "c = (case r of None \<Rightarrow> bs ! k | Some c \<Rightarrow> c)"
  note t = tracks_get_or_commit [OF tr mem run, folded c_def]
  have same: "bs[k := c] = bs" if "r = None" using that by (simp add: c_def)
  have cb: "commit_block hs (p, bs) (int k) = Inr (p', bs[k := c])"
    using run k same by (auto simp: commit_block_def py_index_def py_store_def seq_simps c_def split: option.splits)
  have "r = None" if "map_of (prefix_cache p) (hs ! k) = None"
    using that run by (auto simp: get_or_commit_into_prefix_cache_def result_Inr)
  then have src: "map_of (prefix_cache p) (hs ! k) = Some c \<or> c = bs ! k \<and> map_of (prefix_cache p) (hs ! k) = None"
    using get_or_commit_cached [OF run] by (cases "map_of (prefix_cache p) (hs ! k)") (auto simp: c_def)
  show thesis
  proof (rule that [OF cb _ t(2,4) src])
    show "pool_tracks p' (Y + mset (bs[k := c]))" using t(1) k by (simp add: mset_update)
  qed
qed

lemma commit_loop_total:
  assumes "pool_tracks p (Y + mset bs)" and "b \<le> length bs" and "b \<le> length hs"
    and "\<And>k. a \<le> k \<Longrightarrow> k < b \<Longrightarrow> bs ! k < total_num_blocks p \<and> block_hash (blocks p (bs ! k)) = None"
    and "\<And>j k. a \<le> j \<Longrightarrow> j < k \<Longrightarrow> k < b \<Longrightarrow> bs ! j \<noteq> bs ! k"
  shows "\<exists>p' bs'. fold_r (commit_block hs) (p, bs) (map int [a..<b]) = Inr (p', bs') \<and>
    length bs' = length bs \<and> (\<forall>k. k < a \<or> b \<le> k \<longrightarrow> bs' ! k = bs ! k) \<and>
    (\<forall>k. a \<le> k \<and> k < b \<longrightarrow> map_of (prefix_cache p') (hs ! k) = Some (bs' ! k)) \<and>
    (\<forall>h c. map_of (prefix_cache p) h = Some c \<longrightarrow> map_of (prefix_cache p') h = Some c)"
  using assms
proof (induction "b - a" arbitrary: a p bs)
  case 0
  then show ?case by (intro exI [of _ p] exI [of _ bs]) auto
next
  case (Suc n)
  then have ab: "a < b" by simp
  have a: "a < length bs" "a < length hs" using ab Suc.prems(2,3) by simp_all
  have ba: "bs ! a < total_num_blocks p" "block_hash (blocks p (bs ! a)) = None"
    using Suc.prems(4) [of a] ab by simp_all
  obtain q c where st: "commit_block hs (p, bs) (int a) = Inr (q, bs[a := c])"
    and q: "pool_tracks q (Y + mset (bs[a := c]))" "total_num_blocks q = total_num_blocks p"
      "map_of (prefix_cache q) = (map_of (prefix_cache p))(hs ! a \<mapsto> c)"
    and c: "map_of (prefix_cache p) (hs ! a) = Some c \<or> c = bs ! a \<and> map_of (prefix_cache p) (hs ! a) = None"
    by (rule commit_block_total [OF Suc.prems(1) a ba])
  have un: "bs[a := c] ! k < total_num_blocks q \<and> block_hash (blocks q (bs[a := c] ! k)) = None"
    if "Suc a \<le> k" "k < b" for k
  proof -
    have x: "bs ! k < total_num_blocks p" "block_hash (blocks p (bs ! k)) = None" "bs ! a \<noteq> bs ! k"
      using Suc.prems(4) [of k] Suc.prems(5) [of a k] that by auto
    have "map_of (prefix_cache p) h \<noteq> Some (bs ! k)" for h
      using unhashed_iff [OF tracks_inv [OF Suc.prems(1)] x(1)] x(2) by blast
    then have "map_of (prefix_cache q) h \<noteq> Some (bs ! k)" for h
      using c x(3) q(3) by (auto simp: fun_upd_def split: if_splits)
    with unhashed_iff [OF tracks_inv [OF q(1)], of "bs ! k"] x(1) q(2) that show ?thesis by simp
  qed
  have dist: "bs[a := c] ! j \<noteq> bs[a := c] ! k" if "Suc a \<le> j" "j < k" "k < b" for j k
    using Suc.prems(5) [of j k] that by simp
  have "\<exists>p' bs'. fold_r (commit_block hs) (q, bs[a := c]) (map int [Suc a..<b]) = Inr (p', bs') \<and>
    length bs' = length (bs[a := c]) \<and> (\<forall>k. k < Suc a \<or> b \<le> k \<longrightarrow> bs' ! k = bs[a := c] ! k) \<and>
    (\<forall>k. Suc a \<le> k \<and> k < b \<longrightarrow> map_of (prefix_cache p') (hs ! k) = Some (bs' ! k)) \<and>
    (\<forall>h c. map_of (prefix_cache q) h = Some c \<longrightarrow> map_of (prefix_cache p') h = Some c)"
    by (rule Suc.hyps(1)) (use Suc.hyps(2) q(1) Suc.prems(2,3) un dist in auto)
  then obtain p' bs' where IH: "fold_r (commit_block hs) (q, bs[a := c]) (map int [Suc a..<b]) = Inr (p', bs')"
    "length bs' = length bs" "\<forall>k. k < Suc a \<or> b \<le> k \<longrightarrow> bs' ! k = bs[a := c] ! k"
    "\<forall>k. Suc a \<le> k \<and> k < b \<longrightarrow> map_of (prefix_cache p') (hs ! k) = Some (bs' ! k)"
    "\<forall>h c. map_of (prefix_cache q) h = Some c \<longrightarrow> map_of (prefix_cache p') h = Some c" by auto
  have run: "fold_r (commit_block hs) (p, bs) (map int [a..<b]) = Inr (p', bs')"
    using st IH(1) ab by (simp add: upt_conv_Cons)
  have at: "bs' ! a = c" using IH(3) a by simp
  have keep: "map_of (prefix_cache p') h = Some d" if "map_of (prefix_cache p) h = Some d" for h d
  proof -
    have "map_of (prefix_cache q) h = Some d" using that q(3) c by (cases "h = hs ! a") auto
    with IH(5) show ?thesis by blast
  qed
  have pub: "map_of (prefix_cache p') (hs ! k) = Some (bs' ! k)" if "a \<le> k" "k < b" for k
    using that IH(4,5) q(3) at by (cases "k = a") auto
  have frame: "bs' ! k = bs ! k" if "k < a \<or> b \<le> k" for k using that IH(3) ab by auto
  show ?case using run IH(2) keep pub frame by blast
qed

lemma int_range_upt: "[int a..int b - 1] = map int [a..<b]"
proof (induction b)
  case (Suc b)
  show ?case
  proof (cases "a \<le> b")
    case True
    then show ?thesis using upto_rec2 [of "int a" "int b"] Suc by simp
  qed simp
qed simp

text \<open>
  C23. Committing publishes the request's computed blocks. If the newly computed blocks are
  fresh (distinct, unhashed, not the null block) and have keys, committing always succeeds:
  afterwards every newly computed position holds exactly the block the cache has under the
  position's key (its own block, or the one another request had already published, whose
  duplicate is given back), other positions are untouched, nothing that was cached is lost, the
  committed index covers the computed blocks and the new keys are queued as one offload run.
\<close>
theorem commit_publishes:
  assumes "bm_inv m" and "map_of (req_to_replica m) (rid ctx) = Some r" and "r < num_replicas m"
    and "num_committed_blocks m (rid ctx) = int a" and "num_computed_blocks ctx m = int b" and "a < b"
    and "b \<le> length (blocks_of m (rid ctx))" and "b \<le> length (hashes_of m (rid ctx))"
    and "\<And>k. a \<le> k \<Longrightarrow> k < b \<Longrightarrow> blocks_of m (rid ctx) ! k < bm_total_num_blocks m \<and>
      block_hash (blocks (device_block_pools m ! r) (blocks_of m (rid ctx) ! k)) = None"
    and "\<And>j k. a \<le> j \<Longrightarrow> j < k \<Longrightarrow> k < b \<Longrightarrow> blocks_of m (rid ctx) ! j \<noteq> blocks_of m (rid ctx) ! k"
  shows "\<exists>m'. commit_to_prefix_cache ctx m = Inr m' \<and> bm_inv m' \<and>
    length (blocks_of m' (rid ctx)) = length (blocks_of m (rid ctx)) \<and>
    (\<forall>k. a \<le> k \<and> k < b \<longrightarrow>
      map_of (prefix_cache (device_block_pools m' ! r)) (hashes_of m (rid ctx) ! k) = Some (blocks_of m' (rid ctx) ! k)) \<and>
    (\<forall>k. k < a \<or> b \<le> k \<longrightarrow> blocks_of m' (rid ctx) ! k = blocks_of m (rid ctx) ! k) \<and>
    (\<forall>h c. map_of (prefix_cache (device_block_pools m ! r)) h = Some c \<longrightarrow>
       map_of (prefix_cache (device_block_pools m' ! r)) h = Some c) \<and>
    committed_of m' (rid ctx) = int b * block_size m \<and>
    pending_offloads m' ! r = pending_offloads m ! r @ [take (b - a) (drop a (hashes_of m (rid ctx)))]"
proof -
  let ?i = "rid ctx" and ?p = "device_block_pools m ! r"
  have acc: "accounts none_loose m" using assms(1) by (simp add: bm_inv_def)
  have tr: "pool_tracks ?p (held m r)" "total_num_blocks ?p = bm_total_num_blocks m"
    using accounts_pool [OF acc assms(3)] by simp_all
  have len: "length (device_block_pools m) = num_replicas m" "length (pending_offloads m) = num_replicas m"
    using accounts_shape [OF acc] by (simp_all add: bm_shape_def)
  define Y where "Y = (\<Sum>j\<in>claimed m r - {?i}. mset (blocks_of m j)) + pinned m r"
  have Y: "held m r = Y + mset (blocks_of m ?i)"
    using held_split [of ?i m r] assms(2) by (simp add: Y_def claimed_def add_ac)
  from commit_loop_total [of ?p Y "blocks_of m ?i" b "hashes_of m ?i" a] tr Y assms(7-10)
  obtain p' bs' where lp: "fold_r (commit_block (hashes_of m ?i)) (?p, blocks_of m ?i) (map int [a..<b]) = Inr (p', bs')"
    and res: "length bs' = length (blocks_of m ?i)" "\<forall>k. k < a \<or> b \<le> k \<longrightarrow> bs' ! k = blocks_of m ?i ! k"
      "\<forall>k. a \<le> k \<and> k < b \<longrightarrow> map_of (prefix_cache p') (hashes_of m ?i ! k) = Some (bs' ! k)"
      "\<forall>h c. map_of (prefix_cache ?p) h = Some c \<longrightarrow> map_of (prefix_cache p') h = Some c"
    by auto
  define m' where "m' = record_commit ?i r (int a) (int b) (set_blocks ?i bs' (set_pool r p' m))"
  have run: "commit_to_prefix_cache ctx m = Inr m'"
    using assms(2-5) lp len by (simp add: commit_to_prefix_cache_def replica_of_def pool_at_def Let_def m'_def int_range_upt)
  have view: "blocks_of m' ?i = bs'" "device_block_pools m' ! r = p'" "committed_of m' ?i = int b * block_size m"
    "pending_offloads m' ! r = pending_offloads m ! r @ [take (b - a) (drop a (hashes_of m ?i))]"
    using assms(3,6,8) len
    by (simp_all add: m'_def record_commit_def Let_def py_slice_nonneg nat_diff_distrib set_blocks_def)
  have "bm_inv m'" using commit_to_prefix_cache_inv [OF acc run] by (simp add: bm_inv_def)
  with run res view show ?thesis by (intro exI [of _ m']) simp
qed

theorem commit_publishes_witness:
  "\<exists>m m'. fold_r (manager_exec toy_prims NullConnector) example_manager
       [Claim (ctx_at 1 [7, 8, 9, 7, 8] 0) 0, Reuse (ctx_at 1 [7, 8, 9, 7, 8] 0),
        Allocate (ctx_at 1 [7, 8, 9, 7, 8] 0) 0 0] = Inr m \<and>
     commit_to_prefix_cache (ctx_at 1 [7, 8, 9, 7, 8] 4) m = Inr m' \<and> committed_of m' 1 = 4 \<and>
     map_of (prefix_cache (device_block_pools m' ! 0)) (hashes_of m 1 ! 1) = Some (blocks_of m' 1 ! 1)"
proof -
  let ?c = "ctx_at 1 [7, 8, 9, 7, 8] 4"
  let ?ops = "[Claim (ctx_at 1 [7, 8, 9, 7, 8] 0) 0, Reuse (ctx_at 1 [7, 8, 9, 7, 8] 0),
        Allocate (ctx_at 1 [7, 8, 9, 7, 8] 0) 0 0]"
  have "case fold_r (manager_exec toy_prims NullConnector) example_manager ?ops of Inl _ \<Rightarrow> False
    | Inr m \<Rightarrow> map_of (req_to_replica m) (rid ?c) = Some 0 \<and> 0 < num_replicas m \<and>
       num_committed_blocks m (rid ?c) = int 0 \<and> num_computed_blocks ?c m = int 2 \<and> block_size m = 2 \<and>
       blocks_of m (rid ?c) = [0, 1, 2] \<and> length (hashes_of m (rid ?c)) = 2 \<and> bm_total_num_blocks m = 4 \<and>
       block_hash (blocks (device_block_pools m ! 0) 0) = None \<and> block_hash (blocks (device_block_pools m ! 0) 1) = None"
    by code_simp
  then obtain m where m: "fold_r (manager_exec toy_prims NullConnector) example_manager ?ops = Inr m"
    "map_of (req_to_replica m) (rid ?c) = Some 0" "0 < num_replicas m" "num_committed_blocks m (rid ?c) = int 0"
    "num_computed_blocks ?c m = int 2" and v: "block_size m = 2" "blocks_of m (rid ?c) = [0, 1, 2]"
    "length (hashes_of m (rid ?c)) = 2" "bm_total_num_blocks m = 4"
    "block_hash (blocks (device_block_pools m ! 0) 0) = None" "block_hash (blocks (device_block_pools m ! 0) 1) = None"
    by (auto split: sum.splits)
  have inv: "bm_inv m" by (rule manager_run_inv [OF BlockManager_init_inv [OF example_manager_init] m(1)])
  have i: "rid ?c = 1" by (simp add: ctx_at_def TextContext_default_def)
  have below: "blocks_of m (rid ?c) ! k < bm_total_num_blocks m \<and>
      block_hash (blocks (device_block_pools m ! 0) (blocks_of m (rid ?c) ! k)) = None" if "k < 2" for k
    using that v by (auto simp: less_2_cases_iff)
  have dist: "blocks_of m (rid ?c) ! j \<noteq> blocks_of m (rid ?c) ! k" if "j < k" "k < 2" for j k
    using that v by (auto simp: less_2_cases_iff)
  obtain m' where m': "commit_to_prefix_cache ?c m = Inr m'" "committed_of m' (rid ?c) = int 2 * block_size m"
    "\<forall>k. 0 \<le> k \<and> k < 2 \<longrightarrow> map_of (prefix_cache (device_block_pools m' ! 0)) (hashes_of m (rid ?c) ! k) =
       Some (blocks_of m' (rid ?c) ! k)"
    using commit_publishes [OF inv m(2-5) _ _ _ below dist] v by auto
  from m'(3) [rule_format, of 1] m' m(1) v i show ?thesis by auto
qed

section \<open>Draining transfers\<close>

text \<open>A transfer pins real blocks, and an onload carries one key per block.\<close>

definition transfer_ok :: "nat \<Rightarrow> pending_transfer \<Rightarrow> bool" where
  "transfer_ok n pt \<longleftrightarrow> set (pt_blocks pt) \<subseteq> {..<n} \<and>
     (case pt_commit_hashes pt of None \<Rightarrow> True | Some hs \<Rightarrow> length hs = length (pt_blocks pt))"

lemma commit_landed_total:
  assumes "pool_tracks p H" and "b < total_num_blocks p"
  shows "\<exists>p'. commit_landed p (b, h) = Inr p' \<and> pool_tracks p' H \<and> total_num_blocks p' = total_num_blocks p"
proof (cases "block_hash (blocks p b) = None \<and> map_of (prefix_cache p) h = None")
  case True
  then obtain p' where p': "commit_into_prefix_cache h b p = Inr p'"
    using commit_ok [OF tracks_inv [OF assms(1)] assms(2)] by blast
  with True tracks_commit [OF assms p'] show ?thesis by (simp add: commit_landed_def)
qed (use assms in \<open>auto simp: commit_landed_def\<close>)

lemma commit_landed_loop_total:
  assumes "pool_tracks p H" and "set bs \<subseteq> {..<total_num_blocks p}"
  shows "\<exists>p'. fold_r commit_landed p (zip bs hs) = Inr p' \<and> pool_tracks p' H \<and> total_num_blocks p' = total_num_blocks p"
  using assms
proof (induction bs arbitrary: p hs)
  case (Cons b bs)
  show ?case
  proof (cases hs)
    case Nil
    with Cons.prems(1) show ?thesis by simp
  next
    case (Cons h hs')
    obtain q where q: "commit_landed p (b, h) = Inr q" "pool_tracks q H" "total_num_blocks q = total_num_blocks p"
      using commit_landed_total [OF Cons.prems(1), of b h] Cons.prems(2) by auto
    have "set bs \<subseteq> {..<total_num_blocks q}" using Cons.prems(2) q(3) by simp
    from Cons.IH [OF q(2) this, of hs'] q Cons show ?thesis by auto
  qed
qed simp

lemma settle_transfer_total:
  assumes "pool_tracks p (mset (pt_blocks pt) + Y)" and "transfer_ok (total_num_blocks p) pt"
  shows "\<exists>p'. settle_transfer pt p = Inr p' \<and> pool_tracks p' Y \<and> total_num_blocks p' = total_num_blocks p"
proof -
  let ?H = "mset (pt_blocks pt) + Y"
  obtain q where q: "(case pt_commit_hashes pt of None \<Rightarrow> Inr p
      | Some hs \<Rightarrow> raise_if (length (pt_blocks pt) \<noteq> length hs) ValueError
                    (fold_r commit_landed p (zip (pt_blocks pt) hs))) = Inr q"
    "pool_tracks q ?H" "total_num_blocks q = total_num_blocks p"
  proof (cases "pt_commit_hashes pt")
    case None
    then show thesis using that [of p] assms(1) by simp
  next
    case (Some hs)
    with assms(2) obtain q where "fold_r commit_landed p (zip (pt_blocks pt) hs) = Inr q" "pool_tracks q ?H"
      "total_num_blocks q = total_num_blocks p"
      using commit_landed_loop_total [OF assms(1), of "pt_blocks pt" hs] by (auto simp: transfer_ok_def)
    then show thesis using that [of q] Some assms(2) by (simp add: transfer_ok_def)
  qed
  have "mset (pt_blocks pt) \<subseteq># ?H" by simp
  from free_in_order_total [OF q(2) this] q(1,3) show ?thesis by (auto simp: settle_transfer_def)
qed

lemma settle_all_total:
  assumes "pool_tracks p (sum_list (map (\<lambda>pt. mset (pt_blocks pt)) pts) + Y)"
    and "\<And>pt. pt \<in> set pts \<Longrightarrow> fin (pt_event pt) \<and> transfer_ok (total_num_blocks p) pt"
  shows "\<exists>p'. settle_transfers fin pts p = Inr ([], p')"
  using assms
proof (induction pts arbitrary: p)
  case (Cons pt pts)
  have "pool_tracks p (mset (pt_blocks pt) + (sum_list (map (\<lambda>pt. mset (pt_blocks pt)) pts) + Y))"
    using Cons.prems(1) by (simp add: add.assoc)
  from settle_transfer_total [OF this] Cons.prems(2) [of pt]
  obtain q where q: "settle_transfer pt p = Inr q" "pool_tracks q (sum_list (map (\<lambda>pt. mset (pt_blocks pt)) pts) + Y)"
    "total_num_blocks q = total_num_blocks p" by auto
  with Cons.IH [OF q(2)] Cons.prems(2) show ?case by simp
qed simp

definition drainable :: "'k kv_connector \<Rightarrow> 'k block_manager \<Rightarrow> nat \<Rightarrow> bool" where
  "drainable C m r \<longleftrightarrow> (\<forall>pt \<in> set (pending_transfers m ! r).
     is_complete C (conn_state m) (pt_event pt) \<and> transfer_ok (bm_total_num_blocks m) pt)"

lemma poll_replica_total:
  assumes "accounts none_loose m" and r: "r < num_replicas m" and "drainable C m r"
  shows "\<exists>m'. poll_replica C m r = Inr m' \<and> accounts none_loose m' \<and> same_requests m m' \<and>
    conn_state m' = conn_state m \<and> pending_transfers m' = (pending_transfers m)[r := []]"
proof -
  let ?p = "device_block_pools m ! r" and ?pts = "pending_transfers m ! r"
  have tr: "pool_tracks ?p (held m r)" "total_num_blocks ?p = bm_total_num_blocks m"
    using accounts_pool [OF assms(1) r] by simp_all
  have "pool_tracks ?p (sum_list (map (\<lambda>pt. mset (pt_blocks pt)) ?pts) + (\<Sum>i\<in>claimed m r. mset (blocks_of m i)))"
    using tr(1) by (simp add: held_def pinned_def add_ac)
  from settle_all_total [OF this, of "is_complete C (conn_state m)"] assms(3) tr(2)
  obtain p' where p': "settle_transfers (is_complete C (conn_state m)) ?pts ?p = Inr ([], p')"
    by (auto simp: drainable_def)
  have "\<exists>m'. poll_replica C m r = Inr m'"
    using p' r accounts_replicas [OF assms(1)] by (simp add: poll_replica_def pool_at_def)
  then obtain m' where m': "poll_replica C m r = Inr m'" by blast
  have "filter (\<lambda>pt. \<not> is_complete C (conn_state m) (pt_event pt)) ?pts = []"
    using assms(3) by (simp add: drainable_def filter_empty_conv)
  with poll_replica_inv [OF assms(1) r m'] m' show ?thesis by simp
qed

lemma poll_loop_total:
  assumes "accounts none_loose m" and "distinct rs" and "set rs \<subseteq> {..<num_replicas m}"
    and "\<And>r. r \<in> set rs \<Longrightarrow> drainable C m r"
  shows "\<exists>m'. fold_r (poll_replica C) m rs = Inr m' \<and> accounts none_loose m' \<and> same_requests m m' \<and>
    length (pending_transfers m') = length (pending_transfers m) \<and>
    (\<forall>r < num_replicas m. pending_transfers m' ! r = (if r \<in> set rs then [] else pending_transfers m ! r))"
  using assms
proof (induction rs arbitrary: m)
  case (Cons r rs)
  obtain q where q: "poll_replica C m r = Inr q" "accounts none_loose q" "same_requests m q"
    "conn_state q = conn_state m" "pending_transfers q = (pending_transfers m)[r := []]"
    using poll_replica_total [OF Cons.prems(1), of r C] Cons.prems(3,4) by auto
  have len: "length (pending_transfers m) = num_replicas m"
    using accounts_shape [OF Cons.prems(1)] by (simp add: bm_shape_def)
  have same: "num_replicas q = num_replicas m" "bm_total_num_blocks q = bm_total_num_blocks m"
    using q(3) by (simp_all add: same_requests_def)
  have dr: "drainable C q s" if "s \<in> set rs" for s
  proof -
    have "s \<noteq> r" using Cons.prems(2) that by auto
    then have "pending_transfers q ! s = pending_transfers m ! s" by (simp add: q(5))
    then show ?thesis using Cons.prems(4) [of s] that q(4) same by (simp add: drainable_def)
  qed
  have "set rs \<subseteq> {..<num_replicas q}" "distinct rs" using Cons.prems(2,3) same by auto
  from Cons.IH [OF q(2) this(2,1) dr]
  obtain m' where m': "fold_r (poll_replica C) q rs = Inr m'" "accounts none_loose m'" "same_requests q m'"
    "length (pending_transfers m') = length (pending_transfers q)"
    "\<forall>s < num_replicas q. pending_transfers m' ! s = (if s \<in> set rs then [] else pending_transfers q ! s)" by blast
  have "\<forall>s < num_replicas m. pending_transfers m' ! s = (if s \<in> set (r # rs) then [] else pending_transfers m ! s)"
    using m'(5) q(5) same len by (auto simp: nth_list_update)
  with m' q show ?case by (auto intro: same_requests_trans)
qed simp

text \<open>
  C24. No pin outlives its transfer. Once every transfer in flight has landed, one
  \<open>poll_transfers\<close> call succeeds on every replica and drains them all: nothing is pending,
  requests keep exactly the blocks they had, and the only references left are theirs.
\<close>
theorem landed_transfers_unpinned:
  assumes "bm_inv m" and "\<And>r. r < num_replicas m \<Longrightarrow> drainable C m r"
  shows "\<exists>m'. poll_transfers C m = Inr m' \<and> bm_inv m' \<and> pending_transfers m' = replicate (num_replicas m) [] \<and>
    blocks_of m' = blocks_of m \<and>
    (\<forall>r < num_replicas m. held m' r = (\<Sum>i\<in>claimed m r. mset (blocks_of m i)))"
proof -
  have acc: "accounts none_loose m" using assms(1) by (simp add: bm_inv_def)
  have len: "length (pending_transfers m) = num_replicas m"
    using accounts_shape [OF acc] by (simp add: bm_shape_def)
  obtain m' where m': "fold_r (poll_replica C) m [0..<num_replicas m] = Inr m'" "accounts none_loose m'"
    "same_requests m m'" "length (pending_transfers m') = length (pending_transfers m)"
    "\<forall>r < num_replicas m. pending_transfers m' ! r = (if r \<in> set [0..<num_replicas m] then [] else pending_transfers m ! r)"
    using poll_loop_total [OF acc, of "[0..<num_replicas m]" C] assms(2) by (auto simp: subset_eq)
  have empty: "pending_transfers m' = replicate (num_replicas m) []"
    using m'(4,5) len by (intro nth_equalityI) auto
  have bl: "blocks_of m' = blocks_of m" "claimed m' r = claimed m r" for r
    using m'(3) by (simp_all add: same_requests_def claimed_def)
  have "held m' r = (\<Sum>i\<in>claimed m r. mset (blocks_of m i))" if "r < num_replicas m" for r
    using that by (simp add: held_def pinned_def empty bl)
  with m' empty bl(1) len show ?thesis by (intro exI [of _ m']) (simp add: poll_transfers_def bm_inv_def)
qed

text \<open>An asynchronous connector that offloads in the background; its state counts landed copies.\<close>

definition async_connector :: "nat kv_connector" where
  "async_connector =
     \<lparr>conn_name = ''Async'', conn_load = (\<lambda>ids hs r k. (CompletedTransfer LOAD [], k)),
      conn_offload = (\<lambda>ids hs r k. (AsyncTransfer OFFLOAD ids 0, k)), conn_touch = (\<lambda>hs r k. k),
      conn_count_cached_prefix = (\<lambda>hs k. (0, 0)), conn_landed = (\<lambda>i k. i < k),
      conn_reset_prefix_cache = (\<lambda>k. k)\<rparr>"

definition async_run :: "(unit, unit, nat) manager_op list" where
  "async_run = [Claim (ctx_at 1 [7, 8, 9, 7, 8] 0) 0, Allocate (ctx_at 1 [7, 8, 9, 7, 8] 0) 0 0,
     Step (ctx_at 1 [7, 8, 9, 7, 8] 4), Offload 0, Release (ctx_at 1 [7, 8, 9, 7, 8] 4), ConnectorMoves 1]"

theorem landed_transfers_unpinned_witness:
  "\<exists>m0 m m'. BlockManager_init 4 2 (0 :: nat) True False 1 Ahash64 None False True False = Inr m0 \<and>
     fold_r (manager_exec toy_prims async_connector) m0 async_run = Inr m \<and> pending_transfers m \<noteq> replicate 1 [] \<and>
     poll_transfers async_connector m = Inr m' \<and> pending_transfers m' = replicate 1 []"
proof -
  have "case BlockManager_init 4 2 (0 :: nat) True False 1 Ahash64 None False True False of Inl _ \<Rightarrow> False
    | Inr m0 \<Rightarrow> (case fold_r (manager_exec toy_prims async_connector) m0 async_run of Inl _ \<Rightarrow> False
      | Inr m \<Rightarrow> num_replicas m = 1 \<and> drainable async_connector m 0 \<and> pending_transfers m ! 0 \<noteq> [])"
    by code_simp
  then obtain m0 m where i: "BlockManager_init 4 2 (0 :: nat) True False 1 Ahash64 None False True False = Inr m0"
    and m: "fold_r (manager_exec toy_prims async_connector) m0 async_run = Inr m" "num_replicas m = 1"
      "drainable async_connector m 0" "pending_transfers m ! 0 \<noteq> []"
    by (auto split: sum.splits)
  have inv: "bm_inv m" by (rule manager_run_inv [OF BlockManager_init_inv [OF i] m(1)])
  have "pending_transfers m \<noteq> replicate 1 []" using m(4) by auto
  moreover obtain m' where "poll_transfers async_connector m = Inr m'" "pending_transfers m' = replicate (num_replicas m) []"
    using landed_transfers_unpinned [OF inv, of async_connector] m(2,3) by auto
  ultimately show ?thesis using i m(1,2) by auto
qed

end
