(* ===== verification/LoRA_Manager.thy ===== *)
theory LoRA_Manager
  imports Vision_Context
begin

text \<open>
  The LoRA adapters of a serving process: the slot cache \<open>_LoRALRUCache\<close> of
  \<open>max/pipelines/lora/lora.py\<close>, the registry and batch routing of \<open>LoRAManagerV3\<close>
  (\<open>max/pipelines/lora/modulev3.py\<close>), and the admission helpers of
  \<open>max/serve/scheduler/lora_scheduler_utils.py\<close>.

  The weights of an adapter are opaque data of type \<open>'w\<close>; the weight files, the module
  wrapping and the device buffers are left out. An \<open>OrderedDict\<close> is an association list in
  its order; \<open>move_to_end\<close> deletes and re-inserts.
\<close>

section \<open>The slot cache\<close>

definition move_to_end :: "'k \<Rightarrow> ('k, 'v) dict \<Rightarrow> ('k, 'v) dict" where
  "move_to_end k d = (case map_of d k of None \<Rightarrow> d | Some v \<Rightarrow> AList.delete k d @ [(k, v)])"

record 'w lru_cache =
  lru_items :: "(string, 'w \<times> nat) dict"
  lru_max_size :: nat
  free_slots :: "nat set"
  name_to_slot :: "(string, nat) dict"

definition LoRALRUCache_init :: "nat \<Rightarrow> 'w lru_cache" where
  "LoRALRUCache_init n = \<lparr>lru_items = [], lru_max_size = n, free_slots = set [0..<n], name_to_slot = []\<rparr>"

definition lru_contains :: "string \<Rightarrow> 'w lru_cache \<Rightarrow> bool" where
  "lru_contains key c \<longleftrightarrow> map_of (lru_items c) key \<noteq> None"

definition lru_get :: "string \<Rightarrow> 'w lru_cache \<Rightarrow> ('w \<times> nat) option \<times> 'w lru_cache" where
  "lru_get key c =
     (case map_of (lru_items c) key of None \<Rightarrow> (None, c)
      | Some v \<Rightarrow> (Some v, c\<lparr>lru_items := move_to_end key (lru_items c)\<rparr>))"

definition get_slot :: "string \<Rightarrow> 'w lru_cache \<Rightarrow> nat option" where
  "get_slot key c = map_of (name_to_slot c) key"

definition next_slot :: "'w lru_cache \<Rightarrow> nat option" where
  "next_slot c = (if free_slots c = {} then None else Some (Min (free_slots c)))"

text \<open>\<open>popitem(last=False)\<close> and the bookkeeping of the evicted adapter.\<close>

definition evict_lru :: "'w lru_cache \<Rightarrow> ((string \<times> nat) \<times> 'w lru_cache) result" where
  "evict_lru c =
     (case lru_items c of
        [] \<Rightarrow> Inl KeyError
      | (k, _, s) # rest \<Rightarrow>
          raise_if (map_of (name_to_slot c) k = None) KeyError
          (Inr ((k, s), c\<lparr>lru_items := rest, name_to_slot := AList.delete k (name_to_slot c),
                          free_slots := insert s (free_slots c)\<rparr>)))"

text \<open>The last block of \<open>put\<close>: bind the key to the slot.\<close>

definition bind_slot :: "string \<Rightarrow> 'w \<Rightarrow> nat \<Rightarrow> 'w lru_cache \<Rightarrow> 'w lru_cache" where
  "bind_slot key v s c =
     c\<lparr>lru_items := AList.update key (v, s) (lru_items c),
       name_to_slot := AList.update key s (name_to_slot c), free_slots := free_slots c - {s}\<rparr>"

definition lru_put ::
  "string \<Rightarrow> 'w \<Rightarrow> nat option \<Rightarrow> 'w lru_cache \<Rightarrow> ((string \<times> nat) option \<times> 'w lru_cache) result" where
  "lru_put key v slot c =
     (if lru_contains key c then Inr (None, c\<lparr>lru_items := move_to_end key (lru_items c)\<rparr>)
      else case (case slot of None \<Rightarrow> next_slot c | Some s \<Rightarrow> Some s) of
        Some s \<Rightarrow> Inr (None, bind_slot key v s c)
      | None \<Rightarrow>
          if length (lru_items c) \<ge> lru_max_size c
          then bind_r (evict_lru c) (\<lambda>((k, s), c). Inr (Some (k, s), bind_slot key v s c))
          else Inr (None, c))"

definition lru_remove :: "string \<Rightarrow> 'w lru_cache \<Rightarrow> ((bool \<times> nat option) \<times> 'w lru_cache) result" where
  "lru_remove key c =
     (case map_of (lru_items c) key of
        None \<Rightarrow> Inr ((False, None), c)
      | Some (_, s) \<Rightarrow>
          raise_if (map_of (name_to_slot c) key = None) KeyError
          (Inr ((True, Some s),
            c\<lparr>lru_items := AList.delete key (lru_items c), name_to_slot := AList.delete key (name_to_slot c),
              free_slots := insert s (free_slots c)\<rparr>)))"

definition lru_clear :: "'w lru_cache \<Rightarrow> 'w lru_cache" where
  "lru_clear c = c\<lparr>lru_items := [], name_to_slot := [], free_slots := set [0..<lru_max_size c]\<rparr>"

section \<open>The manager\<close>

record 'w lora_manager =
  base_model_path :: string
  max_num_loras :: nat
  loras :: "(string, 'w) dict"
  active_loras_cache :: "'w lru_cache"

datatype lora_status =
    SUCCESS | LOAD_NAME_EXISTS | UNLOAD_NAME_NONEXISTENT | LOAD_INVALID_PATH | LOAD_INVALID_ADAPTER

definition NO_ACTIVE_LORA :: int where
  "NO_ACTIVE_LORA = - 1"

definition LoRAManager_init :: "string \<Rightarrow> nat \<Rightarrow> 'w lora_manager" where
  "LoRAManager_init base n =
     \<lparr>base_model_path = base, max_num_loras = n, loras = [], active_loras_cache = LoRALRUCache_init n\<rparr>"

definition is_lora_name :: "string \<Rightarrow> 'w lora_manager \<Rightarrow> bool" where
  "is_lora_name name m \<longleftrightarrow> map_of (loras m) name \<noteq> None"

definition is_active_lora_name :: "string \<Rightarrow> 'w lora_manager \<Rightarrow> bool" where
  "is_active_lora_name name m \<longleftrightarrow> lru_contains name (active_loras_cache m)"

definition activate_adapter :: "string \<Rightarrow> 'w lora_manager \<Rightarrow> 'w lora_manager result" where
  "activate_adapter name m =
     (case map_of (loras m) name of None \<Rightarrow> Inl KeyError
      | Some w \<Rightarrow> bind_r (lru_put name w None (active_loras_cache m)) (\<lambda>(_, c).
          Inr (m\<lparr>active_loras_cache := c\<rparr>)))"

definition unload_adapter :: "string \<Rightarrow> 'w lora_manager \<Rightarrow> (lora_status \<times> 'w lora_manager) result" where
  "unload_adapter name m =
     (if map_of (loras m) name = None then Inr (UNLOAD_NAME_NONEXISTENT, m)
      else bind_r (lru_remove name (active_loras_cache m)) (\<lambda>(_, c).
        Inr (SUCCESS, m\<lparr>loras := AList.delete name (loras m), active_loras_cache := c\<rparr>)))"

text \<open>
  \<open>load_adapter\<close>: the request is \<open>name=path\<close> or \<open>path\<close>. Reading the adapter from its path
  is outside the model: \<open>resolve\<close> gives the local directory and \<open>read\<close> the weights, \<open>None\<close>
  where the code gets no path or a \<open>ValueError\<close>; \<open>path_of\<close> is the path an adapter was read from.
\<close>

fun partition_eq :: "string \<Rightarrow> string \<times> string" where
  "partition_eq [] = ([], [])"
| "partition_eq (c # cs) =
     (if c = CHR ''='' then ([], cs) else (let (a, b) = partition_eq cs in (c # a, b)))"

definition load_adapter ::
  "(string \<Rightarrow> string option) \<Rightarrow> (string \<Rightarrow> string \<Rightarrow> 'w option) \<Rightarrow> ('w \<Rightarrow> string) \<Rightarrow> string \<Rightarrow>
   'w lora_manager \<Rightarrow> lora_status \<times> 'w lora_manager" where
  "load_adapter resolve read_weights path_of spec m =
     (let (before, explicit) = partition_eq spec;
          (name, path) = (if explicit \<noteq> [] then (before, explicit) else (spec, spec))
      in case map_of (loras m) name of
           Some w \<Rightarrow> (if path_of w = path then SUCCESS else LOAD_NAME_EXISTS, m)
         | None \<Rightarrow>
             (case resolve path of None \<Rightarrow> (LOAD_INVALID_PATH, m)
              | Some local_path \<Rightarrow>
                  (case read_weights name local_path of None \<Rightarrow> (LOAD_INVALID_ADAPTER, m)
                   | Some w \<Rightarrow> (SUCCESS, m\<lparr>loras := AList.update name w (loras m)\<rparr>))))"

definition load_adapters ::
  "(string \<Rightarrow> string option) \<Rightarrow> (string \<Rightarrow> string \<Rightarrow> 'w option) \<Rightarrow> ('w \<Rightarrow> string) \<Rightarrow> string list \<Rightarrow>
   'w lora_manager \<Rightarrow> 'w lora_manager result" where
  "load_adapters resolve read_weights path_of paths m =
     fold_r (\<lambda>m path. let (st, m) = load_adapter resolve read_weights path_of path m
                      in raise_if (st \<noteq> SUCCESS) RuntimeError (Inr m)) m paths"

definition model_name_to_id :: "string \<Rightarrow> 'w lora_manager \<Rightarrow> int" where
  "model_name_to_id name m =
     (if name = [] \<or> name = base_model_path m then NO_ACTIVE_LORA
      else case (if is_lora_name name m then get_slot name (active_loras_cache m) else None) of
        None \<Rightarrow> NO_ACTIVE_LORA | Some s \<Rightarrow> int s)"

text \<open>\<open>sorted(..., reverse=True)\<close> keeps the order of equal keys: a stable sort on the negated key.\<close>

definition sort_lora_batch ::
  "('m, 'l, 'z) text_context_scheme list \<Rightarrow> 'w lora_manager \<Rightarrow> ('m, 'l, 'z) text_context_scheme list" where
  "sort_lora_batch batch m = sort_key (\<lambda>ctx. - model_name_to_id (model_name ctx) m) batch"

definition active_adapters_by_slot ::
  "('m, 'l, 'z) text_context_scheme list \<Rightarrow> 'w lora_manager \<Rightarrow> (nat, 'w) dict" where
  "active_adapters_by_slot batch m =
     foldl (\<lambda>by_slot ctx.
       let name = model_name ctx in
       if name = [] \<or> name = base_model_path m then by_slot
       else case map_of (loras m) name of None \<Rightarrow> by_slot
         | Some w \<Rightarrow> (case get_slot name (active_loras_cache m) of None \<Rightarrow> by_slot
             | Some s \<Rightarrow> AList.update s w by_slot)) [] batch"

section \<open>Batch routing\<close>

text \<open>The loop that groups consecutive equal ids: the id of each group and where it starts.\<close>

fun group_ids :: "int option \<Rightarrow> nat \<Rightarrow> int list \<Rightarrow> (int \<times> nat) list" where
  "group_ids prev_id i [] = []"
| "group_ids prev_id i (ident # ids) =
     (if prev_id \<noteq> Some ident then (ident, i) # group_ids (Some ident) (i + 1) ids
      else group_ids prev_id (i + 1) ids)"

definition lora_graph_inputs ::
  "('m, 'l, 'z) text_context_scheme list \<Rightarrow> int list \<Rightarrow> 'w lora_manager \<Rightarrow> (int list \<times> int list \<times> int) result" where
  "lora_graph_inputs batch input_row_offsets m =
     raise_if (\<exists>ctx \<in> set batch. model_name ctx \<noteq> [] \<and> model_name ctx \<noteq> base_model_path m \<and>
                \<not> is_lora_name (model_name ctx) m) RuntimeError
     (let ids = map (\<lambda>ctx. model_name_to_id (model_name ctx) m) batch;
          groups = group_ids None 0 ids
      in bind_r (fold_r (\<lambda>offs (_, i). bind_r (py_index input_row_offsets (int i)) (\<lambda>x. Inr (offs @ [x])))
                   [] groups) (\<lambda>grouped_offsets.
         bind_r (py_index input_row_offsets (- 1)) (\<lambda>end_off.
         let grouped_ids = map fst groups;
             grouped_offsets = grouped_offsets @ [end_off];
             last_lora = length (takeWhile (\<lambda>i. i \<noteq> - 1) grouped_ids);
             grouped_offsets = take (last_lora + 1) grouped_offsets;
             grouped_ids = take last_lora grouped_ids
         in Inr (grouped_ids, grouped_offsets, last grouped_offsets))))"

section \<open>The scheduler's helpers\<close>

definition is_lora :: "('m, 'l, 'z) text_context_scheme \<Rightarrow> 'w lora_manager option \<Rightarrow> bool" where
  "is_lora ctx lm = (case lm of None \<Rightarrow> False | Some m \<Rightarrow> is_lora_name (model_name ctx) m)"

definition is_active_lora :: "('m, 'l, 'z) text_context_scheme \<Rightarrow> 'w lora_manager option \<Rightarrow> bool" where
  "is_active_lora ctx lm = (case lm of None \<Rightarrow> False | Some m \<Rightarrow> is_active_lora_name (model_name ctx) m)"

definition can_allocate_lora ::
  "('m, 'l, 'z) text_context_scheme \<Rightarrow> string set \<Rightarrow> 'w lora_manager option \<Rightarrow> bool result" where
  "can_allocate_lora ctx active_loras lm =
     (case lm of None \<Rightarrow> Inl AssertionError
      | Some m \<Rightarrow>
          if \<not> is_lora_name (model_name ctx) m then Inr True
          else if model_name ctx \<in> active_loras then Inr True
          else if is_active_lora_name (model_name ctx) m then Inr True
          else Inr (card active_loras + 1 \<le> max_num_loras m))"

section \<open>Slots\<close>

text \<open>
  The invariant of the cache: both dictionaries agree, slots are distinct and below the
  capacity, and the free slots are exactly the others.
\<close>

definition used_slots :: "'w lru_cache \<Rightarrow> nat set" where
  "used_slots c = snd ` snd ` set (lru_items c)"

definition lru_inv :: "'w lru_cache \<Rightarrow> bool" where
  "lru_inv c \<longleftrightarrow> distinct (map fst (lru_items c)) \<and> distinct (map (snd \<circ> snd) (lru_items c)) \<and>
     map_of (name_to_slot c) = map_option snd \<circ> map_of (lru_items c) \<and>
     used_slots c \<subseteq> {..<lru_max_size c} \<and> free_slots c = {..<lru_max_size c} - used_slots c"

text \<open>The abstract cache: the names, least recently used first.\<close>

definition lru_order :: "'w lru_cache \<Rightarrow> string list" where
  "lru_order c = map fst (lru_items c)"

definition lru_touch :: "nat \<Rightarrow> string \<Rightarrow> string list \<Rightarrow> string list" where
  "lru_touch n key names =
     (if key \<in> set names then filter (\<lambda>k. k \<noteq> key) names @ [key]
      else if length names < n then names @ [key] else tl names @ [key])"

lemma delete_filter: "AList.delete k d = filter (\<lambda>x. fst x \<noteq> k) d"
  by (auto simp: AList.delete_eq intro: filter_cong)

lemma keys_delete: "fst ` set (AList.delete k d) = fst ` set d - {k}"
  by (auto simp: delete_filter)

lemma update_append: "map_of d k = None \<Longrightarrow> AList.update k v d = d @ [(k, v)]"
  by (induction d) (auto split: if_splits)

lemma delete_absent: "map_of d k = None \<Longrightarrow> AList.delete k d = d"
  by (metis delete_id map_of_eq_None_iff)

lemma lru_used_card: "lru_inv c \<Longrightarrow> card (used_slots c) = length (lru_items c)"
  using distinct_card [of "map (snd \<circ> snd) (lru_items c)"]
  by (simp add: lru_inv_def used_slots_def image_comp)

lemma lru_init_inv: "lru_inv (LoRALRUCache_init n)"
  by (auto simp: lru_inv_def LoRALRUCache_init_def used_slots_def)

lemma lru_full:
  assumes "lru_inv c"
  shows "next_slot c = None \<longleftrightarrow> lru_max_size c \<le> length (lru_items c)"
    and "next_slot c = Some s \<Longrightarrow> s < lru_max_size c \<and> s \<notin> used_slots c"
proof -
  have fin: "finite (used_slots c)" by (simp add: used_slots_def)
  have sub: "used_slots c \<subseteq> {..<lru_max_size c}" and free: "free_slots c = {..<lru_max_size c} - used_slots c"
    using assms by (simp_all add: lru_inv_def)
  have "free_slots c = {} \<longleftrightarrow> used_slots c = {..<lru_max_size c}" using sub free by auto
  also have "\<dots> \<longleftrightarrow> lru_max_size c \<le> card (used_slots c)"
    using sub by (metis card_lessThan card_mono card_seteq dual_order.refl fin finite_lessThan)
  finally show "next_slot c = None \<longleftrightarrow> lru_max_size c \<le> length (lru_items c)"
    using lru_used_card [OF assms] by (simp add: next_slot_def)
  show "s < lru_max_size c \<and> s \<notin> used_slots c" if "next_slot c = Some s"
  proof -
    have "free_slots c \<noteq> {}" "s = Min (free_slots c)" using that by (auto simp: next_slot_def split: if_splits)
    then have "s \<in> free_slots c" using free by (metis Min_in finite_Diff finite_lessThan)
    then show ?thesis using free by simp
  qed
qed

lemma move_to_end_inv:
  assumes "lru_inv c" and "lru_contains key c"
  shows "lru_inv (c\<lparr>lru_items := move_to_end key (lru_items c)\<rparr>)"
    and "map fst (move_to_end key (lru_items c)) = filter (\<lambda>k. k \<noteq> key) (map fst (lru_items c)) @ [key]"
    and "set (move_to_end key (lru_items c)) = set (lru_items c)"
proof -
  obtain v where v: "map_of (lru_items c) key = Some v" using assms(2) by (auto simp: lru_contains_def)
  have d: "distinct (map fst (lru_items c))" "distinct (map (snd \<circ> snd) (lru_items c))"
    using assms(1) by (simp_all add: lru_inv_def)
  have eq: "move_to_end key (lru_items c) = AList.delete key (lru_items c) @ [(key, v)]"
    using v by (simp add: move_to_end_def)
  show st: "set (move_to_end key (lru_items c)) = set (lru_items c)"
    using v d(1) unfolding eq by (auto simp: delete_filter dest: map_of_SomeD eq_key_imp_eq_value)
  show fs: "map fst (move_to_end key (lru_items c)) = filter (\<lambda>k. k \<noteq> key) (map fst (lru_items c)) @ [key]"
    unfolding eq by (simp add: delete_filter filter_map comp_def split_beta)
  have df: "distinct (map fst (move_to_end key (lru_items c)))" using d(1) by (simp add: fs)
  have inj: "inj_on (snd \<circ> snd) (set (lru_items c))" using d(2) by (simp add: distinct_map)
  have ds: "distinct (map (snd \<circ> snd) (move_to_end key (lru_items c)))"
    using df inj by (simp add: distinct_map st)
  have m: "map_of (move_to_end key (lru_items c)) = map_of (lru_items c)"
    using df d(1) st by (metis map_of_inject_set)
  show "lru_inv (c\<lparr>lru_items := move_to_end key (lru_items c)\<rparr>)"
    using assms(1) df ds by (simp add: lru_inv_def m used_slots_def st)
qed

lemma bind_slot_inv:
  assumes "lru_inv c" and "map_of (lru_items c) key = None" and "s < lru_max_size c" and "s \<notin> used_slots c"
  shows "lru_inv (bind_slot key v s c)" and "lru_items (bind_slot key v s c) = lru_items c @ [(key, v, s)]"
proof -
  show it: "lru_items (bind_slot key v s c) = lru_items c @ [(key, v, s)]"
    using assms(2) by (simp add: bind_slot_def update_append)
  have k: "key \<notin> fst ` set (lru_items c)" using assms(2) by (simp add: map_of_eq_None_iff)
  have us: "used_slots (bind_slot key v s c) = insert s (used_slots c)" by (simp add: used_slots_def it)
  have sl: "s \<notin> set (map (snd \<circ> snd) (lru_items c))" using assms(4) by (simp add: used_slots_def image_comp)
  show "lru_inv (bind_slot key v s c)"
    unfolding lru_inv_def us it using assms k sl
    by (auto simp: lru_inv_def bind_slot_def update_conv' fun_eq_iff map_add_def split: option.split)
qed

lemma evict_lru_inv:
  assumes "lru_inv c" and "lru_items c = (k, w, s) # rest"
  obtains c' where "evict_lru c = Inr ((k, s), c')" and "lru_inv c'" and "lru_items c' = rest"
    and "lru_max_size c' = lru_max_size c" and "s < lru_max_size c'" and "s \<notin> used_slots c'"
proof -
  define c' where "c' = c\<lparr>lru_items := rest, name_to_slot := AList.delete k (name_to_slot c),
                          free_slots := insert s (free_slots c)\<rparr>"
  have "map_of (name_to_slot c) k = Some s" using assms by (simp add: lru_inv_def)
  then have "evict_lru c = Inr ((k, s), c')" using assms(2) by (simp add: evict_lru_def c'_def)
  moreover have s: "s < lru_max_size c" "s \<notin> snd ` snd ` set rest"
    using assms by (auto simp: lru_inv_def used_slots_def image_comp)
  moreover have "lru_inv c'"
    using assms s by (auto simp: lru_inv_def c'_def used_slots_def delete_conv' fun_eq_iff map_of_eq_None_iff)
  ultimately show thesis by (intro that [of c']) (simp_all add: c'_def used_slots_def)
qed

text \<open>Putting a key always succeeds; the cache behaves like the abstract list.\<close>

lemma lru_put_refines:
  assumes inv: "lru_inv c" and pos: "0 < lru_max_size c"
  obtains ev c' where "lru_put key v None c = Inr (ev, c')" and "lru_inv c'" and "lru_max_size c' = lru_max_size c"
    and "lru_order c' = lru_touch (lru_max_size c) key (lru_order c)"
    and "map_option fst ev = (if key \<in> set (lru_order c) \<or> length (lru_order c) < lru_max_size c then None
                              else Some (hd (lru_order c)))"
proof (cases "lru_contains key c")
  case True
  let ?c = "c\<lparr>lru_items := move_to_end key (lru_items c)\<rparr>"
  have "key \<in> set (lru_order c)"
    using True by (auto simp: lru_contains_def lru_order_def map_of_eq_None_iff)
  then show thesis
    using True move_to_end_inv [OF inv True]
    by (intro that [of None ?c]) (simp_all add: lru_put_def lru_order_def lru_touch_def)
next
  case False
  then have k: "map_of (lru_items c) key = None" unfolding lru_contains_def by blast
  then have nk: "key \<notin> set (lru_order c)" by (auto simp: lru_order_def map_of_eq_None_iff)
  show thesis
  proof (cases "next_slot c")
    case (Some s)
    then have "length (lru_items c) < lru_max_size c" and s: "s < lru_max_size c" "s \<notin> used_slots c"
      using lru_full [OF inv] by (auto simp: not_le [symmetric])
    then show thesis
      using False Some nk bind_slot_inv [OF inv k s, of v]
      by (intro that [of None "bind_slot key v s c"])
        (simp_all add: lru_put_def lru_order_def lru_touch_def bind_slot_def)
  next
    case None
    then have full: "lru_max_size c \<le> length (lru_items c)" using lru_full [OF inv] by simp
    with pos obtain j w s rest where it: "lru_items c = (j, w, s) # rest"
      by (metis Suc_le_length_iff gr0_implies_Suc prod.collapse)
    obtain c1 where c1: "evict_lru c = Inr ((j, s), c1)" "lru_inv c1" "lru_items c1 = rest"
      "lru_max_size c1 = lru_max_size c" "s < lru_max_size c1" "s \<notin> used_slots c1"
      using evict_lru_inv [OF inv it] by blast
    have k1: "map_of (lru_items c1) key = None" using k it c1(3) by (simp split: if_splits)
    show thesis
      using False None full nk c1 it bind_slot_inv [OF c1(2) k1 c1(5,6), of v]
      by (intro that [of "Some (j, s)" "bind_slot key v s c1"])
        (simp_all add: lru_put_def lru_order_def lru_touch_def bind_slot_def)
  qed
qed

section \<open>The registry\<close>

definition lora_inv :: "'w lora_manager \<Rightarrow> bool" where
  "lora_inv m \<longleftrightarrow> lru_inv (active_loras_cache m) \<and> lru_max_size (active_loras_cache m) = max_num_loras m \<and>
     set (lru_order (active_loras_cache m)) \<subseteq> fst ` set (loras m)"

lemma active_in_order: "is_active_lora_name name m \<longleftrightarrow> name \<in> set (lru_order (active_loras_cache m))"
  unfolding is_active_lora_name_def lru_contains_def lru_order_def by (simp add: map_of_eq_None_iff)

lemma loaded_iff: "is_lora_name name m \<longleftrightarrow> name \<in> fst ` set (loras m)"
  unfolding is_lora_name_def by (simp add: map_of_eq_None_iff)

lemma lora_init_inv: "lora_inv (LoRAManager_init base n)"
  using lru_init_inv [of n] by (simp add: lora_inv_def LoRAManager_init_def lru_order_def LoRALRUCache_init_def)

lemma set_lru_touch: "set (lru_touch n key names) \<subseteq> insert key (set names)"
  by (cases names) (auto simp: lru_touch_def)

lemma activate_ok:
  assumes inv: "lora_inv m" and pos: "0 < max_num_loras m" and loaded: "is_lora_name name m"
  obtains m' where "activate_adapter name m = Inr m'" and "lora_inv m'" and "loras m' = loras m"
    and "max_num_loras m' = max_num_loras m" and "base_model_path m' = base_model_path m"
    and "lru_order (active_loras_cache m') =
         lru_touch (max_num_loras m) name (lru_order (active_loras_cache m))"
proof -
  obtain w where w: "map_of (loras m) name = Some w"
    using loaded unfolding is_lora_name_def by blast
  have ci: "lru_inv (active_loras_cache m)" and sz: "lru_max_size (active_loras_cache m) = max_num_loras m"
    using inv by (simp_all add: lora_inv_def)
  have "0 < lru_max_size (active_loras_cache m)" using pos sz by simp
  then obtain ev c' where p: "lru_put name w None (active_loras_cache m) = Inr (ev, c')" "lru_inv c'"
      "lru_max_size c' = lru_max_size (active_loras_cache m)"
      "lru_order c' = lru_touch (lru_max_size (active_loras_cache m)) name (lru_order (active_loras_cache m))"
    using lru_put_refines [OF ci] by metis
  have "set (lru_order c') \<subseteq> fst ` set (loras m)"
    using set_lru_touch [of "max_num_loras m" name "lru_order (active_loras_cache m)"] p(4) sz inv loaded
    by (auto simp: lora_inv_def loaded_iff)
  then show thesis
    using w p sz inv by (intro that [of "m\<lparr>active_loras_cache := c'\<rparr>"])
      (simp_all add: activate_adapter_def lora_inv_def)
qed

lemma lru_remove_ok:
  assumes "lru_inv c"
  obtains r c' where "lru_remove key c = Inr (r, c')" and "lru_inv c'" and "lru_max_size c' = lru_max_size c"
    and "lru_order c' = filter (\<lambda>k. k \<noteq> key) (lru_order c)"
proof (cases "map_of (lru_items c) key")
  case None
  then have "key \<notin> set (lru_order c)" by (auto simp: lru_order_def map_of_eq_None_iff)
  then have "filter (\<lambda>k. k \<noteq> key) (lru_order c) = lru_order c" by (metis (mono_tags) filter_True)
  with None show thesis using assms by (intro that [of "(False, None)" c]) (simp_all add: lru_remove_def)
next
  case (Some v)
  obtain w s where v: "v = (w, s)" by (cases v)
  define c' where "c' = c\<lparr>lru_items := AList.delete key (lru_items c),
      name_to_slot := AList.delete key (name_to_slot c), free_slots := insert s (free_slots c)\<rparr>"
  have d: "distinct (map fst (lru_items c))" "inj_on (snd \<circ> snd) (set (lru_items c))"
    and ms: "map_of (name_to_slot c) = map_option snd \<circ> map_of (lru_items c)"
    using assms by (simp_all add: lru_inv_def distinct_map)
  have mem: "(key, w, s) \<in> set (lru_items c)" using Some v by (simp add: map_of_SomeD)
  have set': "set (AList.delete key (lru_items c)) = set (lru_items c) - {(key, w, s)}"
    using mem d(1) by (auto simp: delete_filter dest: eq_key_imp_eq_value)
  have us: "used_slots c' = used_slots c - {s}"
    using inj_on_image_set_diff [OF d(2), of "set (lru_items c)" "{(key, w, s)}"] mem
    by (simp add: used_slots_def c'_def set' image_comp)
  have dl: "distinct (AList.delete key (lru_items c))"
    using d(1) by (simp add: delete_filter distinct_map)
  have "lru_inv c'"
    unfolding lru_inv_def us using assms d dl mem
    by (auto simp: lru_inv_def c'_def set' used_slots_def delete_conv' fun_eq_iff distinct_map ms distinct_delete
        intro: inj_on_subset) force+
  moreover have "lru_remove key c = Inr ((True, Some s), c')"
    using Some v by (simp add: lru_remove_def ms c'_def)
  moreover have "lru_order c' = filter (\<lambda>k. k \<noteq> key) (lru_order c)"
    by (simp add: lru_order_def c'_def delete_filter filter_map comp_def split_beta)
  ultimately show thesis by (intro that) (simp_all add: c'_def)
qed

lemma unload_ok:
  assumes "lora_inv m"
  obtains st m' where "unload_adapter name m = Inr (st, m')" and "lora_inv m'"
    and "\<not> is_lora_name name m'" and "\<not> is_active_lora_name name m'"
    and "max_num_loras m' = max_num_loras m" and "base_model_path m' = base_model_path m"
proof (cases "map_of (loras m) name = None")
  case True
  then have "name \<notin> fst ` set (loras m)" by (simp add: map_of_eq_None_iff)
  then show thesis
    using True assms by (intro that [of UNLOAD_NAME_NONEXISTENT m])
      (auto simp: unload_adapter_def is_lora_name_def active_in_order lora_inv_def)
next
  case False
  have ci: "lru_inv (active_loras_cache m)" using assms by (simp add: lora_inv_def)
  obtain r c' where c': "lru_remove name (active_loras_cache m) = Inr (r, c')" "lru_inv c'"
      "lru_max_size c' = lru_max_size (active_loras_cache m)"
      "lru_order c' = filter (\<lambda>k. k \<noteq> name) (lru_order (active_loras_cache m))"
    using lru_remove_ok [OF ci] by metis
  show thesis
    using False c' assms
    by (intro that [of SUCCESS "m\<lparr>loras := AList.delete name (loras m), active_loras_cache := c'\<rparr>"])
      (auto simp: unload_adapter_def is_lora_name_def active_in_order lora_inv_def delete_conv' keys_delete)
qed

lemma load_inv:
  assumes "lora_inv m" and "load_adapter resolve rd path_of spec m = (st, m')"
  shows "lora_inv m'" and "max_num_loras m' = max_num_loras m"
proof -
  have "m' = m \<or> (\<exists>name w. m' = m\<lparr>loras := AList.update name w (loras m)\<rparr>)"
    using assms(2) by (auto simp: load_adapter_def Let_def split: if_splits option.splits prod.splits)
  then show "lora_inv m'" and "max_num_loras m' = max_num_loras m"
    using assms(1) by (auto simp: lora_inv_def dom_update)
qed

text \<open>A run of registry operations.\<close>

datatype lora_op = LoadAdapter string | ActivateAdapter string | UnloadAdapter string

fun lora_exec ::
  "(string \<Rightarrow> string option) \<Rightarrow> (string \<Rightarrow> string \<Rightarrow> 'w option) \<Rightarrow> ('w \<Rightarrow> string) \<Rightarrow>
   'w lora_manager \<Rightarrow> lora_op \<Rightarrow> 'w lora_manager result" where
  "lora_exec resolve rd path_of m (LoadAdapter spec) = Inr (snd (load_adapter resolve rd path_of spec m))"
| "lora_exec resolve rd path_of m (ActivateAdapter name) = activate_adapter name m"
| "lora_exec resolve rd path_of m (UnloadAdapter name) = bind_r (unload_adapter name m) (\<lambda>(_, m). Inr m)"

lemma lora_exec_inv:
  assumes "lora_inv m \<and> max_num_loras m = n" and "0 < n" and "lora_exec resolve rd path_of m x = Inr m'"
  shows "lora_inv m' \<and> max_num_loras m' = n"
proof (cases x)
  case (LoadAdapter spec)
  then show ?thesis
    using assms load_inv [of m resolve rd path_of spec] by (metis lora_exec.simps(1) prod.collapse sum.inject(2))
next
  case (ActivateAdapter name)
  then have "is_lora_name name m"
    using assms(3) by (auto simp: activate_adapter_def is_lora_name_def split: option.splits)
  then obtain m1 where "activate_adapter name m = Inr m1" "lora_inv m1" "max_num_loras m1 = max_num_loras m"
    using activate_ok [of m name] assms(1,2) by metis
  with ActivateAdapter show ?thesis using assms by simp
next
  case (UnloadAdapter name)
  obtain st m1 where "unload_adapter name m = Inr (st, m1)" "lora_inv m1" "max_num_loras m1 = max_num_loras m"
    using unload_ok [of m name] assms(1) by metis
  with UnloadAdapter show ?thesis using assms by simp
qed

lemma lora_run_inv:
  assumes "fold_r (lora_exec resolve rd path_of) (LoRAManager_init base n) ops = Inr m" and "0 < n"
  shows "lora_inv m \<and> max_num_loras m = n"
proof (rule fold_r_invariant [OF assms(1)])
  show "lora_inv (LoRAManager_init base n) \<and> max_num_loras (LoRAManager_init base n) = n"
    using lora_init_inv [of base n] by (simp add: LoRAManager_init_def)
qed (rule lora_exec_inv [OF _ assms(2)])

section \<open>Routing\<close>

lemma map_fst_group_ids: "x \<in> set (map fst (group_ids None k xs)) \<longleftrightarrow> x \<in> set xs"
proof -
  have "set (map fst (group_ids p k xs)) \<union> set_option p = set xs \<union> set_option p" for p
    by (induction p k xs rule: group_ids.induct) auto
  from this [of None] show ?thesis by simp
qed

text \<open>In a descending list the groups partition the positions.\<close>

abbreviation descending_from :: "int option \<Rightarrow> int list \<Rightarrow> bool" where
  "descending_from p xs \<equiv> sorted_wrt (\<ge>) xs \<and> (\<forall>q. p = Some q \<longrightarrow> (\<forall>x \<in> set xs. x \<le> q))"

definition group_starts :: "int option \<Rightarrow> nat \<Rightarrow> int list \<Rightarrow> nat list" where
  "group_starts p k xs = map snd (group_ids p k xs) @ [k + length xs]"

lemma group_starts_ge: "s \<in> set (group_starts p k xs) \<Longrightarrow> k \<le> s"
proof (induction xs arbitrary: p k)
  case (Cons x xs)
  then show ?case
    using Cons.IH [of _ "k + 1"] by (fastforce simp: group_starts_def split: if_splits)
qed (simp add: group_starts_def)

lemma group_starts_nonempty: "group_starts p k xs \<noteq> []"
  by (simp add: group_starts_def)

lemma group_starts_simps:
  "group_starts p k (x # xs) = (if p = Some x then group_starts p (k + 1) xs else k # group_starts (Some x) (k + 1) xs)"
  by (simp add: group_starts_def)

lemma group_starts_nth: "j \<le> length (group_ids p k xs) \<Longrightarrow> k \<le> group_starts p k xs ! j"
  by (rule group_starts_ge [of _ p _ xs], rule nth_mem) (simp add: group_starts_def)

lemma group_ids_below:
  "descending_from (Some q) xs \<Longrightarrow> y \<in> set (map fst (group_ids (Some q) k xs)) \<Longrightarrow> y < q"
proof (induction xs arbitrary: q k)
  case (Cons x xs)
  show ?case
  proof (cases "q = x")
    case True
    then show ?thesis using Cons.prems Cons.IH [of x "k + 1"] by auto
  next
    case False
    then have "x < q" and y: "y = x \<or> y \<in> set (map fst (group_ids (Some x) (k + 1) xs))"
      using Cons.prems by auto
    from y show ?thesis
    proof
      assume "y \<in> set (map fst (group_ids (Some x) (k + 1) xs))"
      then have "y < x" using Cons.IH [of x "k + 1"] Cons.prems by simp
      then show ?thesis using \<open>x < q\<close> by simp
    qed (use \<open>x < q\<close> in simp)
  qed
qed simp

lemma group_ids_sorted: "descending_from p xs \<Longrightarrow> sorted_wrt (>) (map fst (group_ids p k xs))"
proof (induction xs arbitrary: p k)
  case (Cons x xs)
  have d: "descending_from (Some x) xs" using Cons.prems by simp
  show ?case
    using Cons.IH [of "Some x" "k + 1"] d group_ids_below [OF d, of _ "k + 1"] by auto
qed simp

lemma group_head:
  "descending_from (Some q) xs \<Longrightarrow> i < length xs \<Longrightarrow>
   xs ! i = q \<longleftrightarrow> k + i < hd (group_starts (Some q) k xs)"
proof (induction xs arbitrary: i k)
  case (Cons x xs)
  show ?case
  proof (cases "q = x")
    case True
    have "k < hd (group_starts (Some q) (k + 1) xs)"
      using group_starts_ge [OF hd_in_set [OF group_starts_nonempty [of "Some q" "k + 1" xs]]] by simp
    then show ?thesis
      using True Cons.IH [of "i - 1" "k + 1"] Cons.prems by (cases i) (auto simp: group_starts_simps)
  next
    case False
    moreover have "(x # xs) ! i \<le> x" using Cons.prems by (cases i) auto
    moreover have "x \<le> q" using Cons.prems(1) by simp
    ultimately have "(x # xs) ! i < q" by simp
    then show ?thesis using False by (simp add: group_starts_simps)
  qed
qed simp

lemma group_ids_positions:
  "descending_from p xs \<Longrightarrow> j < length (group_ids p k xs) \<Longrightarrow> i < length xs \<Longrightarrow>
   xs ! i = fst (group_ids p k xs ! j) \<longleftrightarrow>
     group_starts p k xs ! j \<le> k + i \<and> k + i < group_starts p k xs ! Suc j"
proof (induction xs arbitrary: p k i j)
  case (Cons x xs)
  let ?g = "group_ids (Some x) (k + 1) xs" and ?s = "group_starts (Some x) (k + 1) xs"
  have d: "descending_from (Some x) xs" using Cons.prems(1) by simp
  have late: "fst (?g ! l) < x \<and> k < ?s ! l" if "l < length ?g" for l
    using that group_ids_below [OF d, of "fst (?g ! l)" "k + 1"] group_starts_nth [of l "Some x" "k + 1" xs] by auto
  have ih: "xs ! n = fst (?g ! l) \<longleftrightarrow> ?s ! l \<le> k + Suc n \<and> k + Suc n < ?s ! Suc l"
    if "l < length ?g" "n < length xs" for l n
    using Cons.IH [OF d that] by simp
  have later: "(x # xs) ! i = fst (?g ! l) \<longleftrightarrow> ?s ! l \<le> k + i \<and> k + i < ?s ! Suc l"
    if "l < length ?g" for l
    using late [OF that] ih [OF that, of "i - 1"] Cons.prems(3) by (cases i) auto
  show ?case
  proof (cases "p = Some x")
    case True
    then show ?thesis using later [of j] Cons.prems(2) by (simp add: group_starts_simps)
  next
    case False
    show ?thesis
    proof (cases j)
      case 0
      have "k < ?s ! 0" using group_starts_nth [of 0 "Some x" "k + 1" xs] by simp
      moreover have "?s ! 0 = hd ?s" by (simp add: hd_conv_nth group_starts_nonempty)
      ultimately show ?thesis
        using False 0 group_head [OF d, of "i - 1" "k + 1"] Cons.prems(3)
        by (cases i) (auto simp: group_starts_simps)
    next
      case (Suc l)
      then show ?thesis using False later [of l] Cons.prems(2) by (simp add: group_starts_simps)
    qed
  qed
qed simp

lemma group_ids_in_range: "y \<in> set (group_ids p k xs) \<Longrightarrow> snd y < k + length xs"
  by (induction p k xs rule: group_ids.induct) (auto split: if_splits)

lemma offsets_of_groups:
  assumes "\<forall>y \<in> set gs. snd y < length offs"
  shows "fold_r (\<lambda>acc (_, i). bind_r (py_index offs (int i)) (\<lambda>x. Inr (acc @ [x]))) acc gs =
    Inr (acc @ map (\<lambda>y. offs ! snd y) gs)"
  using assms by (induction gs arbitrary: acc) (auto simp: py_index_def seq_simps raise_if_def)

lemma takeWhile_above:
  "sorted_wrt (>) ys \<Longrightarrow> y \<in> set ys \<Longrightarrow> (v :: int) < y \<Longrightarrow> y \<in> set (takeWhile (\<lambda>i. i \<noteq> v) ys)"
  by (induction ys) auto

lemma id_ge: "- 1 \<le> model_name_to_id name m"
  by (simp add: model_name_to_id_def NO_ACTIVE_LORA_def split: option.split)

lemma strictly_increasing_nth:
  assumes "sorted_wrt (<) (offs :: int list)" and "a < length offs" and "b < length offs"
  shows "offs ! a \<le> offs ! b \<longleftrightarrow> a \<le> b"
  using sorted_wrt_nth_less [OF assms(1), of a b] sorted_wrt_nth_less [OF assms(1), of b a] assms(2,3)
  by (metis linorder_not_less nat_less_le order.asym order_refl)

text \<open>What the routing triple is, for a batch whose names are all known.\<close>

lemma lora_graph_inputs_eq:
  fixes batch :: "('m, 'l, 'z) text_context_scheme list"
  assumes known: "\<forall>ctx \<in> set batch. model_name ctx = [] \<or> model_name ctx = base_model_path m \<or>
      is_lora_name (model_name ctx) m"
    and len: "length offs = length batch + 1"
  defines "ids \<equiv> map (\<lambda>ctx. model_name_to_id (model_name ctx) m) batch"
  defines "n \<equiv> length (takeWhile (\<lambda>i. i \<noteq> - 1) (map fst (group_ids None 0 ids)))"
  shows "lora_graph_inputs batch offs m =
    Inr (take n (map fst (group_ids None 0 ids)),
         take (n + 1) (map ((!) offs) (group_starts None 0 ids)),
         last (take (n + 1) (map ((!) offs) (group_starts None 0 ids))))"
proof -
  let ?g = "group_ids None 0 ids"
  have "\<forall>y \<in> set ?g. snd y < length offs" using group_ids_in_range [of _ None 0 ids] len by (fastforce simp: ids_def)
  note f = offsets_of_groups [OF this, of "[]"]
  have e: "py_index offs (- 1) = Inr (offs ! length batch)"
    using len by (simp add: py_index_def seq_simps raise_if_def nat_add_distrib)
  have st: "map (\<lambda>y. offs ! snd y) ?g @ [offs ! length batch] = map ((!) offs) (group_starts None 0 ids)"
    by (simp add: group_starts_def ids_def)
  have nk: "(\<exists>ctx \<in> set batch. model_name ctx \<noteq> [] \<and> model_name ctx \<noteq> base_model_path m \<and>
      \<not> is_lora_name (model_name ctx) m) = False" using known by blast
  show ?thesis
    unfolding lora_graph_inputs_def nk raise_if_False Let_def ids_def [symmetric] f e bind_r_Inr n_def
    by (simp add: st)
qed

section \<open>Properties\<close>

text \<open>
  C15. Activating a loaded adapter, after any run of the registry, always succeeds and acts on
  the active adapters as a least-recently-used list of the configured size: the adapter moves to
  the most recent end and only when the cache is full is the oldest one dropped. Every active
  adapter is loaded and has a slot of its own below the configured number.
\<close>

theorem activation_is_lru:
  assumes "fold_r (lora_exec resolve rd path_of) (LoRAManager_init base n) ops = Inr m" and "0 < n"
    and "is_lora_name name m"
  shows "\<exists>m'. activate_adapter name m = Inr m' \<and>
    lru_order (active_loras_cache m') = lru_touch n name (lru_order (active_loras_cache m)) \<and>
    length (lru_order (active_loras_cache m')) \<le> n \<and>
    (\<forall>a b. is_active_lora_name a m' \<and> is_active_lora_name b m' \<longrightarrow>
      is_lora_name a m' \<and> (\<exists>s < n. get_slot a (active_loras_cache m') = Some s) \<and>
      (get_slot a (active_loras_cache m') = get_slot b (active_loras_cache m') \<longrightarrow> a = b))"
proof -
  obtain m' where m': "activate_adapter name m = Inr m'" "lora_inv m'" "max_num_loras m' = n"
      "lru_order (active_loras_cache m') = lru_touch n name (lru_order (active_loras_cache m))"
    using activate_ok [of m name] lora_run_inv [OF assms(1,2)] assms(2,3) by metis
  let ?c = "active_loras_cache m'"
  have c: "lru_inv ?c" "lru_max_size ?c = n" "set (lru_order ?c) \<subseteq> fst ` set (loras m')"
    using m'(2,3) by (simp_all add: lora_inv_def)
  have "card (used_slots ?c) \<le> n"
    using c(1,2) card_mono [of "{..<n}" "used_slots ?c"] by (simp add: lru_inv_def)
  then have "length (lru_order ?c) \<le> n" using lru_used_card [OF c(1)] by (simp add: lru_order_def)
  moreover have "is_lora_name a m' \<and> (\<exists>s < n. get_slot a ?c = Some s) \<and> (get_slot a ?c = get_slot b ?c \<longrightarrow> a = b)"
    if act: "is_active_lora_name a m'" "is_active_lora_name b m'" for a b
  proof -
    obtain v w where v: "map_of (lru_items ?c) a = Some v" "map_of (lru_items ?c) b = Some w"
      using act unfolding is_active_lora_name_def lru_contains_def by blast
    then have sl: "get_slot a ?c = Some (snd v)" "get_slot b ?c = Some (snd w)"
      using c(1) by (simp_all add: get_slot_def lru_inv_def)
    have mem: "(a, v) \<in> set (lru_items ?c)" "(b, w) \<in> set (lru_items ?c)" using v by (simp_all add: map_of_SomeD)
    then have "snd v < n" using c(1,2) by (force simp: lru_inv_def used_slots_def)
    moreover have "inj_on (snd \<circ> snd) (set (lru_items ?c))" using c(1) by (simp add: lru_inv_def distinct_map)
    then have "snd v = snd w \<longrightarrow> a = b" using mem inj_onD [of "snd \<circ> snd" _ "(a, v)" "(b, w)"] by auto
    moreover have "is_lora_name a m'" using act(1) c(3) by (auto simp: active_in_order loaded_iff)
    ultimately show ?thesis using sl by simp
  qed
  ultimately show ?thesis using m'(1,4) by blast
qed

text \<open>Two slots, three adapters: the oldest is dropped.\<close>

definition abc_ops :: "lora_op list" where
  "abc_ops = [LoadAdapter ''a'', LoadAdapter ''b'', LoadAdapter ''c'', ActivateAdapter ''a'', ActivateAdapter ''b'']"

definition abc_manager :: "string lora_manager" where
  "abc_manager = \<lparr>base_model_path = ''base'', max_num_loras = 2,
     loras = [(''a'', ''a''), (''b'', ''b''), (''c'', ''c'')],
     active_loras_cache = \<lparr>lru_items = [(''a'', ''a'', 0), (''b'', ''b'', 1)], lru_max_size = 2,
       free_slots = {}, name_to_slot = [(''a'', 0), (''b'', 1)]\<rparr>\<rparr>"

lemma abc_run: "fold_r (lora_exec Some (\<lambda>_. Some) id) (LoRAManager_init ''base'' 2) abc_ops = Inr abc_manager"
  by code_simp

theorem activation_is_lru_witness:
  "\<exists>m'. activate_adapter ''c'' abc_manager = Inr m' \<and> lru_order (active_loras_cache m') = [''b'', ''c'']"
proof -
  have l: "is_lora_name ''c'' abc_manager" by code_simp
  have "lru_touch 2 ''c'' (lru_order (active_loras_cache abc_manager)) = [''b'', ''c'']" by code_simp
  then show ?thesis using activation_is_lru [OF abc_run _ l] by auto
qed

text \<open>
  C20. Routing a batch that was sorted by adapter: the groups have strictly decreasing slot ids,
  every request with an active adapter is in the group of its slot and in no other, and the rows
  a group covers are exactly the rows of its requests. Base-model requests are in no group.
\<close>

theorem routing_covers_sorted_batch:
  fixes ctxs :: "('m, 'l, 'z) text_context_scheme list" and offs :: "int list"
  assumes "\<forall>ctx \<in> set ctxs. model_name ctx = [] \<or> model_name ctx = base_model_path m \<or>
      is_lora_name (model_name ctx) m"
    and "length offs = length ctxs + 1" and "sorted_wrt (<) offs"
  shows "\<exists>ids starts. lora_graph_inputs (sort_lora_batch ctxs m) offs m = Inr (ids, starts, last starts) \<and>
    length starts = length ids + 1 \<and> sorted_wrt (>) ids \<and>
    (\<forall>i < length ctxs. let slot = model_name_to_id (model_name (sort_lora_batch ctxs m ! i)) m in
      (slot \<in> set ids \<longleftrightarrow> slot \<noteq> NO_ACTIVE_LORA) \<and>
      (\<forall>j < length ids. slot = ids ! j \<longleftrightarrow> starts ! j \<le> offs ! i \<and> offs ! Suc i \<le> starts ! Suc j))"
proof -
  let ?b = "sort_lora_batch ctxs m"
  define ids where "ids = map (\<lambda>ctx. model_name_to_id (model_name ctx) m) ?b"
  define g where "g = group_ids None 0 ids"
  define n where "n = length (takeWhile (\<lambda>i. i \<noteq> - 1) (map fst g))"
  define st where "st = take (n + 1) (map ((!) offs) (group_starts None 0 ids))"
  have lb: "length ?b = length ctxs" and sb: "set ?b = set ctxs" by (simp_all add: sort_lora_batch_def)
  have run: "lora_graph_inputs ?b offs m = Inr (take n (map fst g), st, last st)"
    using lora_graph_inputs_eq [of ?b m offs] assms(1,2) lb sb unfolding ids_def g_def n_def st_def by simp
  have "sorted (map (\<lambda>ctx. - model_name_to_id (model_name ctx) m) ?b)" by (simp add: sort_lora_batch_def)
  then have "sorted_wrt (\<ge>) ids" by (simp add: ids_def sorted_wrt_map)
  then have d: "descending_from None ids" by simp
  have nl: "n \<le> length g" using length_takeWhile_le [of "\<lambda>i. i \<noteq> - 1" "map fst g"] by (simp add: n_def)
  have ls: "length st = length (take n (map fst g)) + 1"
    using nl by (simp add: st_def group_starts_def g_def)
  have so: "sorted_wrt (>) (map fst g)" using group_ids_sorted [OF d] by (simp add: g_def)
  have tk: "take n (map fst g) = takeWhile (\<lambda>i. i \<noteq> - 1) (map fst g)"
    by (simp add: n_def takeWhile_eq_take [symmetric])
  have "length (group_starts None 0 ids) = Suc (length g)" by (simp add: group_starts_def g_def)
  then have stn: "st ! k = offs ! (group_starts None 0 ids ! k)" if "k \<le> n" for k
    using that nl by (simp add: st_def)
  have gb: "group_starts None 0 ids ! k \<le> length ids" if "k \<le> n" for k
    using that nl group_ids_in_range [of "g ! k" None 0 ids]
    by (auto simp: group_starts_def g_def nth_append le_less)
  have "(ids ! i \<in> set (take n (map fst g)) \<longleftrightarrow> ids ! i \<noteq> - 1) \<and>
      (\<forall>j < n. ids ! i = map fst g ! j \<longleftrightarrow> st ! j \<le> offs ! i \<and> offs ! Suc i \<le> st ! Suc j)"
    if i: "i < length ids" for i
  proof (intro conjI allI impI)
    have mem: "ids ! i \<in> set (map fst g)" using i map_fst_group_ids [of "ids ! i" 0 ids] by (simp add: g_def)
    have "- 1 \<le> ids ! i" using i id_ge by (simp add: ids_def)
    then show "ids ! i \<in> set (take n (map fst g)) \<longleftrightarrow> ids ! i \<noteq> - 1"
      using takeWhile_above [OF so mem, of "- 1"] unfolding tk by (auto dest: set_takeWhileD)
    fix j assume j: "j < n"
    have lens: "length offs = Suc (length ids)" using assms(2) lb by (simp add: ids_def)
    show "ids ! i = map fst g ! j \<longleftrightarrow> st ! j \<le> offs ! i \<and> offs ! Suc i \<le> st ! Suc j"
      using group_ids_positions [OF d, of j 0 i] i j nl gb [of j] gb [of "Suc j"] stn [of j] stn [of "Suc j"]
        strictly_increasing_nth [OF assms(3)] lens by (auto simp: g_def)
  qed
  then have "\<forall>i < length ctxs. let slot = model_name_to_id (model_name (?b ! i)) m in
      (slot \<in> set (take n (map fst g)) \<longleftrightarrow> slot \<noteq> NO_ACTIVE_LORA) \<and>
      (\<forall>j < length (take n (map fst g)). slot = take n (map fst g) ! j \<longleftrightarrow>
         st ! j \<le> offs ! i \<and> offs ! Suc i \<le> st ! Suc j)"
    using lb nl by (simp add: ids_def NO_ACTIVE_LORA_def Let_def min_def)
  moreover have "sorted_wrt (>) (take n (map fst g))" using so by (rule sorted_wrt_take)
  ultimately show ?thesis using run ls by blast
qed

definition named :: "string \<Rightarrow> (unit, unit) text_context" where
  "named name = (TextContext_default 0 16 example_buffer)\<lparr>model_name := name\<rparr>"

definition mixed_batch :: "(unit, unit) text_context list" where
  "mixed_batch = [named ''b'', named ''base'', named ''a'', named ''b'']"

theorem routing_covers_sorted_batch_witness:
  "lora_graph_inputs (sort_lora_batch mixed_batch abc_manager) [0, 2, 3, 5, 9] abc_manager = Inr ([1, 0], [0, 3, 5], 5) \<and>
   (\<exists>ids starts. lora_graph_inputs (sort_lora_batch mixed_batch abc_manager) [0, 2, 3, 5, 9] abc_manager =
      Inr (ids, starts, last starts) \<and> sorted_wrt (>) ids)"
proof
  show "lora_graph_inputs (sort_lora_batch mixed_batch abc_manager) [0, 2, 3, 5, 9] abc_manager = Inr ([1, 0], [0, 3, 5], 5)"
    by code_simp
  have "\<forall>ctx \<in> set mixed_batch. model_name ctx = [] \<or> model_name ctx = base_model_path abc_manager \<or>
      is_lora_name (model_name ctx) abc_manager" by code_simp
  moreover have "length [0, 2, 3, 5, 9 :: int] = length mixed_batch + 1" by code_simp
  moreover have "sorted_wrt (<) [0, 2, 3, 5, 9 :: int]" by simp
  ultimately show "\<exists>ids starts. lora_graph_inputs (sort_lora_batch mixed_batch abc_manager) [0, 2, 3, 5, 9] abc_manager =
      Inr (ids, starts, last starts) \<and> sorted_wrt (>) ids"
    using routing_covers_sorted_batch [of mixed_batch abc_manager "[0, 2, 3, 5, 9]"] by blast
qed

text \<open>
  The admission check counts the protected adapters against the capacity, but activation evicts
  the least recently used adapter, protected or not. With two slots, \<open>a\<close> protected (its requests
  are generating) and the more recently used \<open>b\<close> idle, a request for \<open>c\<close> is admitted and
  its activation evicts \<open>a\<close>.
\<close>

theorem admission_can_evict_protected:
  "can_allocate_lora (named ''c'') {''a''} (Some abc_manager) = Inr True \<and>
   (case activate_adapter ''c'' abc_manager of Inl _ \<Rightarrow> False
    | Inr m \<Rightarrow> is_active_lora_name ''a'' abc_manager \<and> \<not> is_active_lora_name ''a'' m \<and> is_active_lora_name ''b'' m)"
  by code_simp

end
