(* ===== verification/Cache_Manager.thy ===== *)
theory Cache_Manager
  imports Block_Accounting Complex_Main
begin

text \<open>
  The paged KV cache manager, \<open>max/pipelines/kv_cache/paged_kv_cache/cache_manager.py\<close>, and the
  interface the scheduler uses of it, \<open>cache_manager_interface.py\<close>.

  \<open>alloc\<close> is the one call whose exception the scheduler catches and goes on from, so its
  \<open>InsufficientBlocksError\<close> is the outcome \<open>OutOfBlocks\<close>, returned with the state as the call
  left it: transfers polled, cached prefix adopted, no new block taken. The lookup table is a
  list of rows of page indices; the pinned staging buffers and the copies to the devices are left
  out, and so are the buffers of the pages themselves.
\<close>

section \<open>The interface\<close>

datatype alloc_outcome = Allocated transfer | OutOfBlocks

record ('m, 'l, 's) kv_cache =
  kv_contains :: "('m, 'l) any_context \<Rightarrow> 's \<Rightarrow> bool"
  kv_claim :: "('m, 'l) any_context \<Rightarrow> nat \<Rightarrow> 's \<Rightarrow> 's result"
  kv_alloc :: "('m, 'l) any_context \<Rightarrow> 's \<Rightarrow> (alloc_outcome \<times> ('m, 'l) any_context \<times> 's) result"
  kv_alloc_dummy :: "('m, 'l) any_context \<Rightarrow> nat \<Rightarrow> 's \<Rightarrow> 's result"
  kv_release :: "('m, 'l) any_context \<Rightarrow> 's \<Rightarrow> 's result"
  kv_event_done :: "transfer \<Rightarrow> 's \<Rightarrow> bool"
  kv_pending_transfers_exist :: "nat \<Rightarrow> 's \<Rightarrow> bool result"
  kv_block_count :: "nat \<Rightarrow> 's \<Rightarrow> block_count result"
  kv_get_prefix_cache_hit_counts :: "('m, 'l) any_context \<Rightarrow> 's \<Rightarrow> prefix_cache_hits list result"
  kv_page_size :: "'s \<Rightarrow> int"

definition used_pct :: "block_count \<Rightarrow> rat" where
  "used_pct c = (if bc_total c \<noteq> 0 then 100 * of_int (bc_used c) / of_int (bc_total c) else 0)"

section \<open>State\<close>

record kv_params =
  page_size :: int
  num_draft_tokens :: int
  num_draft_tokens_per_step :: int
  params_prefix_caching :: bool
  params_data_parallel_degree :: nat
  params_hash_algo :: hash_algo
  params_hash_seed :: "bytes option"
  params_cross_replica_copy :: bool

record 'k cache_manager =
  cm_params :: kv_params
  total_num_pages :: nat
  cm_max_batch_size :: int
  cm_bm :: "'k block_manager"

definition PagedKVCacheManager_init ::
  "kv_params \<Rightarrow> nat \<Rightarrow> nat \<Rightarrow> int \<Rightarrow> bool \<Rightarrow> bool \<Rightarrow> 'k \<Rightarrow> 'k cache_manager result" where
  "PagedKVCacheManager_init p num_devices pages max_batch checks only_last k =
     raise_if (max_batch < 1) ValueError
     (let n = params_data_parallel_degree p in
      raise_if (n = 0) ZeroDivisionError
      (assert_r (num_devices mod n = 0)
      (bind_r (BlockManager_init pages (page_size p) k (params_prefix_caching p) checks n (params_hash_algo p)
                (params_hash_seed p) (n > 1 \<and> params_prefix_caching p) (params_cross_replica_copy p) only_last)
        (\<lambda>bm. Inr \<lparr>cm_params = p, total_num_pages = pages, cm_max_batch_size = max_batch, cm_bm = bm\<rparr>))))"

abbreviation set_bm :: "'k block_manager \<Rightarrow> 'k cache_manager \<Rightarrow> 'k cache_manager" where
  "set_bm bm cm \<equiv> cm\<lparr>cm_bm := bm\<rparr>"

section \<open>Requests\<close>

definition cm_contains :: "('m, 'l) any_context \<Rightarrow> 'k cache_manager \<Rightarrow> bool" where
  "cm_contains ctx cm \<longleftrightarrow> map_of (req_to_replica (cm_bm cm)) (rid ctx) \<noteq> None"

definition cm_claim :: "('m, 'l) any_context \<Rightarrow> nat \<Rightarrow> 'k cache_manager \<Rightarrow> 'k cache_manager result" where
  "cm_claim ctx r cm = bind_r (claim ctx r (cm_bm cm)) (\<lambda>bm. Inr (set_bm bm cm))"

definition cm_release :: "('m, 'l) any_context \<Rightarrow> 'k cache_manager \<Rightarrow> 'k cache_manager result" where
  "cm_release ctx cm =
     raise_if (\<not> cm_contains ctx cm) ValueError
       (bind_r (release ctx (cm_bm cm)) (\<lambda>bm. Inr (set_bm bm cm)))"

definition cm_alloc ::
  "hash_prims \<Rightarrow> 'k kv_connector \<Rightarrow> ('m, 'l) any_context \<Rightarrow> 'k cache_manager \<Rightarrow>
   (alloc_outcome \<times> ('m, 'l) any_context \<times> 'k cache_manager) result" where
  "cm_alloc P C ctx cm =
     bind_r (poll_transfers C (cm_bm cm)) (\<lambda>bm.
     bind_r (reuse_blocks_from_prefix_cache P C ctx bm) (\<lambda>((_, load_event), ctx, bm).
       case allocate_new_blocks ctx (num_draft_tokens (cm_params cm)) (num_draft_tokens_per_step (cm_params cm)) bm of
         Inr bm \<Rightarrow> Inr (Allocated load_event, ctx, set_bm bm cm)
       | Inl e \<Rightarrow> if e = InsufficientBlocksError then Inr (OutOfBlocks, ctx, set_bm bm cm) else Inl e))"

definition cm_alloc_dummy :: "('m, 'l) any_context \<Rightarrow> nat \<Rightarrow> 'k cache_manager \<Rightarrow> 'k cache_manager result" where
  "cm_alloc_dummy ctx r cm =
     bind_r (cm_claim ctx r cm) (\<lambda>cm.
     bind_r (register_dummy_request ctx (cm_bm cm)) (\<lambda>bm. Inr (set_bm bm cm)))"

definition cm_step :: "hash_prims \<Rightarrow> ('m, 'l) any_context \<Rightarrow> 'k cache_manager \<Rightarrow> 'k cache_manager result" where
  "cm_step P ctx cm = bind_r (step P ctx (cm_bm cm)) (\<lambda>bm. Inr (set_bm bm cm))"

definition cm_poll_transfers :: "'k kv_connector \<Rightarrow> 'k cache_manager \<Rightarrow> 'k cache_manager result" where
  "cm_poll_transfers C cm = bind_r (poll_transfers C (cm_bm cm)) (\<lambda>bm. Inr (set_bm bm cm))"

definition cm_pending_transfers_exist :: "nat \<Rightarrow> 'k cache_manager \<Rightarrow> bool result" where
  "cm_pending_transfers_exist r cm = pending_transfers_exist r (cm_bm cm)"

definition cm_get_req_blocks :: "('m, 'l) any_context \<Rightarrow> 'k cache_manager \<Rightarrow> bid list result" where
  "cm_get_req_blocks ctx cm = get_req_blocks ctx (cm_bm cm)"

definition cm_block_count :: "nat \<Rightarrow> 'k cache_manager \<Rightarrow> block_count result" where
  "cm_block_count r cm =
     bind_r (pool_at r (cm_bm cm)) (\<lambda>p.
       Inr \<lparr>bc_free = pool_num_free_blocks p, bc_total = int (bm_total_num_blocks (cm_bm cm))\<rparr>)"

definition cm_reset_prefix_cache :: "'k kv_connector \<Rightarrow> 'k cache_manager \<Rightarrow> 'k cache_manager result" where
  "cm_reset_prefix_cache C cm =
     bind_r (bm_reset_prefix_cache (cm_bm cm)) (\<lambda>bm.
       Inr (set_bm (foldl (\<lambda>bm _. bm\<lparr>conn_state := conn_reset_prefix_cache C (conn_state bm)\<rparr>) bm
                     [0..<params_data_parallel_degree (cm_params cm)]) cm))"

definition get_prefix_cache_hit_counts ::
  "hash_prims \<Rightarrow> 'k kv_connector \<Rightarrow> ('m, 'l) any_context \<Rightarrow> 'k cache_manager \<Rightarrow> prefix_cache_hits list result" where
  "get_prefix_cache_hit_counts P C ctx cm =
     (let n = params_data_parallel_degree (cm_params cm); bm = cm_bm cm in
      if \<not> params_prefix_caching (cm_params cm)
      then Inr (replicate n \<lparr>device_blocks = 0, host_blocks = 0, disk_blocks = 0\<rparr>)
      else bind_r (compute_block_hashes P ctx [] (block_size bm) (kv_hash_algo bm) (kv_hash_seed bm)) (\<lambda>block_hashes.
        fold_r (\<lambda>hits _. bind_r (count_cached_prefix_blocks C block_hashes bm) (\<lambda>h. Inr (hits @ [h])))
          [] [0..<n]))"

definition effective_max_seq_length :: "'k cache_manager \<Rightarrow> int" where
  "effective_max_seq_length cm = int (total_num_pages cm) * page_size (cm_params cm)"

text \<open>The manager as an implementation of the interface.\<close>

definition paged_kv ::
  "hash_prims \<Rightarrow> 'k kv_connector \<Rightarrow> ('m, 'l, 'k cache_manager) kv_cache" where
  "paged_kv P C =
     \<lparr>kv_contains = cm_contains, kv_claim = cm_claim, kv_alloc = cm_alloc P C,
      kv_alloc_dummy = cm_alloc_dummy, kv_release = cm_release,
      kv_event_done = (\<lambda>ev cm. is_complete C (conn_state (cm_bm cm)) ev),
      kv_pending_transfers_exist = cm_pending_transfers_exist, kv_block_count = cm_block_count,
      kv_get_prefix_cache_hit_counts = get_prefix_cache_hit_counts P C,
      kv_page_size = (\<lambda>cm. page_size (cm_params cm))\<rparr>"

section \<open>Runtime inputs\<close>

definition does_req_need_more_blocks ::
  "('m, 'l) any_context \<Rightarrow> int \<Rightarrow> kv_params \<Rightarrow> int option \<Rightarrow> bool" where
  "does_req_need_more_blocks ctx num_blocks_allocated p max_num_input_tokens \<longleftrightarrow>
     compute_seq_len ctx (num_draft_tokens p) (num_draft_tokens_per_step p) max_num_input_tokens
       > num_blocks_allocated * page_size p"

abbreviation spec_of :: "('m, 'l) any_context \<Rightarrow> spec_decoding" where
  "spec_of ctx \<equiv> fst (get_spec_decoding_state (ctx_base ctx))"

definition prompt_tokens_for_context :: "('m, 'l) any_context \<Rightarrow> int" where
  "prompt_tokens_for_context ctx =
     active_length (ctx_tokens ctx) + int (length (draft_tokens_to_verify (spec_of ctx)))"

definition cache_valid_length_for_context :: "('m, 'l) any_context \<Rightarrow> int \<Rightarrow> int" where
  "cache_valid_length_for_context ctx n =
     processed_length (ctx_tokens ctx) + int (length (maybe_accepted_draft_tokens (spec_of ctx)))
     + prompt_tokens_for_context ctx + n"

definition LUT_TAIL_PAD :: int where
  "LUT_TAIL_PAD = 16"

definition padded_lut_cols :: "int \<Rightarrow> int" where
  "padded_lut_cols cols = (cols + 7) div 8 * 8 + LUT_TAIL_PAD"

text \<open>The capacity check of \<open>_contiguous_prefix_2d\<close> on a buffer of \<open>n\<close> elements.\<close>

definition contiguous_prefix_2d :: "int \<Rightarrow> int \<Rightarrow> int \<Rightarrow> unit result" where
  "contiguous_prefix_2d n rows cols =
     raise_if (rows < 0 \<or> cols < 0) ValueError (raise_if (rows * cols > n) ValueError (Inr ()))"

definition lut_buffer_elements :: "'k cache_manager \<Rightarrow> int" where
  "lut_buffer_elements cm = cm_max_batch_size cm * padded_lut_cols (int (total_num_pages cm))"

record batch_characteristics =
  bch_batch_size :: int
  bch_max_prompt_length :: int
  bch_max_cache_valid_length :: int

record kv_assignments =
  lookup_table :: "int list list"
  cache_lengths :: "int list"
  asg_characteristics :: batch_characteristics

abbreviation cm_seq_len :: "'k cache_manager \<Rightarrow> ('m, 'l) any_context \<Rightarrow> int" where
  "cm_seq_len cm ctx \<equiv>
     compute_seq_len ctx (num_draft_tokens (cm_params cm)) (num_draft_tokens_per_step (cm_params cm)) None"

text \<open>The first loop: every request has its blocks, and the longest sequence.\<close>

definition check_blocks :: "'k cache_manager \<Rightarrow> int \<Rightarrow> ('m, 'l) any_context \<Rightarrow> int result" where
  "check_blocks cm max_seq_len ctx =
     bind_r (cm_get_req_blocks ctx cm) (\<lambda>blks.
     raise_if (does_req_need_more_blocks ctx (int (length blks)) (cm_params cm) None) ValueError
       (Inr (max max_seq_len (cm_seq_len cm ctx))))"

definition lut_num_pages :: "'k cache_manager \<Rightarrow> int \<Rightarrow> int option \<Rightarrow> int result" where
  "lut_num_pages cm max_seq_len max_cache_length =
     (let required = ceildiv max_seq_len (page_size (cm_params cm)) in
      case max_cache_length of None \<Rightarrow> Inr required
      | Some n \<Rightarrow>
          raise_if (n < 1) ValueError
          (let pages = ceildiv n (page_size (cm_params cm))
           in raise_if (pages < required) ValueError (Inr pages)))"

text \<open>The second loop: one row of the table and one cache length per request.\<close>

definition assign_row ::
  "'k cache_manager \<Rightarrow> int \<Rightarrow> int list list \<times> int list \<times> int \<times> int \<Rightarrow> ('m, 'l) any_context \<Rightarrow>
   (int list list \<times> int list \<times> int \<times> int) result" where
  "assign_row cm cols st ctx =
     (let (rows, lens, max_prompt_len, max_cached_len) = st in
      bind_r (cm_get_req_blocks ctx cm) (\<lambda>blks.
      let num_required_blocks = ceildiv (cm_seq_len cm ctx) (page_size (cm_params cm)) in
      assert_r (int (length blks) \<ge> num_required_blocks)
      (let blks = (if int (length blks) > num_required_blocks then py_slice blks 0 num_required_blocks else blks) in
       raise_if (int (length blks) > cols) ValueError
       (Inr (rows @ [map int blks @ replicate (nat cols - length blks) (int (total_num_pages cm))],
             lens @ [processed_length (ctx_tokens ctx) + int (length (maybe_accepted_draft_tokens (spec_of ctx)))],
             max max_prompt_len (prompt_tokens_for_context ctx),
             max max_cached_len (cache_valid_length_for_context ctx (num_draft_tokens (cm_params cm))))))))"

definition compute_kv_cache_assignments ::
  "'k kv_connector \<Rightarrow> nat \<Rightarrow> ('m, 'l) any_context list \<Rightarrow> int option \<Rightarrow> batch_characteristics option \<Rightarrow>
   'k cache_manager \<Rightarrow> (kv_assignments \<times> 'k cache_manager) result" where
  "compute_kv_cache_assignments C r batch max_cache_length bc cm =
     raise_if (\<not> r < params_data_parallel_degree (cm_params cm)) IndexError
     (bind_r (fold_r (check_blocks cm) 0 batch) (\<lambda>max_seq_len.
      bind_r (lut_num_pages cm max_seq_len max_cache_length) (\<lambda>pages.
      raise_if (int (length batch) > cm_max_batch_size cm) ValueError
      (raise_if (pages > int (total_num_pages cm)) ValueError
      (let cols = padded_lut_cols pages in
       bind_r (contiguous_prefix_2d (lut_buffer_elements cm) (int (length batch)) cols) (\<lambda>_.
       bind_r (fold_r (assign_row cm cols) ([], [], 0, 0) batch) (\<lambda>(rows, lens, mp, mc).
       bind_r (offload C r (cm_bm cm)) (\<lambda>bm.
       bind_r (case bc of None \<Rightarrow> Inr \<lparr>bch_batch_size = int (length batch), bch_max_prompt_length = mp,
                                       bch_max_cache_valid_length = mc\<rparr>
               | Some b \<Rightarrow> raise_if (int (length batch) > bch_batch_size b \<or> mp > bch_max_prompt_length b \<or>
                                     mc > bch_max_cache_valid_length b) ValueError (Inr b)) (\<lambda>chars.
         Inr (\<lparr>lookup_table = rows, cache_lengths = lens, asg_characteristics = chars\<rparr>, set_bm bm cm))))))))))"

definition runtime_inputs ::
  "'k kv_connector \<Rightarrow> ('m, 'l) any_context list list \<Rightarrow> int option \<Rightarrow> batch_characteristics option \<Rightarrow>
   'k cache_manager \<Rightarrow> (kv_assignments list \<times> 'k cache_manager) result" where
  "runtime_inputs C batches max_cache_length bc cm =
     raise_if (length batches \<noteq> params_data_parallel_degree (cm_params cm)) ValueError
     (fold_r (\<lambda>(asgs, cm) (r, batch).
        bind_r (compute_kv_cache_assignments C r batch max_cache_length bc cm) (\<lambda>(a, cm). Inr (asgs @ [a], cm)))
      ([], cm) (enumerate 0 batches))"

end
