(* ===== verification/Cache_Contract.thy ===== *)
theory Cache_Contract
  imports Cache_Manager Manager_Properties
begin

text \<open>
  What the scheduler relies on when it uses a KV cache: a claimed request is owned by one replica
  until it is released, allocation moves only a request's processing window, and releasing an
  owned request succeeds. The locale \<open>kv_cache_contract\<close> states it over the interface; the paged
  manager interprets it. The last section is about the lookup table given to the device.
\<close>

section \<open>The contract\<close>

text \<open>What allocation may not change of a request.\<close>

definition same_request :: "('m, 'l) any_context \<Rightarrow> ('m, 'l) any_context \<Rightarrow> bool" where
  "same_request c c' \<longleftrightarrow> rid c' = rid c \<and> model_name (ctx_base c') = model_name (ctx_base c) \<and>
     generated_length (ctx_tokens c') = generated_length (ctx_tokens c)"

lemma same_request_refl [simp]: "same_request c c"
  by (simp add: same_request_def)

lemma same_request_trans: "same_request a b \<Longrightarrow> same_request b c \<Longrightarrow> same_request a c"
  by (simp add: same_request_def)

locale kv_cache_contract =
  fixes K :: "('m, 'l, 's) kv_cache"
    and ok :: "'s \<Rightarrow> bool"
    and owner :: "'s \<Rightarrow> request_id \<Rightarrow> nat option"
    and nrep :: "'s \<Rightarrow> nat"
  assumes contains_owner: "kv_contains K c s \<longleftrightarrow> owner s (rid c) \<noteq> None"
    and claim_owns: "ok s \<Longrightarrow> owner s (rid c) = None \<Longrightarrow> r < nrep s \<Longrightarrow>
      \<exists>s'. kv_claim K c r s = Inr s' \<and> ok s' \<and> owner s' = (owner s)(rid c \<mapsto> r) \<and> nrep s' = nrep s"
    and alloc_keeps: "ok s \<Longrightarrow> kv_alloc K c s = Inr (out, c', s') \<Longrightarrow>
      ok s' \<and> owner s' = owner s \<and> nrep s' = nrep s \<and> same_request c c'"
    and release_owned: "ok s \<Longrightarrow> owner s (rid c) = Some r \<Longrightarrow>
      \<exists>s'. kv_release K c s = Inr s' \<and> ok s' \<and> owner s' = (owner s)(rid c := None) \<and> nrep s' = nrep s"
    and dummy_owns: "ok s \<Longrightarrow> owner s (rid c) = None \<Longrightarrow> r < nrep s \<Longrightarrow>
      \<exists>s'. kv_alloc_dummy K c r s = Inr s' \<and> ok s' \<and> owner s' = (owner s)(rid c \<mapsto> r) \<and> nrep s' = nrep s"
    and owner_in_range: "ok s \<Longrightarrow> owner s i = Some r \<Longrightarrow> r < nrep s"
begin

text \<open>The guard the scheduler puts in front of every release: it cannot fail, and forgets the request.\<close>

lemma guarded_release:
  assumes "ok s"
  shows "\<exists>s'. (if kv_contains K c s then kv_release K c s else Inr s) = Inr s' \<and> ok s' \<and>
    owner s' = (owner s)(rid c := None) \<and> nrep s' = nrep s"
proof (cases "owner s (rid c)")
  case None
  then show ?thesis using assms by (auto simp: contains_owner)
next
  case (Some r)
  then show ?thesis using release_owned [OF assms Some] by (simp add: contains_owner)
qed

text \<open>Claim if needed, then allocate: the request is owned afterwards and keeps its owner.\<close>

lemma claim_if_needed:
  assumes "ok s" and "r < nrep s"
  shows "\<exists>s'. (if \<not> kv_contains K c s then kv_claim K c r s else Inr s) = Inr s' \<and> ok s' \<and>
    nrep s' = nrep s \<and>
    owner s' = (owner s)(rid c \<mapsto> (case owner s (rid c) of None \<Rightarrow> r | Some q \<Rightarrow> q))"
proof (cases "owner s (rid c)")
  case None
  then show ?thesis using claim_owns [OF assms(1) None assms(2)] by (auto simp: contains_owner)
next
  case (Some q)
  then show ?thesis using assms by (auto simp: contains_owner)
qed

end

section \<open>The paged manager meets the contract\<close>

definition cm_owner :: "'k cache_manager \<Rightarrow> request_id \<Rightarrow> nat option" where
  "cm_owner cm = map_of (req_to_replica (cm_bm cm))"

definition cm_ok :: "'k cache_manager \<Rightarrow> bool" where
  "cm_ok cm \<longleftrightarrow> bm_inv (cm_bm cm) \<and> (\<forall>i r. cm_owner cm i = Some r \<longrightarrow> r < num_replicas (cm_bm cm))"

abbreviation cm_replicas :: "'k cache_manager \<Rightarrow> nat" where
  "cm_replicas cm \<equiv> num_replicas (cm_bm cm)"

definition same_owners :: "'k block_manager \<Rightarrow> 'k block_manager \<Rightarrow> bool" where
  "same_owners m m' \<longleftrightarrow> req_to_replica m' = req_to_replica m \<and> num_replicas m' = num_replicas m \<and>
     block_size m' = block_size m \<and> bm_total_num_blocks m' = bm_total_num_blocks m"

lemma same_owners_trans: "same_owners a b \<Longrightarrow> same_owners b c \<Longrightarrow> same_owners a c"
  by (simp add: same_owners_def)

lemma same_requests_owners: "same_requests m m' \<Longrightarrow> same_owners m m'"
  by (simp add: same_requests_def same_owners_def)

lemma set_tokens_simps [simp]:
  "ctx_tokens (set_tokens t ctx) = t" "model_name (ctx_base (set_tokens t ctx)) = model_name (ctx_base ctx)"
  by (cases ctx; simp add: text_context.truncate_def)+

lemma set_cached_prefix_simps [simp]:
  "rid (set_cached_prefix n ctx) = rid ctx" "ctx_tokens (set_cached_prefix n ctx) = ctx_tokens ctx"
  "model_name (ctx_base (set_cached_prefix n ctx)) = model_name (ctx_base ctx)"
  by (cases ctx; simp add: text_context.truncate_def)+

lemma window_moves_keep_generated:
  "rewind_processing n t = Inr t' \<Longrightarrow> generated_length t' = generated_length t"
  "skip_processing n t = Inr t' \<Longrightarrow> generated_length t' = generated_length t"
  "shift_processing n t = Inr t' \<Longrightarrow> generated_length t' = generated_length t"
  by (auto simp: rewind_processing_def skip_processing_def shift_processing_def generated_length_def result_Inr
      split: if_splits)

lemma release_uncommitted_request:
  assumes "release_uncommitted_blocks ctx m = Inr (ctx', m')"
  shows "same_request ctx ctx'" and "same_owners m m'"
  using assms by (auto simp: release_uncommitted_blocks_def Let_def result_Inr same_request_def same_owners_def
      window_moves_keep_generated)

lemma adopt_blocks_request:
  assumes "adopt_blocks ctx found m = Inr (skip, ctx', m')"
  shows "same_request ctx ctx'" and "same_owners m m'"
proof -
  have "same_request ctx ctx' \<and> same_owners m m'"
  proof (cases "found = []")
    case True
    then show ?thesis using assms by (auto simp: adopt_blocks_def same_request_def same_owners_def)
  next
    case False
    with assms obtain c m1 t where ru: "release_uncommitted_blocks ctx m = Inr (c, m1)"
      and t: "skip_processing skip (ctx_tokens c) = Inr t"
      and c': "ctx' = (if processed_length (ctx_tokens ctx) = 0 then set_cached_prefix skip (set_tokens t c) else set_tokens t c)"
      and m': "m' = (set_blocks (rid ctx) (blocks_of m1 (rid ctx) @ found) m1)\<lparr>req_to_committed_idx :=
        AList.update (rid ctx) (committed_of m1 (rid ctx) + int (length found) * block_size m1) (req_to_committed_idx m1)\<rparr>"
      by (auto simp: adopt_blocks_def Let_def result_Inr)
    show ?thesis
      using release_uncommitted_request [OF ru] c' m' window_moves_keep_generated(2) [OF t]
      by (auto simp: same_request_def same_owners_def)
  qed
  then show "same_request ctx ctx'" and "same_owners m m'" by simp_all
qed

lemma reuse_request:
  assumes "accounts X m" and "reuse_blocks_from_prefix_cache P C ctx m = Inr (out, ctx', m')"
  shows "same_request ctx ctx'" and "same_owners m m'"
proof -
  have "same_request ctx ctx' \<and> same_owners m m'"
  proof (cases "m' = m \<and> ctx' = ctx")
    case False
    with assms(2) obtain r m1 found e m2 where rep: "map_of (req_to_replica m) (rid ctx) = Some r"
      and h: "compute_hashes_for_request P ctx m = Inr m1"
      and l: "get_full_blocks_from_prefix_cache C ctx m1 = Inr ((found, e), m2)"
      and ad: "adopt_blocks ctx found m2 = Inr (fst out, ctx', m')"
      by (auto simp: reuse_blocks_from_prefix_cache_def bind_r_eq_Inr replica_of_eq split: if_splits)
    have a1: "accounts X m1" by (rule compute_hashes_inv [OF assms(1) h])
    have s1: "map_of (req_to_replica m1) (rid ctx) = Some r" "same_owners m m1"
      using h rep by (auto simp: compute_hashes_for_request_def Let_def bind_r_eq_Inr same_owners_def)
    have "same_owners m1 m2"
    proof (cases "r < num_replicas m1")
      case True
      from lookup_inv [OF a1 s1(1) True l] show ?thesis by (simp add: same_requests_owners)
    next
      case False
      with lookup_out_of_range [OF s1(1) _ l] accounts_replicas [OF a1] show ?thesis by (simp add: same_owners_def)
    qed
    with s1(2) adopt_blocks_request [OF ad] show ?thesis by (blast intro: same_owners_trans)
  qed (simp add: same_owners_def)
  then show "same_request ctx ctx'" and "same_owners m m'" by simp_all
qed

lemma allocate_owners: "allocate_new_blocks ctx d s m = Inr m' \<Longrightarrow> same_owners m m'"
  by (auto simp: allocate_new_blocks_def allocate_device_blocks_def Let_def result_Inr same_owners_def)

lemma cm_alloc_runs:
  assumes "cm_alloc P C ctx cm = Inr (out, ctx', cm')"
  obtains m1 skip ev m2 where "poll_transfers C (cm_bm cm) = Inr m1"
    and "reuse_blocks_from_prefix_cache P C ctx m1 = Inr ((skip, ev), ctx', m2)"
    and "(out = OutOfBlocks \<and> cm' = set_bm m2 cm \<and>
           allocate_new_blocks ctx' (num_draft_tokens (cm_params cm)) (num_draft_tokens_per_step (cm_params cm)) m2
             = Inl InsufficientBlocksError) \<or>
         (\<exists>m3. out = Allocated ev \<and> cm' = set_bm m3 cm \<and>
            allocate_new_blocks ctx' (num_draft_tokens (cm_params cm)) (num_draft_tokens_per_step (cm_params cm)) m2 = Inr m3)"
proof -
  let ?al = "\<lambda>c m. allocate_new_blocks c (num_draft_tokens (cm_params cm)) (num_draft_tokens_per_step (cm_params cm)) m"
  obtain m1 skip ev c m2 where p: "poll_transfers C (cm_bm cm) = Inr m1"
    and r: "reuse_blocks_from_prefix_cache P C ctx m1 = Inr ((skip, ev), c, m2)"
    and rest: "(case ?al c m2 of Inr bm \<Rightarrow> Inr (Allocated ev, c, set_bm bm cm)
       | Inl e \<Rightarrow> if e = InsufficientBlocksError then Inr (OutOfBlocks, c, set_bm m2 cm) else Inl e) =
       Inr (out, ctx', cm')"
    using assms by (auto simp: cm_alloc_def bind_r_eq_Inr)
  from rest have "c = ctx' \<and> (out = OutOfBlocks \<and> cm' = set_bm m2 cm \<and> ?al c m2 = Inl InsufficientBlocksError \<or>
      (\<exists>m3. out = Allocated ev \<and> cm' = set_bm m3 cm \<and> ?al c m2 = Inr m3))"
    by (auto split: sum.splits if_splits)
  then show thesis using p r by (intro that [of m1 skip ev m2]) auto
qed

lemma cm_alloc_inv:
  assumes "bm_inv (cm_bm cm)" and "cm_alloc P C ctx cm = Inr (out, ctx', cm')"
  shows "bm_inv (cm_bm cm')" and "same_owners (cm_bm cm) (cm_bm cm')" and "same_request ctx ctx'"
    and "cm_params cm' = cm_params cm"
proof -
  obtain m1 skip ev m2 where p: "poll_transfers C (cm_bm cm) = Inr m1"
    and r: "reuse_blocks_from_prefix_cache P C ctx m1 = Inr ((skip, ev), ctx', m2)"
    and a: "(out = OutOfBlocks \<and> cm' = set_bm m2 cm \<and>
           allocate_new_blocks ctx' (num_draft_tokens (cm_params cm)) (num_draft_tokens_per_step (cm_params cm)) m2
             = Inl InsufficientBlocksError) \<or>
         (\<exists>m3. out = Allocated ev \<and> cm' = set_bm m3 cm \<and>
            allocate_new_blocks ctx' (num_draft_tokens (cm_params cm)) (num_draft_tokens_per_step (cm_params cm)) m2 = Inr m3)"
    by (rule cm_alloc_runs [OF assms(2)])
  have a0: "accounts none_loose (cm_bm cm)" using assms(1) by (simp add: bm_inv_def)
  note p' = poll_transfers_inv [OF a0 p]
  note r' = reuse_inv [OF p'(1) r] reuse_request [OF p'(1) r]
  have o: "same_owners (cm_bm cm) m2"
    using same_requests_owners [OF p'(2)] r'(3) by (rule same_owners_trans)
  show "same_request ctx ctx'" by (rule r'(2))
  show "bm_inv (cm_bm cm')"
    using a r'(1) allocate_new_blocks_inv [OF r'(1)] by (auto simp: bm_inv_def)
  show "same_owners (cm_bm cm) (cm_bm cm')"
    using a
  proof (elim disjE exE conjE)
    fix m3
    assume "cm' = set_bm m3 cm" and m3: "allocate_new_blocks ctx' (num_draft_tokens (cm_params cm))
        (num_draft_tokens_per_step (cm_params cm)) m2 = Inr m3"
    then show ?thesis using same_owners_trans [OF o allocate_owners [OF m3]] by simp
  qed (use o in simp)
  show "cm_params cm' = cm_params cm" using a by auto
qed

lemma release_total:
  assumes "bm_inv m" and "map_of (req_to_replica m) (rid ctx) = Some r" and "r < num_replicas m"
  obtains m' where "release ctx m = Inr m'" and "bm_inv m'" and "num_replicas m' = num_replicas m"
    and "req_to_replica m' = AList.delete (rid ctx) (req_to_replica m)"
proof -
  let ?bs = "if enable_prefix_caching m then rev (blocks_of m (rid ctx)) else blocks_of m (rid ctx)"
  have a: "accounts none_loose m" using assms(1) by (simp add: bm_inv_def)
  have tr: "pool_tracks (device_block_pools m ! r) (held m r)" using accounts_pool [OF a assms(3)] by simp
  have "mset ?bs \<subseteq># held m r" using blocks_held [OF assms(2)] by simp
  then obtain p where "free_blocks_in_order ?bs (device_block_pools m ! r) = Inr p"
    using free_in_order_total [OF tr] by blast
  then obtain m' where m': "release ctx m = Inr m'" "num_replicas m' = num_replicas m"
      "req_to_replica m' = AList.delete (rid ctx) (req_to_replica m)"
    using assms(2,3) accounts_replicas [OF a] by (simp add: release_def Let_def replica_of_def pool_at_def)
  then show thesis using release_inv [OF a m'(1)] that [of m'] by (simp add: bm_inv_def)
qed

lemma dummy_total:
  assumes "bm_inv m" and "map_of (req_to_replica m) (rid ctx) = Some r" and "r < num_replicas m"
    and "blocks_of m (rid ctx) = []"
  obtains m' where "register_dummy_request ctx m = Inr m'" and "bm_inv m'" and "same_owners m m'"
proof -
  have a: "accounts none_loose m" using assms(1) by (simp add: bm_inv_def)
  obtain m' where m': "register_dummy_request ctx m = Inr m'" "same_owners m m'"
    using assms accounts_replicas [OF a]
    by (simp add: register_dummy_request_def replica_of_def pool_at_def same_owners_def)
  then show thesis using register_dummy_inv [OF a m'(1)] that [of m'] by (simp add: bm_inv_def)
qed

interpretation paged: kv_cache_contract "paged_kv P C :: ('m, 'l, 'k cache_manager) kv_cache" cm_ok cm_owner cm_replicas
  for P :: hash_prims and C :: "'k kv_connector"
proof unfold_locales
  fix c :: "('m, 'l) any_context" and s :: "'k cache_manager"
  show "kv_contains (paged_kv P C) c s \<longleftrightarrow> cm_owner s (rid c) \<noteq> None"
    by (simp add: paged_kv_def cm_contains_def cm_owner_def)
next
  fix s :: "'k cache_manager" and c :: "('m, 'l) any_context" and r
  assume s: "cm_ok s" "cm_owner s (rid c) = None" "r < cm_replicas s"
  then obtain m' where m': "claim c r (cm_bm s) = Inr m'"
      "m' = (cm_bm s)\<lparr>req_to_replica := AList.update (rid c) r (req_to_replica (cm_bm s))\<rparr>"
    by (simp add: claim_def cm_owner_def)
  then have "bm_inv m'" using claim_inv [of none_loose "cm_bm s" c r m'] s(1) by (simp add: cm_ok_def bm_inv_def)
  then show "\<exists>s'. kv_claim (paged_kv P C) c r s = Inr s' \<and> cm_ok s' \<and> cm_owner s' = (cm_owner s)(rid c \<mapsto> r) \<and>
      cm_replicas s' = cm_replicas s"
    using m' s by (auto simp: paged_kv_def cm_claim_def cm_ok_def cm_owner_def update_conv' split: if_splits)
next
  fix s s' :: "'k cache_manager" and c c' :: "('m, 'l) any_context" and out
  assume "cm_ok s" and "kv_alloc (paged_kv P C) c s = Inr (out, c', s')"
  then show "cm_ok s' \<and> cm_owner s' = cm_owner s \<and> cm_replicas s' = cm_replicas s \<and> same_request c c'"
    using cm_alloc_inv [of s P C c out c' s'] by (simp add: paged_kv_def cm_ok_def cm_owner_def same_owners_def)
next
  fix s :: "'k cache_manager" and c :: "('m, 'l) any_context" and r
  assume s: "cm_ok s" "cm_owner s (rid c) = Some r"
  then have "r < num_replicas (cm_bm s)" "map_of (req_to_replica (cm_bm s)) (rid c) = Some r"
    by (auto simp: cm_ok_def cm_owner_def)
  then obtain m' where "release c (cm_bm s) = Inr m'" "bm_inv m'" "num_replicas m' = num_replicas (cm_bm s)"
      "req_to_replica m' = AList.delete (rid c) (req_to_replica (cm_bm s))"
    using release_total [of "cm_bm s" c r] s(1) by (metis cm_ok_def)
  then show "\<exists>s'. kv_release (paged_kv P C) c s = Inr s' \<and> cm_ok s' \<and> cm_owner s' = (cm_owner s)(rid c := None) \<and>
      cm_replicas s' = cm_replicas s"
    using s by (auto simp: paged_kv_def cm_release_def cm_contains_def cm_ok_def cm_owner_def delete_conv' split: if_splits)
next
  fix s :: "'k cache_manager" and c :: "('m, 'l) any_context" and r
  assume s: "cm_ok s" "cm_owner s (rid c) = None" "r < cm_replicas s"
  define m1 where "m1 = (cm_bm s)\<lparr>req_to_replica := AList.update (rid c) r (req_to_replica (cm_bm s))\<rparr>"
  have cl: "claim c r (cm_bm s) = Inr m1" using s by (simp add: claim_def cm_owner_def m1_def)
  have i1: "bm_inv m1" using claim_inv [OF _ cl, of none_loose] s(1) by (simp add: cm_ok_def bm_inv_def)
  have "bm_shape (cm_bm s)" using s(1) by (simp add: cm_ok_def bm_inv_def accounts_def)
  then have "blocks_of m1 (rid c) = []" using s(2) by (simp add: bm_shape_def m1_def cm_owner_def)
  then obtain m2 where "register_dummy_request c m1 = Inr m2" "bm_inv m2" "same_owners m1 m2"
    using dummy_total [OF i1, of c r] s(3) by (auto simp: m1_def update_conv')
  then show "\<exists>s'. kv_alloc_dummy (paged_kv P C) c r s = Inr s' \<and> cm_ok s' \<and>
      cm_owner s' = (cm_owner s)(rid c \<mapsto> r) \<and> cm_replicas s' = cm_replicas s"
    using cl s by (auto simp: paged_kv_def cm_alloc_dummy_def cm_claim_def cm_ok_def cm_owner_def same_owners_def m1_def
        update_conv' split: if_splits)
next
  fix s :: "'k cache_manager" and i r
  assume "cm_ok s" and "cm_owner s i = Some r"
  then show "r < cm_replicas s" by (simp add: cm_ok_def)
qed

end
