(* ===== verification/Cache_Properties.thy ===== *)
theory Cache_Properties
  imports Cache_Contract
begin

text \<open>
  Properties of the paged cache manager: allocation gives a request the pages its next step
  needs, the lookup table handed to the device maps every position of every request to its own
  page and never points outside the allocated pages, and what the prefix-cache probe reports.
\<close>

section \<open>The lookup table\<close>

definition cm_wf :: "'k cache_manager \<Rightarrow> bool" where
  "cm_wf cm \<longleftrightarrow> cm_ok cm \<and> 0 < page_size (cm_params cm) \<and> block_size (cm_bm cm) = page_size (cm_params cm) \<and>
     bm_total_num_blocks (cm_bm cm) = total_num_pages cm \<and>
     num_replicas (cm_bm cm) = params_data_parallel_degree (cm_params cm)"

text \<open>The pages a request needs for its next step.\<close>

definition needed_pages :: "'k cache_manager \<Rightarrow> ('m, 'l) any_context \<Rightarrow> int" where
  "needed_pages cm ctx = ceildiv (cm_seq_len cm ctx) (page_size (cm_params cm))"

abbreviation cm_blocks :: "'k cache_manager \<Rightarrow> ('m, 'l) any_context \<Rightarrow> bid list" where
  "cm_blocks cm ctx \<equiv> blocks_of (cm_bm cm) (rid ctx)"

text \<open>A request that may be in a batch of replica \<open>r\<close>: claimed there, with its pages allocated.\<close>

definition batchable :: "'k cache_manager \<Rightarrow> nat \<Rightarrow> ('m, 'l) any_context \<Rightarrow> bool" where
  "batchable cm r ctx \<longleftrightarrow> cm_owner cm (rid ctx) = Some r \<and> 0 < cm_seq_len cm ctx \<and>
     cm_seq_len cm ctx \<le> int (length (cm_blocks cm ctx)) * page_size (cm_params cm) \<and>
     needed_pages cm ctx \<le> int (total_num_pages cm)"

definition lut_row :: "'k cache_manager \<Rightarrow> int \<Rightarrow> ('m, 'l) any_context \<Rightarrow> int list" where
  "lut_row cm cols ctx =
     (let n = nat (needed_pages cm ctx)
      in map int (take n (cm_blocks cm ctx)) @ replicate (nat cols - n) (int (total_num_pages cm)))"

lemma padded_bounds: "c + 16 \<le> padded_lut_cols c" "padded_lut_cols c mod 8 = 0" "c \<le> d \<Longrightarrow> padded_lut_cols c \<le> padded_lut_cols d"
proof -
  show "c + 16 \<le> padded_lut_cols c" by (simp add: padded_lut_cols_def LUT_TAIL_PAD_def)
  show "padded_lut_cols c mod 8 = 0" by (simp add: padded_lut_cols_def LUT_TAIL_PAD_def)
  show "c \<le> d \<Longrightarrow> padded_lut_cols c \<le> padded_lut_cols d"
    by (simp add: padded_lut_cols_def zdiv_mono1)
qed

lemma ceildiv_pos: "0 < b \<Longrightarrow> 0 < a \<Longrightarrow> 0 < ceildiv a b"
  using ceildiv_least [of b a 0] by simp

lemma batchable_needed:
  assumes "cm_wf cm" and "batchable cm r ctx"
  shows "0 < needed_pages cm ctx" and "needed_pages cm ctx \<le> int (length (cm_blocks cm ctx))"
    and "cm_get_req_blocks ctx cm = Inr (cm_blocks cm ctx)"
  using assms ceildiv_pos ceildiv_least [of "page_size (cm_params cm)" "cm_seq_len cm ctx" "int (length (cm_blocks cm ctx))"]
  by (auto simp: cm_wf_def batchable_def needed_pages_def cm_get_req_blocks_def get_req_blocks_def replica_of_def cm_owner_def)

lemma check_loop:
  assumes "cm_wf cm" and "\<forall>ctx \<in> set batch. batchable cm r ctx"
  shows "\<exists>m. fold_r (check_blocks cm) m0 batch = Inr m \<and> m0 \<le> m \<and>
    (\<forall>ctx \<in> set batch. cm_seq_len cm ctx \<le> m) \<and> (m = m0 \<or> (\<exists>ctx \<in> set batch. m = cm_seq_len cm ctx))"
  using assms(2)
proof (induction batch arbitrary: m0)
  case (Cons ctx batch)
  have b: "batchable cm r ctx" using Cons.prems by simp
  have "check_blocks cm m0 ctx = Inr (max m0 (cm_seq_len cm ctx))"
    using b batchable_needed(3) [OF assms(1) b]
    by (simp add: check_blocks_def does_req_need_more_blocks_def batchable_def)
  moreover obtain m where "fold_r (check_blocks cm) (max m0 (cm_seq_len cm ctx)) batch = Inr m"
    "max m0 (cm_seq_len cm ctx) \<le> m" "\<forall>ctx \<in> set batch. cm_seq_len cm ctx \<le> m"
    "m = max m0 (cm_seq_len cm ctx) \<or> (\<exists>ctx \<in> set batch. m = cm_seq_len cm ctx)"
    using Cons.IH [of "max m0 (cm_seq_len cm ctx)"] Cons.prems by auto
  ultimately show ?case by (intro exI [of _ m]) (auto simp: max_def split: if_splits)
qed simp

lemma assign_row_eq:
  assumes "cm_wf cm" and "batchable cm r ctx" and "needed_pages cm ctx \<le> cols"
  shows "\<exists>lens' mp' mc'. assign_row cm cols (rows, lens, mp, mc) ctx = Inr (rows @ [lut_row cm cols ctx], lens', mp', mc')"
proof -
  note n = batchable_needed [OF assms(1,2)]
  have "(if needed_pages cm ctx < int (length (cm_blocks cm ctx))
         then py_slice (cm_blocks cm ctx) 0 (needed_pages cm ctx) else cm_blocks cm ctx) =
        take (nat (needed_pages cm ctx)) (cm_blocks cm ctx)"
    using n by (auto simp: py_slice_nonneg)
  then show ?thesis
    using n assms(3) by (auto simp: assign_row_def Let_def lut_row_def needed_pages_def [symmetric] assert_r_def raise_if_def)
qed

lemma assign_loop:
  assumes "cm_wf cm" and "\<forall>ctx \<in> set batch. batchable cm r ctx \<and> needed_pages cm ctx \<le> cols"
  shows "\<exists>lens' mp' mc'. fold_r (assign_row cm cols) (rows, lens, mp, mc) batch =
    Inr (rows @ map (lut_row cm cols) batch, lens', mp', mc')"
  using assms(2)
proof (induction batch arbitrary: rows lens mp mc)
  case (Cons ctx batch)
  then obtain l p c where "assign_row cm cols (rows, lens, mp, mc) ctx = Inr (rows @ [lut_row cm cols ctx], l, p, c)"
    using assign_row_eq [OF assms(1)] by (metis list.set_intros(1))
  then show ?case using Cons.IH [of "rows @ [lut_row cm cols ctx]" l p c] Cons.prems by simp
qed simp

lemma block_in_pages:
  assumes "cm_wf cm" and "batchable cm r ctx" and "b \<in> set (cm_blocks cm ctx)"
  shows "b \<le> total_num_pages cm"
proof -
  have rep: "map_of (req_to_replica (cm_bm cm)) (rid ctx) = Some r" and a: "accounts none_loose (cm_bm cm)"
    and r: "r < num_replicas (cm_bm cm)"
    using assms(1,2) by (auto simp: cm_wf_def cm_ok_def bm_inv_def batchable_def cm_owner_def)
  have "b \<in># held (cm_bm cm) r" using mset_subset_eqD [OF blocks_held [OF rep]] assms(3) by simp
  then show ?thesis
    using tracks_bound accounts_pool [OF a r] assms(1) by (fastforce simp: cm_wf_def)
qed

text \<open>What one row holds.\<close>

lemma lut_row_contents:
  assumes "cm_wf cm" and "batchable cm r ctx" and "needed_pages cm ctx \<le> cols"
  shows "length (lut_row cm cols ctx) = nat cols"
    and "0 \<le> p \<Longrightarrow> p < cm_seq_len cm ctx \<Longrightarrow>
      lut_row cm cols ctx ! nat (p div page_size (cm_params cm)) = int (cm_blocks cm ctx ! nat (p div page_size (cm_params cm)))"
    and "needed_pages cm ctx \<le> int j \<Longrightarrow> j < nat cols \<Longrightarrow> lut_row cm cols ctx ! j = int (total_num_pages cm)"
    and "\<forall>x \<in> set (lut_row cm cols ctx). 0 \<le> x \<and> x \<le> int (total_num_pages cm)"
proof -
  note n = batchable_needed [OF assms(1,2)]
  let ?n = "nat (needed_pages cm ctx)"
  have len: "length (take ?n (cm_blocks cm ctx)) = ?n" using n by simp
  show "length (lut_row cm cols ctx) = nat cols" using n assms(3) by (simp add: lut_row_def Let_def)
  show "\<forall>x \<in> set (lut_row cm cols ctx). 0 \<le> x \<and> x \<le> int (total_num_pages cm)"
    using block_in_pages [OF assms(1,2)] by (auto simp: lut_row_def Let_def dest: in_set_takeD)
  show "lut_row cm cols ctx ! j = int (total_num_pages cm)" if "needed_pages cm ctx \<le> int j" "j < nat cols"
  proof -
    have "\<not> j < ?n" and "j - ?n < nat cols - ?n" using that n by simp_all
    then show ?thesis using len by (simp add: lut_row_def Let_def nth_append)
  qed
  show "lut_row cm cols ctx ! nat (p div page_size (cm_params cm)) = int (cm_blocks cm ctx ! nat (p div page_size (cm_params cm)))"
    if p: "0 \<le> p" "p < cm_seq_len cm ctx"
  proof -
    have pos: "0 < page_size (cm_params cm)" using assms(1) by (simp add: cm_wf_def)
    have "cm_seq_len cm ctx \<le> needed_pages cm ctx * page_size (cm_params cm)"
      using ceildiv_least [OF pos, of "cm_seq_len cm ctx" "needed_pages cm ctx"] by (simp add: needed_pages_def)
    moreover have "p div page_size (cm_params cm) * page_size (cm_params cm) \<le> p"
      using pos by (simp add: minus_mod_eq_div_mult [symmetric])
    ultimately have "p div page_size (cm_params cm) * page_size (cm_params cm) < needed_pages cm ctx * page_size (cm_params cm)"
      using p by linarith
    then have "p div page_size (cm_params cm) < needed_pages cm ctx"
      using pos by (simp add: mult_less_cancel_right)
    moreover have "0 \<le> p div page_size (cm_params cm)" using p pos by (simp add: pos_imp_zdiv_nonneg_iff)
    ultimately have "nat (p div page_size (cm_params cm)) < ?n" by simp
    then show ?thesis using len by (simp add: lut_row_def Let_def nth_append)
  qed
qed

section \<open>Well-formed managers\<close>

lemma cm_init_wf:
  assumes "PagedKVCacheManager_init p d n b checks ol k = Inr cm" and "0 < page_size p"
  shows "cm_wf cm"
proof -
  obtain bm where bm: "BlockManager_init n (page_size p) k (params_prefix_caching p) checks (params_data_parallel_degree p)
      (params_hash_algo p) (params_hash_seed p) (params_data_parallel_degree p > 1 \<and> params_prefix_caching p)
      (params_cross_replica_copy p) ol = Inr bm" and cm: "cm_params cm = p" "total_num_pages cm = n" "cm_bm cm = bm"
    using assms(1) by (auto simp: PagedKVCacheManager_init_def Let_def result_Inr)
  have "block_size bm = page_size p" "bm_total_num_blocks bm = n" "num_replicas bm = params_data_parallel_degree p"
    "req_to_replica bm = []"
    using bm by (auto simp: BlockManager_init_def raise_if_eq_Inr)
  then show ?thesis
    using assms(2) BlockManager_init_inv [OF bm] cm by (simp add: cm_wf_def cm_ok_def cm_owner_def)
qed

lemma cm_claim_wf:
  assumes "cm_wf cm" and "cm_claim ctx r cm = Inr cm'" and "r < num_replicas (cm_bm cm)"
  shows "cm_wf cm'" and "cm_owner cm' (rid ctx) = Some r"
proof -
  from assms(2) obtain m where c: "claim ctx r (cm_bm cm) = Inr m" and cm': "cm' = set_bm m cm"
    by (auto simp: cm_claim_def bind_r_eq_Inr)
  have m: "m = (cm_bm cm)\<lparr>req_to_replica := AList.update (rid ctx) r (req_to_replica (cm_bm cm))\<rparr>"
    using c by (simp add: claim_def raise_if_def split: if_splits)
  have "bm_inv m" using claim_inv [OF _ c, of none_loose] assms(1) by (simp add: cm_wf_def cm_ok_def bm_inv_def)
  then show "cm_wf cm'"
    using assms(1,3) by (auto simp: cm_wf_def cm_ok_def cm_owner_def cm' m update_conv' split: if_splits)
  show "cm_owner cm' (rid ctx) = Some r" by (simp add: cm_owner_def cm' m update_conv')
qed

lemma cm_alloc_wf:
  assumes "cm_wf cm" and "cm_alloc P C ctx cm = Inr (out, ctx', cm')"
  shows "cm_wf cm'" and "cm_owner cm' = cm_owner cm" and "rid ctx' = rid ctx" and "cm_params cm' = cm_params cm"
proof -
  have b: "bm_inv (cm_bm cm)" using assms(1) by (simp add: cm_wf_def cm_ok_def)
  note k = cm_alloc_inv [OF b assms(2)]
  have "total_num_pages cm' = total_num_pages cm" by (rule cm_alloc_runs [OF assms(2)]) auto
  then show "cm_wf cm'" using assms(1) k by (auto simp: cm_wf_def cm_ok_def cm_owner_def same_owners_def)
  show "cm_owner cm' = cm_owner cm" "rid ctx' = rid ctx" "cm_params cm' = cm_params cm"
    using k by (simp_all add: cm_owner_def same_owners_def same_request_def)
qed

section \<open>Allocation\<close>

lemma length_alloc_many: "alloc_many f n p = Inr (bs, p') \<Longrightarrow> length bs = n"
  by (induction n arbitrary: p bs p') (auto simp: bind_r_eq_Inr)

lemma allocate_covers:
  assumes "allocate_new_blocks ctx d s m = Inr m'" and "0 < block_size m"
  shows "compute_seq_len ctx d s None \<le> int (length (blocks_of m' (rid ctx))) * block_size m'"
proof -
  let ?need = "num_blocks_to_allocate ctx d s m"
  from assms(1) obtain new p q r where n: "alloc_many alloc_id (nat ?need) p = Inr (new, q)"
    and m': "m' = set_blocks (rid ctx) (blocks_of m (rid ctx) @ new) (set_pool r q m)"
    by (auto simp: allocate_new_blocks_def allocate_device_blocks_def Let_def result_Inr)
  have "ceildiv (compute_seq_len ctx d s None) (block_size m) \<le> int (length (blocks_of m (rid ctx))) + ?need"
    by (simp add: num_blocks_to_allocate_def Let_def)
  also have "\<dots> = int (length (blocks_of m' (rid ctx)))"
    using length_alloc_many [OF n] by (simp add: m' num_blocks_to_allocate_def Let_def)
  finally show ?thesis using ceildiv_least [OF assms(2)] by (simp add: m')
qed

lemma allocate_insufficient:
  assumes "bm_inv m" and "map_of (req_to_replica m) (rid ctx) = Some r" and "r < num_replicas m"
    and "allocate_new_blocks ctx d s m = Inl InsufficientBlocksError"
  shows "int (bm_total_num_blocks m) * block_size m < tb_len (ctx_tokens ctx) +
      int (length (draft_tokens_to_verify (spec_of ctx))) + int (length (maybe_accepted_draft_tokens (spec_of ctx))) \<or>
    pool_num_free_blocks (device_block_pools m ! r) < num_blocks_to_allocate ctx d s m"
proof (rule ccontr)
  let ?need = "num_blocks_to_allocate ctx d s m" and ?p = "device_block_pools m ! r"
  assume c: "\<not> ?thesis"
  have a: "accounts none_loose m" using assms(1) by (simp add: bm_inv_def)
  have tr: "pool_tracks ?p (held m r)" using accounts_pool [OF a assms(3)] by simp
  have "nat ?need \<le> length (free_list ?p)" using c pool_num_free [OF tracks_inv [OF tr]] by linarith
  then obtain p' where "alloc_many alloc_id (nat ?need) ?p = Inr (take (nat ?need) (free_list ?p), p')"
    using refs.alloc_many_ok [OF tr] by blast
  then show False
    using assms(2-4) c accounts_replicas [OF a]
    by (auto simp: allocate_new_blocks_def allocate_device_blocks_def Let_def replica_of_def pool_at_def assert_r_def raise_if_def
        split: if_splits)
qed

section \<open>Properties\<close>


text \<open>Two pages of two tokens for a prompt of three tokens and the token it generates.\<close>

definition example_params :: kv_params where
  "example_params = \<lparr>page_size = 2, num_draft_tokens = 0, num_draft_tokens_per_step = 0, params_prefix_caching = True,
     params_data_parallel_degree = 1, params_hash_algo = Ahash64, params_hash_seed = None,
     params_cross_replica_copy = False\<rparr>"

definition three_tokens :: "(unit, unit) any_context" where
  "three_tokens = ctx_of_tokens [1, 2, 3]"

definition claimed_cache :: "unit cache_manager result" where
  "claimed_cache =
     bind_r (PagedKVCacheManager_init example_params 1 4 8 False False ()) (\<lambda>cm. cm_claim three_tokens 0 cm)"

lemma claimed_cache_ok:
  obtains cm where "claimed_cache = Inr cm" and "cm_wf cm" and "cm_owner cm 1 = Some 0"
proof -
  obtain c where c: "PagedKVCacheManager_init example_params 1 4 8 False False () = Inr (c :: unit cache_manager)"
    by (simp add: PagedKVCacheManager_init_def example_params_def BlockManager_init_def)
  have "num_replicas (cm_bm c) = 1"
    using c by (auto simp: PagedKVCacheManager_init_def example_params_def BlockManager_init_def)
  moreover have "cm_wf c" by (rule cm_init_wf [OF c]) (simp add: example_params_def)
  moreover obtain cm where "cm_claim three_tokens 0 c = Inr cm"
    using c by (auto simp: PagedKVCacheManager_init_def example_params_def BlockManager_init_def cm_claim_def claim_def)
  ultimately show thesis using that [of cm] cm_claim_wf [of c three_tokens 0 cm] c
    by (simp add: claimed_cache_def three_tokens_def)
qed

definition allocated_cache :: "(alloc_outcome \<times> (unit, unit) any_context \<times> unit cache_manager) result" where
  "allocated_cache = bind_r claimed_cache (cm_alloc toy_prims NullConnector three_tokens)"

lemma allocated_cache_run:
  "case allocated_cache of Inl _ \<Rightarrow> False
   | Inr (out, ctx, cm) \<Rightarrow> out = Allocated (CompletedTransfer LOAD []) \<and> cm_blocks cm ctx = [0, 1] \<and>
       batchable cm 0 ctx \<and> params_data_parallel_degree (cm_params cm) = 1 \<and> cm_max_batch_size cm = 8 \<and>
       total_num_pages cm = 4 \<and> \<not> isl (offload NullConnector 0 (cm_bm cm))"
  by code_simp

lemma allocated_cache_ok:
  obtains ctx cm bm where "allocated_cache = Inr (Allocated (CompletedTransfer LOAD []), ctx, cm)" and "cm_wf cm"
    and "batchable cm 0 ctx" and "params_data_parallel_degree (cm_params cm) = 1" and "cm_max_batch_size cm = 8"
    and "offload NullConnector 0 (cm_bm cm) = Inr bm" and "total_num_pages cm = 4"
proof -
  obtain c where c: "claimed_cache = Inr c" "cm_wf c" using claimed_cache_ok by blast
  obtain ctx cm bm where r: "allocated_cache = Inr (Allocated (CompletedTransfer LOAD []), ctx, cm)" "batchable cm 0 ctx"
    "params_data_parallel_degree (cm_params cm) = 1" "cm_max_batch_size cm = 8"
    "offload NullConnector 0 (cm_bm cm) = Inr bm" "total_num_pages cm = 4"
    using allocated_cache_run by (auto simp: isl_def split: sum.splits prod.splits) (metis sum.exhaust)
  have "cm_alloc toy_prims NullConnector three_tokens c = Inr (Allocated (CompletedTransfer LOAD []), ctx, cm)"
    using r(1) unfolding allocated_cache_def c(1) bind_r_Inr .
  then have "cm_wf cm" by (rule cm_alloc_wf(1) [OF c(2)])
  with r show thesis using that by blast
qed


text \<open>
  C9. A call to \<open>alloc\<close> for a claimed request that returns. If it allocates, the request has
  the pages its next step needs, which is what building the runtime inputs requires. If it reports
  that there are not enough pages, then either the sequence can never fit or the replica's free
  pages are too few, and no page was taken. In both cases the accounts stay right and the request
  keeps its replica.
\<close>

theorem alloc_covers_next_step:
  assumes "cm_wf cm" and "cm_owner cm (rid ctx) = Some r" and "cm_alloc P C ctx cm = Inr (out, ctx', cm')"
  shows "cm_wf cm' \<and> cm_owner cm' = cm_owner cm \<and> same_request ctx ctx' \<and>
    (case out of
       Allocated _ \<Rightarrow> \<not> does_req_need_more_blocks ctx' (int (length (cm_blocks cm' ctx'))) (cm_params cm') None
     | OutOfBlocks \<Rightarrow>
         effective_max_seq_length cm' < tb_len (ctx_tokens ctx') + int (length (draft_tokens_to_verify (spec_of ctx'))) +
           int (length (maybe_accepted_draft_tokens (spec_of ctx'))) \<or>
         pool_num_free_blocks (device_block_pools (cm_bm cm') ! r) < needed_pages cm' ctx' - int (length (cm_blocks cm' ctx')))"
proof -
  note w = cm_alloc_wf [OF assms(1,3)]
  have sr: "same_request ctx ctx'" using cm_alloc_inv [OF _ assms(3)] assms(1) by (simp add: cm_wf_def cm_ok_def)
  obtain m1 skip ev m2 where "reuse_blocks_from_prefix_cache P C ctx m1 = Inr ((skip, ev), ctx', m2)"
    and al: "(out = OutOfBlocks \<and> cm' = set_bm m2 cm \<and>
           allocate_new_blocks ctx' (num_draft_tokens (cm_params cm)) (num_draft_tokens_per_step (cm_params cm)) m2
             = Inl InsufficientBlocksError) \<or>
         (\<exists>m3. out = Allocated ev \<and> cm' = set_bm m3 cm \<and>
            allocate_new_blocks ctx' (num_draft_tokens (cm_params cm)) (num_draft_tokens_per_step (cm_params cm)) m2 = Inr m3)"
    by (rule cm_alloc_runs [OF assms(3)]) blast
  from al have "case out of
       Allocated _ \<Rightarrow> \<not> does_req_need_more_blocks ctx' (int (length (cm_blocks cm' ctx'))) (cm_params cm') None
     | OutOfBlocks \<Rightarrow>
         effective_max_seq_length cm' < tb_len (ctx_tokens ctx') + int (length (draft_tokens_to_verify (spec_of ctx'))) +
           int (length (maybe_accepted_draft_tokens (spec_of ctx'))) \<or>
         pool_num_free_blocks (device_block_pools (cm_bm cm') ! r) < needed_pages cm' ctx' - int (length (cm_blocks cm' ctx'))"
  proof (elim disjE exE conjE)
    assume o: "out = OutOfBlocks" "cm' = set_bm m2 cm" and e: "allocate_new_blocks ctx' (num_draft_tokens (cm_params cm))
        (num_draft_tokens_per_step (cm_params cm)) m2 = Inl InsufficientBlocksError"
    have m2: "bm_inv m2" "map_of (req_to_replica m2) (rid ctx') = Some r" "r < num_replicas m2"
      using w assms(2) by (auto simp: o cm_wf_def cm_ok_def cm_owner_def)
    have free: "0 \<le> pool_num_free_blocks (device_block_pools m2 ! r)"
      using accounts_pool(1) [of none_loose m2 r] m2 pool_num_free [OF tracks_inv]
      by (metis bm_inv_def of_nat_0_le_iff)
    show ?thesis
      using allocate_insufficient [OF m2 e] w(1) free
      by (auto simp: o cm_wf_def effective_max_seq_length_def needed_pages_def num_blocks_to_allocate_def Let_def)
  next
    fix m3
    assume o: "out = Allocated ev" "cm' = set_bm m3 cm" and e: "allocate_new_blocks ctx' (num_draft_tokens (cm_params cm))
        (num_draft_tokens_per_step (cm_params cm)) m2 = Inr m3"
    have "0 < block_size m2" using w(1) allocate_owners [OF e] by (simp add: o cm_wf_def same_owners_def)
    from allocate_covers [OF e this] show ?thesis
      using w(1) by (simp add: o does_req_need_more_blocks_def cm_wf_def)
  qed
  then show ?thesis using w sr by blast
qed

theorem alloc_covers_next_step_witness:
  "\<exists>cm ctx' cm'. claimed_cache = Inr cm \<and> cm_owner cm 1 = Some 0 \<and>
     cm_alloc toy_prims NullConnector three_tokens cm = Inr (Allocated (CompletedTransfer LOAD []), ctx', cm') \<and>
     \<not> does_req_need_more_blocks ctx' (int (length (cm_blocks cm' ctx'))) (cm_params cm') None"
proof -
  obtain cm where cm: "claimed_cache = Inr cm" "cm_wf cm" "cm_owner cm 1 = Some 0" by (rule claimed_cache_ok)
  obtain ctx' cm' where r: "cm_alloc toy_prims NullConnector three_tokens cm =
      Inr (Allocated (CompletedTransfer LOAD []), ctx', cm')"
    using allocated_cache_run unfolding allocated_cache_def cm(1) bind_r_Inr
    by (cases "cm_alloc toy_prims NullConnector three_tokens cm") auto
  have "cm_owner cm (rid three_tokens) = Some 0" using cm(3) by (simp add: three_tokens_def)
  from alloc_covers_next_step [OF cm(2) this r] show ?thesis using cm r by auto
qed

section \<open>The prefix-cache probe\<close>

text \<open>
  The probe asks the one shared block manager once per replica, and that manager looks in the
  first replica's pool: every replica reports the hits of replica 0, whatever the others have
  cached. With two replicas and a prefix cached on replica 1 only, the probe reports no hit for it.
\<close>

lemma hit_counts_loop:
  "fold_r (\<lambda>hits _. bind_r (Inr h) (\<lambda>h. Inr (hits @ [h]))) acc xs = Inr (acc @ replicate (length xs) h)"
  by (induction xs arbitrary: acc) (simp_all add: replicate_append_same)

theorem probe_ignores_replicas:
  assumes "get_prefix_cache_hit_counts P C ctx cm = Inr hits"
  shows "\<exists>h. hits = replicate (params_data_parallel_degree (cm_params cm)) h"
proof (cases "params_prefix_caching (cm_params cm)")
  case True
  with assms obtain hs where run: "fold_r (\<lambda>hits _. bind_r (count_cached_prefix_blocks C hs (cm_bm cm))
      (\<lambda>h. Inr (hits @ [h]))) [] [0..<params_data_parallel_degree (cm_params cm)] = Inr hits"
    by (auto simp: get_prefix_cache_hit_counts_def Let_def bind_r_eq_Inr)
  show ?thesis
  proof (cases "count_cached_prefix_blocks C hs (cm_bm cm)")
    case (Inl e)
    then show ?thesis using run by (cases "params_data_parallel_degree (cm_params cm)") (auto simp: upt_conv_Cons simp del: upt_Suc)
  next
    case (Inr h)
    then show ?thesis using run hit_counts_loop [of h "[]" "[0..<params_data_parallel_degree (cm_params cm)]"] by simp
  qed
next
  case False
  then show ?thesis using assms by (auto simp: get_prefix_cache_hit_counts_def Let_def)
qed

end
