(* ===== verification/Grammar_Gate.thy ===== *)
theory Grammar_Gate
  imports Block_Hash
begin

text \<open>
  The asynchronous grammar gate, \<open>max/serve/scheduler/batch_constructor/grammar_gate.py\<close>, with
  the two methods of \<open>StructuredOutputHelper\<close> it uses
  (\<open>max/pipelines/lib/pipeline_variants/utils.py\<close>). The gate starts building the grammar
  matcher of a request on a worker thread and the scheduler holds the request back until the
  build is done.

  The grammar backend is outside the repository: compiling a schema and creating a matcher are
  the parameter record \<open>grammar_backend\<close>, a failure being the text of the exception. A build job
  remembers its arguments and whether it is done; a worker finishing a job is the operation
  \<open>finish_job\<close>, which may happen between any two calls.
\<close>

section \<open>State\<close>

record 'm grammar_backend =
  backend_name :: string
  create_matcher :: "string \<Rightarrow> string + 'm"
  compile_json_schema :: "string \<Rightarrow> string + string"

record grammar_job =
  job_grammar :: "string option"
  job_schema :: "string option"
  job_done :: bool

record grammar_gate =
  enable_response_format_schema :: bool
  tool_call_region_delimiters :: "region_delimiters option"
  futures :: "(request_id, grammar_job) dict"

definition AsyncGrammarGate_create :: "bool \<Rightarrow> bool \<Rightarrow> bool \<Rightarrow> region_delimiters option \<Rightarrow> grammar_gate option" where
  "AsyncGrammarGate_create enabled has_backend schema_flag region =
     (if \<not> enabled \<or> \<not> has_backend then None
      else Some \<lparr>enable_response_format_schema = schema_flag, tool_call_region_delimiters = region, futures = []\<rparr>)"

section \<open>Building and installing a matcher\<close>

text \<open>\<open>if grammar:\<close> is false for \<open>None\<close> and for the empty string.\<close>

definition given :: "string option \<Rightarrow> string option" where
  "given s = (case s of None \<Rightarrow> None | Some t \<Rightarrow> if t = [] then None else Some t)"

definition build_matcher :: "'m grammar_backend \<Rightarrow> string option \<Rightarrow> string option \<Rightarrow> (string + 'm) result" where
  "build_matcher B gram schema =
     (case given gram of
        Some g \<Rightarrow> Inr (create_matcher B g)
      | None \<Rightarrow>
          (case schema of None \<Rightarrow> Inl AssertionError
           | Some js \<Rightarrow> Inr (case compile_json_schema B js of Inl e \<Rightarrow> Inl e | Inr c \<Rightarrow> create_matcher B c)))"

definition set_context_tool_region ::
  "region_delimiters option \<Rightarrow> ('m, 'l, 'z) text_context_scheme \<Rightarrow> ('m, 'l, 'z) text_context_scheme" where
  "set_context_tool_region region c =
     (case region of None \<Rightarrow> c
      | Some d \<Rightarrow> set_tool_region (start_token_ids d)
          (if has_json_schema (grammar_state c) then None else end_token_ids d) c)"

definition install_matcher ::
  "region_delimiters option \<Rightarrow> 'm \<Rightarrow> ('m, 'l, 'z) text_context_scheme \<Rightarrow> ('m, 'l, 'z) text_context_scheme" where
  "install_matcher region mt c =
     (let c = set_matcher mt c
      in if given (grammar c) \<noteq> None then set_context_tool_region region c else c)"

fun install_any :: "region_delimiters option \<Rightarrow> 'm \<Rightarrow> ('m, 'l) any_context \<Rightarrow> ('m, 'l) any_context" where
  "install_any region mt (TextCtx c) = TextCtx (install_matcher region mt c)"
| "install_any region mt (VisionCtx c) = VisionCtx (install_matcher region mt c)"

section \<open>The gate\<close>

definition wants_precompile :: "grammar_gate \<Rightarrow> ('m, 'l, 'z) text_context_scheme \<Rightarrow> bool" where
  "wants_precompile g c =
     (if matcher c \<noteq> None then False
      else if given (grammar c) \<noteq> None
      then \<not> requires_structured_output_flag (grammar_state c) \<or> enable_response_format_schema g
      else if json_schema c \<noteq> None then enable_response_format_schema g
      else False)"

definition gate_submit :: "('m, 'l) any_context \<Rightarrow> grammar_gate \<Rightarrow> grammar_gate" where
  "gate_submit ctx g =
     (let c = ctx_base ctx; i = ctx_request_id c in
      if \<not> wants_precompile g c then g
      else if map_of (futures g) i \<noteq> None then g
      else g\<lparr>futures := AList.update i \<lparr>job_grammar = grammar c, job_schema = json_schema c, job_done = False\<rparr> (futures g)\<rparr>)"

definition gate_is_ready :: "('m, 'l) any_context \<Rightarrow> grammar_gate \<Rightarrow> bool" where
  "gate_is_ready ctx g =
     (case map_of (futures g) (ctx_request_id (ctx_base ctx)) of None \<Rightarrow> True | Some j \<Rightarrow> job_done j)"

definition gate_install_ready ::
  "'m grammar_backend \<Rightarrow> ('m, 'l) any_context \<Rightarrow> grammar_gate \<Rightarrow>
   (string option \<times> ('m, 'l) any_context \<times> grammar_gate) result" where
  "gate_install_ready B ctx g =
     (let i = ctx_request_id (ctx_base ctx) in
      case map_of (futures g) i of
        None \<Rightarrow> Inr (None, ctx, g)
      | Some j \<Rightarrow>
          let g = g\<lparr>futures := AList.delete i (futures g)\<rparr> in
          assert_r (job_done j)
          (Inr (case build_matcher B (job_grammar j) (job_schema j) of
             Inr (Inr mt) \<Rightarrow> (None, install_any (tool_call_region_delimiters g) mt ctx, g)
           | Inr (Inl e) \<Rightarrow> (Some (''Grammar provided in request cannot be compiled. From '' @ backend_name B @ '': '' @ e), ctx, g)
           | Inl _ \<Rightarrow> (Some (''Grammar provided in request cannot be compiled. From '' @ backend_name B @ '': ''), ctx, g))))"

definition gate_release :: "request_id \<Rightarrow> grammar_gate \<Rightarrow> grammar_gate" where
  "gate_release i g = g\<lparr>futures := AList.delete i (futures g)\<rparr>"

text \<open>A worker thread finishes the build of request \<open>i\<close>.\<close>

definition finish_job :: "request_id \<Rightarrow> grammar_gate \<Rightarrow> grammar_gate" where
  "finish_job i g =
     (case map_of (futures g) i of None \<Rightarrow> g
      | Some j \<Rightarrow> g\<lparr>futures := AList.update i (j\<lparr>job_done := True\<rparr>) (futures g)\<rparr>)"

section \<open>Facts\<close>

lemma install_any_request [simp]:
  "ctx_request_id (ctx_base (install_any region mt ctx)) = ctx_request_id (ctx_base ctx)"
  "tokens (ctx_base (install_any region mt ctx)) = tokens (ctx_base ctx)"
  "model_name (ctx_base (install_any region mt ctx)) = model_name (ctx_base ctx)"
  by (cases ctx; simp add: install_matcher_def set_matcher_def set_context_tool_region_def set_tool_region_def Let_def
      text_context.truncate_def split: option.split)+

lemma gate_install_keeps:
  assumes "gate_install_ready B ctx g = Inr (err, ctx', g')"
  shows "ctx_request_id (ctx_base ctx') = ctx_request_id (ctx_base ctx)" "tokens (ctx_base ctx') = tokens (ctx_base ctx)"
    "model_name (ctx_base ctx') = model_name (ctx_base ctx)"
  using assms by (auto simp: gate_install_ready_def Let_def result_Inr split: option.splits sum.splits)

text \<open>A request reported ready is never asserted against.\<close>

lemma gate_ready_installs:
  assumes "gate_is_ready ctx g"
  shows "\<exists>out. gate_install_ready B ctx g = Inr out"
  using assms by (auto simp: gate_is_ready_def gate_install_ready_def Let_def split: option.splits sum.splits)

end
