(* ===== verification/Batch_Constructor.thy ===== *)
theory Batch_Constructor
  imports Cache_Manager Token_Budget LoRA_Manager Grammar_Gate
begin

text \<open>
  The text batch constructor, \<open>max/serve/scheduler/batch_constructor/text_batch_constructor.py\<close>:
  the queues of every data-parallel replica, how requests enter and leave them, and how the batch
  of one replica is formed from them.

  Contexts are mutable objects shared by the queues, the batches and the pipeline. The model keeps
  them in one store, by request id, and the queues hold ids; an ordered dictionary of requests is
  the list of its keys. The KV cache is any implementation of the interface of
  \<open>Cache_Manager\<close>. What the constructor needs of the world around it is the record
  \<open>sched_env\<close>: the cache's operations, the grammar backend, the contents of fresh arrays, the ids
  of new padding contexts, and the clock. Calls of \<open>pipeline.release\<close> are recorded in the order
  they happen. Times and percentages are exact rationals, not floats. Logging is left out, and so
  is the text of an exception.
\<close>

section \<open>Configuration\<close>

record scheduler_config =
  max_batch_size :: int
  target_tokens_per_batch_ce :: int
  max_seq_len :: "int option"
  max_batch_total_tokens :: "int option"
  enable_chunked_prefill :: bool
  chunked_prefill_min_chunk_size :: int
  enable_in_flight_batching :: bool
  data_parallel_degree :: nat
  dp_ce_balance_timeout_ms :: rat
  dp_ce_balance_threshold :: rat
  dp_ce_balance_enable_dynamic_chunk_size :: bool

definition SchedulerConfig_post_init :: "scheduler_config \<Rightarrow> unit result" where
  "SchedulerConfig_post_init c =
     raise_if (max_batch_size c \<le> 0) ValueError
     (raise_if (target_tokens_per_batch_ce c \<le> 0) ValueError
     (raise_if (chunked_prefill_min_chunk_size c < 0) ValueError
     (raise_if (case (max_batch_total_tokens c, max_seq_len c) of (Some t, Some m) \<Rightarrow> t < m | _ \<Rightarrow> False) ValueError
     (raise_if (max_batch_size c > target_tokens_per_batch_ce c) ValueError
     (raise_if (\<not> (0 \<le> dp_ce_balance_threshold c \<and> dp_ce_balance_threshold c \<le> 1)) ValueError
       (Inr ()))))))"

datatype scheduling_strategy = PREFILL_FIRST | DECODE_FIRST | BALANCED | PER_REPLICA

section \<open>Ordered dictionaries of requests\<close>

text \<open>Storing keeps the place of a key that is present; \<open>move_to_end(k, last=False)\<close> moves it to the front.\<close>

definition od_put :: "'a \<Rightarrow> 'a list \<Rightarrow> 'a list" where
  "od_put k q = (if k \<in> set q then q else q @ [k])"

definition od_front :: "'a \<Rightarrow> 'a list \<Rightarrow> 'a list" where
  "od_front k q = k # removeAll k q"

abbreviation od_del :: "'a \<Rightarrow> 'a list \<Rightarrow> 'a list" where
  "od_del \<equiv> removeAll"

section \<open>State\<close>

record replica_requests =
  ce_reqs :: "request_id list"
  tg_reqs :: "request_id list"
  active_loras :: "string set"
  deferred_lora_requests :: "request_id list"

definition ReplicaRequests_init :: replica_requests where
  "ReplicaRequests_init = \<lparr>ce_reqs = [], tg_reqs = [], active_loras = {}, deferred_lora_requests = []\<rparr>"

record replica_batch =
  batch :: "request_id list"
  token_budget :: "budget list"

record pending_ce =
  pc_weights :: "int list"

record onloading_request =
  on_replica :: nat
  on_event :: transfer

record ('m, 'l, 's) sched_env =
  env_kv :: "('m, 'l, 's) kv_cache"
  env_backend :: "'m grammar_backend"
  env_consume :: "'m \<Rightarrow> int list \<Rightarrow> int \<times> 'm"
  env_junk :: "nat \<Rightarrow> int"
  env_fresh :: "nat \<Rightarrow> request_id"
  env_now :: rat

record ('m, 'l, 's, 'w) constructor =
  scheduler_config :: scheduler_config
  strategy :: scheduling_strategy
  tg_priority_kv_percentage :: rat
  get_inflight_kv_transfer_count :: "(nat \<Rightarrow> int) option"
  store :: "request_id \<Rightarrow> ('m, 'l) any_context"
  kv :: 's
  lora :: "'w lora_manager option"
  gate :: "grammar_gate option"
  pipeline_released :: "request_id list"
  replicas :: "replica_requests list"
  bound_requests :: "(request_id, nat) dict"
  request_id_to_lora_name :: "(request_id, string option) dict"
  onloading_reqs :: "(request_id, onloading_request) dict"
  ce_pending :: "(request_id, pending_ce) dict"
  ce_arrival :: "(request_id, rat) dict"
  ce_deferred_replicas :: "nat list"
  ce_step_quota :: "int list option"
  grammar_pending :: "(request_id, nat option) dict"
  grammar_failed :: "(request_id \<times> string) list"
  total_preemption_count :: int
  has_padder :: bool
  padder_max_length :: int
  padder_model_name :: string
  prev_dp_padding :: "request_id list option"
  current_dp_padding :: "request_id list option"

abbreviation ctx_num_replicas :: "('m, 'l, 's, 'w) constructor \<Rightarrow> nat" where
  "ctx_num_replicas s \<equiv> data_parallel_degree (scheduler_config s)"

definition dp_ce_balance_enabled :: "('m, 'l, 's, 'w) constructor \<Rightarrow> bool" where
  "dp_ce_balance_enabled s \<longleftrightarrow>
     dp_ce_balance_timeout_ms (scheduler_config s) \<ge> 0 \<and> ctx_num_replicas s > 1"

definition TextBatchConstructor_init ::
  "scheduler_config \<Rightarrow> scheduling_strategy \<Rightarrow> rat \<Rightarrow> (nat \<Rightarrow> int) option \<Rightarrow> (request_id \<Rightarrow> ('m, 'l) any_context) \<Rightarrow> 's \<Rightarrow>
   'w lora_manager option \<Rightarrow> grammar_gate option \<Rightarrow> (int \<times> string) option \<Rightarrow> ('m, 'l, 's, 'w) constructor result" where
  "TextBatchConstructor_init cfg strat pct inflight st cache lm gt padder =
     raise_if (lm \<noteq> None \<and> data_parallel_degree cfg > 1) ValueError
     (Inr \<lparr>scheduler_config = cfg, strategy = strat, tg_priority_kv_percentage = pct,
        get_inflight_kv_transfer_count = inflight, store = st, kv = cache, lora = lm, gate = gt,
        pipeline_released = [], replicas = replicate (data_parallel_degree cfg) ReplicaRequests_init,
        bound_requests = [], request_id_to_lora_name = [], onloading_reqs = [], ce_pending = [],
        ce_arrival = [], ce_deferred_replicas = [], ce_step_quota = None, grammar_pending = [],
        grammar_failed = [], total_preemption_count = 0,
        has_padder = (padder \<noteq> None),
        padder_max_length = (case padder of None \<Rightarrow> 0 | Some (n, _) \<Rightarrow> n),
        padder_model_name = (case padder of None \<Rightarrow> [] | Some (_, name) \<Rightarrow> name),
        prev_dp_padding = None, current_dp_padding = None\<rparr>)"

text \<open>Reading and updating the parts of the state.\<close>

abbreviation ctx_of :: "request_id \<Rightarrow> ('m, 'l, 's, 'w) constructor \<Rightarrow> ('m, 'l) text_context" where
  "ctx_of i s \<equiv> ctx_base (store s i)"

abbreviation active_len :: "('m, 'l, 's, 'w) constructor \<Rightarrow> request_id \<Rightarrow> int" where
  "active_len s i \<equiv> active_length (tokens (ctx_of i s))"

abbreviation generated_len :: "('m, 'l, 's, 'w) constructor \<Rightarrow> request_id \<Rightarrow> int" where
  "generated_len s i \<equiv> generated_length (tokens (ctx_of i s))"

definition put_ctx ::
  "request_id \<Rightarrow> ('m, 'l) any_context \<Rightarrow> ('m, 'l, 's, 'w) constructor \<Rightarrow> ('m, 'l, 's, 'w) constructor" where
  "put_ctx i c s = s\<lparr>store := (store s)(i := c)\<rparr>"

definition replica_at :: "nat \<Rightarrow> ('m, 'l, 's, 'w) constructor \<Rightarrow> replica_requests result" where
  "replica_at r s = raise_if (\<not> r < length (replicas s)) IndexError (Inr (replicas s ! r))"

definition upd_replica ::
  "nat \<Rightarrow> (replica_requests \<Rightarrow> replica_requests) \<Rightarrow> ('m, 'l, 's, 'w) constructor \<Rightarrow> ('m, 'l, 's, 'w) constructor" where
  "upd_replica r f s = s\<lparr>replicas := (replicas s)[r := f (replicas s ! r)]\<rparr>"

definition pipeline_release :: "request_id \<Rightarrow> ('m, 'l, 's, 'w) constructor \<Rightarrow> ('m, 'l, 's, 'w) constructor" where
  "pipeline_release i s = s\<lparr>pipeline_released := pipeline_released s @ [i]\<rparr>"

text \<open>\<open>if self.kv_cache.contains(ctx): self.kv_cache.release(ctx)\<close>.\<close>

definition release_if_claimed ::
  "('m, 'l, 's) sched_env \<Rightarrow> request_id \<Rightarrow> ('m, 'l, 's, 'w) constructor \<Rightarrow> ('m, 'l, 's, 'w) constructor result" where
  "release_if_claimed E i s =
     (if kv_contains (env_kv E) (store s i) (kv s)
      then bind_r (kv_release (env_kv E) (store s i) (kv s)) (\<lambda>k. Inr (s\<lparr>kv := k\<rparr>))
      else Inr s)"

text \<open>The first element with the smallest key.\<close>

fun min_by :: "('a \<Rightarrow> int) \<Rightarrow> 'a list \<Rightarrow> 'a result" where
  "min_by key [] = Inl ValueError"
| "min_by key (x # xs) = Inr (foldl (\<lambda>b y. if key y < key b then y else b) x xs)"

section \<open>LoRA bookkeeping of a replica\<close>

definition add_active_lora ::
  "request_id \<Rightarrow> nat \<Rightarrow> ('m, 'l, 's, 'w) constructor \<Rightarrow> ('m, 'l, 's, 'w) constructor result" where
  "add_active_lora i r s =
     (case lora s of None \<Rightarrow> Inr s
      | Some lm \<Rightarrow>
          if is_lora (ctx_of i s) (lora s)
          then bind_r (activate_adapter (model_name (ctx_of i s)) lm) (\<lambda>lm.
            Inr (upd_replica r (\<lambda>q. q\<lparr>active_loras := insert (model_name (ctx_of i s)) (active_loras q)\<rparr>)
                  (s\<lparr>lora := Some lm\<rparr>)))
          else Inr s)"

definition update_deferred_lora_requests :: "replica_requests \<Rightarrow> replica_requests" where
  "update_deferred_lora_requests q =
     (foldl (\<lambda>q i. q\<lparr>ce_reqs := od_front i (ce_reqs q)\<rparr>) q (deferred_lora_requests q))
       \<lparr>deferred_lora_requests := []\<rparr>"

definition can_allocate_lora_request ::
  "request_id \<Rightarrow> nat \<Rightarrow> ('m, 'l, 's, 'w) constructor \<Rightarrow> (bool \<times> ('m, 'l, 's, 'w) constructor) result" where
  "can_allocate_lora_request i r s =
     (if lora s = None then Inr (True, s)
      else bind_r (can_allocate_lora (ctx_of i s) (active_loras (replicas s ! r)) (lora s)) (\<lambda>yes.
        Inr (if \<not> yes
             then (False, upd_replica r (\<lambda>q. q\<lparr>deferred_lora_requests := od_put i (deferred_lora_requests q)\<rparr>) s)
             else (True, s))))"

section \<open>Entering\<close>

definition new_token_budget :: "int option \<Rightarrow> ('m, 'l, 's) sched_env \<Rightarrow> ('m, 'l, 's, 'w) constructor \<Rightarrow> budget list" where
  "new_token_budget ce_capacity E s =
     (let c = scheduler_config s in
      create_new_token_budget ce_capacity (target_tokens_per_batch_ce c) (enable_chunked_prefill c)
        (chunked_prefill_min_chunk_size c) (max_batch_total_tokens c) (kv_page_size (env_kv E) (kv s)))"

definition get_next_replica_idx :: "int list option \<Rightarrow> ('m, 'l, 's, 'w) constructor \<Rightarrow> nat result" where
  "get_next_replica_idx ext s =
     (let ext = (case ext of None \<Rightarrow> replicate (ctx_num_replicas s) 0 | Some e \<Rightarrow> e) in
      raise_if (length ext < ctx_num_replicas s \<or> length (replicas s) < ctx_num_replicas s) IndexError
      (min_by (\<lambda>r. int (length (ce_reqs (replicas s ! r))) + int (length (tg_reqs (replicas s ! r))) + ext ! r)
         [0..<ctx_num_replicas s]))"

definition bind_request ::
  "request_id \<Rightarrow> nat \<Rightarrow> ('m, 'l, 's, 'w) constructor \<Rightarrow> ('m, 'l, 's, 'w) constructor result" where
  "bind_request i r s =
     bind_r (replica_at r s) (\<lambda>_.
     let s = s\<lparr>bound_requests := AList.update i r (bound_requests s),
               request_id_to_lora_name := AList.update i
                 (if is_lora (ctx_of i s) (lora s) then Some (model_name (ctx_of i s)) else None)
                 (request_id_to_lora_name s)\<rparr>
     in Inr (if generated_len s i = 0
             then upd_replica r (\<lambda>q. q\<lparr>ce_reqs := od_put i (ce_reqs q)\<rparr>) s
             else upd_replica r (\<lambda>q. q\<lparr>tg_reqs := od_put i (tg_reqs q)\<rparr>) s))"

definition post_cache_weights ::
  "('m, 'l, 's) sched_env \<Rightarrow> request_id \<Rightarrow> ('m, 'l, 's, 'w) constructor \<Rightarrow> int list result" where
  "post_cache_weights E i s =
     (case kv_get_prefix_cache_hit_counts (env_kv E) (store s i) (kv s) of
        Inl _ \<Rightarrow> Inr (replicate (ctx_num_replicas s) (active_len s i))
      | Inr hits \<Rightarrow>
          assert_r (length hits = ctx_num_replicas s)
          (Inr (map (\<lambda>h. max 1 (active_len s i - kv_page_size (env_kv E) (kv s) * total_blocks h)) hits)))"

definition admit_request ::
  "('m, 'l, 's) sched_env \<Rightarrow> request_id \<Rightarrow> nat option \<Rightarrow> ('m, 'l, 's, 'w) constructor \<Rightarrow> ('m, 'l, 's, 'w) constructor result" where
  "admit_request E i replica_idx s =
     (if dp_ce_balance_enabled s \<and> replica_idx = None \<and> generated_len s i = 0
      then bind_r (post_cache_weights E i s) (\<lambda>w.
        Inr (s\<lparr>ce_pending := AList.update i \<lparr>pc_weights = w\<rparr> (ce_pending s),
               ce_arrival := AList.update i (env_now E) (ce_arrival s)\<rparr>))
      else bind_r (case replica_idx of None \<Rightarrow> get_next_replica_idx None s | Some r \<Rightarrow> Inr r) (\<lambda>r.
        bind_request i r s))"

definition fail_grammar_request ::
  "request_id \<Rightarrow> string \<Rightarrow> ('m, 'l, 's, 'w) constructor \<Rightarrow> ('m, 'l, 's, 'w) constructor" where
  "fail_grammar_request i err s =
     (let s = pipeline_release i s in s\<lparr>grammar_failed := grammar_failed s @ [(i, err)]\<rparr>)"

text \<open>The matcher is installed; the request is failed or admitted.\<close>

definition settle_grammar ::
  "('m, 'l, 's) sched_env \<Rightarrow> request_id \<Rightarrow> nat option \<Rightarrow> grammar_gate \<Rightarrow> ('m, 'l, 's, 'w) constructor \<Rightarrow>
   ('m, 'l, 's, 'w) constructor result" where
  "settle_grammar E i replica_idx g s =
     bind_r (gate_install_ready (env_backend E) (store s i) g) (\<lambda>(err, c, g).
     let s = put_ctx i c (s\<lparr>gate := Some g\<rparr>) in
     case err of Some e \<Rightarrow> Inr (fail_grammar_request i e s) | None \<Rightarrow> admit_request E i replica_idx s)"

definition enqueue_new_request ::
  "('m, 'l, 's) sched_env \<Rightarrow> request_id \<Rightarrow> nat option \<Rightarrow> ('m, 'l, 's, 'w) constructor \<Rightarrow> ('m, 'l, 's, 'w) constructor result" where
  "enqueue_new_request E i replica_idx s =
     (case gate s of
        Some g \<Rightarrow>
          if generated_len s i = 0 then
            let g = gate_submit (store s i) g in
            if \<not> gate_is_ready (store s i) g
            then Inr (s\<lparr>gate := Some g, grammar_pending := AList.update i replica_idx (grammar_pending s)\<rparr>)
            else settle_grammar E i replica_idx g s
          else admit_request E i replica_idx s
      | None \<Rightarrow> admit_request E i replica_idx s)"

definition contains :: "request_id \<Rightarrow> ('m, 'l, 's, 'w) constructor \<Rightarrow> bool" where
  "contains i s \<longleftrightarrow> map_of (bound_requests s) i \<noteq> None \<or> map_of (ce_pending s) i \<noteq> None \<or>
     map_of (grammar_pending s) i \<noteq> None \<or> map_of (onloading_reqs s) i \<noteq> None"

definition promote_grammar_ready_requests ::
  "('m, 'l, 's) sched_env \<Rightarrow> ('m, 'l, 's, 'w) constructor \<Rightarrow> ('m, 'l, 's, 'w) constructor result" where
  "promote_grammar_ready_requests E s =
     (case gate s of
        None \<Rightarrow> Inr s
      | Some g \<Rightarrow>
          let ready_ids = filter (\<lambda>i. gate_is_ready (store s i) g) (map fst (grammar_pending s)) in
          fold_r (\<lambda>s i.
            case (map_of (grammar_pending s) i, gate s) of
              (Some replica_idx, Some g) \<Rightarrow>
                settle_grammar E i replica_idx g (s\<lparr>grammar_pending := AList.delete i (grammar_pending s)\<rparr>)
            | _ \<Rightarrow> Inl KeyError) s ready_ids)"

definition take_grammar_failed ::
  "('m, 'l, 's, 'w) constructor \<Rightarrow> (request_id \<times> string) list \<times> ('m, 'l, 's, 'w) constructor" where
  "take_grammar_failed s = (grammar_failed s, s\<lparr>grammar_failed := []\<rparr>)"

section \<open>Leaving\<close>

text \<open>The queue that holds the request gives it up.\<close>

definition drop_request :: "request_id \<Rightarrow> replica_requests \<Rightarrow> replica_requests" where
  "drop_request i q =
     (if i \<in> set (ce_reqs q) then q\<lparr>ce_reqs := od_del i (ce_reqs q)\<rparr>
      else if i \<in> set (tg_reqs q) then q\<lparr>tg_reqs := od_del i (tg_reqs q)\<rparr>
      else if i \<in> set (deferred_lora_requests q) then q\<lparr>deferred_lora_requests := od_del i (deferred_lora_requests q)\<rparr>
      else q)"

text \<open>The replica forgets the request's adapter when no other request uses it.\<close>

definition forget_lora ::
  "request_id \<Rightarrow> nat \<Rightarrow> ('m, 'l, 's, 'w) constructor \<Rightarrow> ('m, 'l, 's, 'w) constructor" where
  "forget_lora i r s =
     (let lora_name = (case map_of (request_id_to_lora_name s) i of None \<Rightarrow> None | Some n \<Rightarrow> n);
          s = s\<lparr>request_id_to_lora_name := AList.delete i (request_id_to_lora_name s)\<rparr>
      in case lora_name of None \<Rightarrow> s
         | Some name \<Rightarrow> if Some name \<in> snd ` set (request_id_to_lora_name s) then s
             else upd_replica r (\<lambda>q. q\<lparr>active_loras := active_loras q - {name}\<rparr>) s)"

definition release_bound ::
  "('m, 'l, 's) sched_env \<Rightarrow> request_id \<Rightarrow> nat \<Rightarrow> ('m, 'l, 's, 'w) constructor \<Rightarrow> ('m, 'l, 's, 'w) constructor result" where
  "release_bound E i r s =
     bind_r (replica_at r s) (\<lambda>_.
     bind_r (release_if_claimed E i (forget_lora i r (upd_replica r (drop_request i) s))) (\<lambda>s.
       let s = pipeline_release i s;
           s = (case gate s of None \<Rightarrow> s | Some g \<Rightarrow> s\<lparr>gate := Some (gate_release i g)\<rparr>)
       in Inr (s\<lparr>bound_requests := AList.delete i (bound_requests s)\<rparr>)))"

definition release_request ::
  "('m, 'l, 's) sched_env \<Rightarrow> request_id \<Rightarrow> ('m, 'l, 's, 'w) constructor \<Rightarrow> ('m, 'l, 's, 'w) constructor result" where
  "release_request E i s =
     raise_if (\<not> contains i s) ValueError
     (if map_of (grammar_pending s) i \<noteq> None then
        let s = s\<lparr>grammar_pending := AList.delete i (grammar_pending s)\<rparr> in
        (case gate s of None \<Rightarrow> Inl AssertionError
         | Some g \<Rightarrow> Inr (pipeline_release i (s\<lparr>gate := Some (gate_release i g)\<rparr>)))
      else if map_of (ce_pending s) i \<noteq> None then
        Inr (pipeline_release i (s\<lparr>ce_pending := AList.delete i (ce_pending s),
               ce_arrival := AList.delete i (ce_arrival s)\<rparr>))
      else
        let s = s\<lparr>ce_arrival := AList.delete i (ce_arrival s), onloading_reqs := AList.delete i (onloading_reqs s)\<rparr> in
        (case map_of (bound_requests s) i of None \<Rightarrow> Inl KeyError | Some r \<Rightarrow> release_bound E i r s))"

definition clear_tg_reqs :: "('m, 'l, 's, 'w) constructor \<Rightarrow> ('m, 'l, 's, 'w) constructor result" where
  "clear_tg_reqs s =
     fold_r (\<lambda>s r.
       bind_r (fold_r (\<lambda>s i. raise_if (map_of (bound_requests s) i = None) KeyError
                 (Inr (s\<lparr>bound_requests := AList.delete i (bound_requests s)\<rparr>))) s (tg_reqs (replicas s ! r))) (\<lambda>s.
         Inr (upd_replica r (\<lambda>q. q\<lparr>tg_reqs := []\<rparr>) s))) s [0..<length (replicas s)]"

definition all_ce_reqs :: "('m, 'l, 's, 'w) constructor \<Rightarrow> request_id list" where
  "all_ce_reqs s =
     foldl (\<lambda>acc i. od_put i acc) [] (concat (map ce_reqs (replicas s)) @ map fst (ce_pending s) @
       map fst (grammar_pending s) @ map fst (onloading_reqs s))"

definition all_tg_reqs :: "('m, 'l, 's, 'w) constructor \<Rightarrow> request_id list" where
  "all_tg_reqs s = foldl (\<lambda>acc i. od_put i acc) [] (concat (map tg_reqs (replicas s)))"

section \<open>Returning to the queue\<close>

fun reset_any :: "('m, 'l) any_context \<Rightarrow> ('m, 'l) any_context result" where
  "reset_any (TextCtx c) = bind_r (reset c) (\<lambda>c. Inr (TextCtx c))"
| "reset_any (VisionCtx c) = bind_r (reset c) (\<lambda>c. Inr (VisionCtx c))"

definition return_to_request_queue ::
  "('m, 'l, 's) sched_env \<Rightarrow> request_id \<Rightarrow> nat \<Rightarrow> ('m, 'l, 's, 'w) constructor \<Rightarrow> ('m, 'l, 's, 'w) constructor result" where
  "return_to_request_queue E i r s =
     bind_r (release_if_claimed E i s) (\<lambda>s.
     let s = pipeline_release i s in
     bind_r (reset_any (store s i)) (\<lambda>c.
     let s = put_ctx i c s in
     bind_r (replica_at r s) (\<lambda>_.
       Inr (upd_replica r (\<lambda>q. q\<lparr>tg_reqs := od_del i (tg_reqs q), ce_reqs := od_front i (ce_reqs q)\<rparr>) s))))"

definition preempt_request ::
  "('m, 'l, 's) sched_env \<Rightarrow> request_id \<Rightarrow> nat \<Rightarrow> ('m, 'l, 's, 'w) constructor \<Rightarrow> ('m, 'l, 's, 'w) constructor result" where
  "preempt_request E i r s =
     bind_r (return_to_request_queue E i r s) (\<lambda>s.
       Inr (s\<lparr>total_preemption_count := total_preemption_count s + 1\<rparr>))"

end
