(* ===== verification/Batch_Building.thy ===== *)
theory Batch_Building
  imports Batch_Constructor
begin

text \<open>
  How the text batch constructor forms a batch: which phase a replica runs next, admitting
  context-encoding requests under the budgets and the KV cache, admitting token-generation
  requests with preemption of the newest ones, what happens after a batch ran, and the padding of
  data-parallel batches (\<open>max/serve/scheduler/dp_padding.py\<close>).

  The loops of the code pop from the front of a queue (and, when preempting, from its back); they
  are recursions over that queue.
\<close>

section \<open>Priorities\<close>

definition identify_priority ::
  "('m, 'l, 's) sched_env \<Rightarrow> nat \<Rightarrow> ('m, 'l, 's, 'w) constructor \<Rightarrow> request_type option result" where
  "identify_priority E r s =
     (if r \<in> set (ce_deferred_replicas s) then Inr (Some TG)
      else bind_r (replica_at r s) (\<lambda>q.
        if ce_reqs q = [] \<and> tg_reqs q = [] then Inr None
        else if ce_reqs q = [] then Inr (Some TG)
        else if tg_reqs q = [] then Inr (Some CE)
        else bind_r (kv_block_count (env_kv E) r (kv s)) (\<lambda>bc.
          Inr (if used_pct bc > tg_priority_kv_percentage s then Some TG
               else if enable_in_flight_batching (scheduler_config s) then Some TG
               else Some CE))))"

definition is_anything_inflight ::
  "('m, 'l, 's) sched_env \<Rightarrow> nat \<Rightarrow> ('m, 'l, 's, 'w) constructor \<Rightarrow> bool result" where
  "is_anything_inflight E r s =
     (if \<exists>e \<in> set (onloading_reqs s). on_replica (snd e) = r then Inr True
      else bind_r (kv_pending_transfers_exist (env_kv E) r (kv s)) (\<lambda>pending.
        Inr (if pending then True
             else case get_inflight_kv_transfer_count s of None \<Rightarrow> False | Some f \<Rightarrow> f r > 0)))"

definition is_insufficient_blocks_fatal ::
  "('m, 'l, 's) sched_env \<Rightarrow> nat \<Rightarrow> bool \<Rightarrow> ('m, 'l, 's, 'w) constructor \<Rightarrow> bool result" where
  "is_insufficient_blocks_fatal E r no_other_work s =
     (if \<not> no_other_work then Inr False
      else bind_r (is_anything_inflight E r s) (\<lambda>inflight. Inr (\<not> inflight)))"

section \<open>Budgets and batches\<close>

text \<open>The status of a context; asking may chunk it.\<close>

definition budget_status_of ::
  "request_type \<Rightarrow> request_id \<Rightarrow> replica_batch \<Rightarrow> ('m, 'l, 's, 'w) constructor \<Rightarrow>
   (budget_status \<times> ('m, 'l, 's, 'w) constructor) result" where
  "budget_status_of rt i b s =
     bind_r (collection_status_after_context (token_budget b) rt (tokens (ctx_of i s))) (\<lambda>(status, t).
       Inr (status, put_ctx i (set_tokens t (store s i)) s))"

definition add_to_batch ::
  "request_type \<Rightarrow> request_id \<Rightarrow> replica_batch \<Rightarrow> ('m, 'l, 's, 'w) constructor \<Rightarrow> replica_batch result" where
  "add_to_batch rt i b s =
     bind_r (collection_add_to_budget (token_budget b) rt (tokens (ctx_of i s))) (\<lambda>tb.
       Inr (b\<lparr>batch := od_put i (batch b), token_budget := tb\<rparr>))"

section \<open>Context encoding\<close>

text \<open>Claim if needed, then allocate.\<close>

definition claim_and_alloc ::
  "('m, 'l, 's) sched_env \<Rightarrow> request_id \<Rightarrow> nat \<Rightarrow> ('m, 'l, 's, 'w) constructor \<Rightarrow>
   (alloc_outcome \<times> ('m, 'l, 's, 'w) constructor) result" where
  "claim_and_alloc E i r s =
     bind_r (if \<not> kv_contains (env_kv E) (store s i) (kv s)
             then bind_r (kv_claim (env_kv E) (store s i) r (kv s)) (\<lambda>k. Inr (s\<lparr>kv := k\<rparr>))
             else Inr s) (\<lambda>s.
     bind_r (kv_alloc (env_kv E) (store s i) (kv s)) (\<lambda>(out, c, k). Inr (out, put_ctx i c (s\<lparr>kv := k\<rparr>))))"

datatype ce_exit = Returned | Finished

text \<open>
  The body of the loop of \<open>_add_ce_requests\<close> on a popped request, in three parts. \<open>Some Returned\<close>
  is an early \<open>return\<close>, \<open>Some Finished\<close> a \<open>break\<close>, \<open>None\<close> goes on with the loop.
\<close>

definition fit_ce_budget ::
  "('m, 'l, 's) sched_env \<Rightarrow> nat \<Rightarrow> request_id \<Rightarrow> replica_batch \<Rightarrow> ('m, 'l, 's, 'w) constructor \<Rightarrow>
   (ce_exit option \<times> replica_batch \<times> ('m, 'l, 's, 'w) constructor) result" where
  "fit_ce_budget E r i b s =
     bind_r (budget_status_of CE i b s) (\<lambda>(status, s).
     case status of
       BUDGET_EXHAUSTED \<Rightarrow> bind_r (return_to_request_queue E i r s) (\<lambda>s. Inr (Some Returned, b, s))
     | BUDGET_REACHED \<Rightarrow>
         bind_r (add_active_lora i r s) (\<lambda>s.
         bind_r (add_to_batch CE i b s) (\<lambda>b. Inr (Some Finished, b, s)))
     | BUDGET_AVAILABLE \<Rightarrow>
         bind_r (add_to_batch CE i b s) (\<lambda>b.
         bind_r (add_active_lora i r s) (\<lambda>s. Inr (None, b, s))))"

definition place_ce_request ::
  "('m, 'l, 's) sched_env \<Rightarrow> nat \<Rightarrow> request_id \<Rightarrow> replica_batch \<Rightarrow> ('m, 'l, 's, 'w) constructor \<Rightarrow>
   (ce_exit option \<times> replica_batch \<times> ('m, 'l, 's, 'w) constructor) result" where
  "place_ce_request E r i b s =
     bind_r (claim_and_alloc E i r s) (\<lambda>(out, s).
     case out of
       OutOfBlocks \<Rightarrow>
         bind_r (is_insufficient_blocks_fatal E r (tg_reqs (replicas s ! r) = [] \<and> batch b = []) s) (\<lambda>fatal.
         if fatal then Inl InsufficientBlocksError
         else bind_r (return_to_request_queue E i r s) (\<lambda>s. Inr (Some Finished, b, s)))
     | Allocated event \<Rightarrow>
         if \<not> kv_event_done (env_kv E) event (kv s)
         then Inr (None, b,
                s\<lparr>onloading_reqs := AList.update i \<lparr>on_replica = r, on_event = event\<rparr> (onloading_reqs s)\<rparr>)
         else fit_ce_budget E r i b s)"

definition try_ce_request ::
  "('m, 'l, 's) sched_env \<Rightarrow> nat \<Rightarrow> request_id \<Rightarrow> replica_batch \<Rightarrow> ('m, 'l, 's, 'w) constructor \<Rightarrow>
   (ce_exit option \<times> replica_batch \<times> ('m, 'l, 's, 'w) constructor) result" where
  "try_ce_request E r i b s =
     bind_r (can_allocate_lora_request i r s) (\<lambda>(allowed, s).
     if \<not> allowed then Inr (None, b, s)
     else bind_r (collection_remaining (token_budget b)) (\<lambda>remaining.
     if remaining \<le> 0 then bind_r (return_to_request_queue E i r s) (\<lambda>s. Inr (Some Returned, b, s))
     else place_ce_request E r i b s))"

text \<open>The loop, on the queue given as a list, which is also the queue of the state.\<close>

fun add_ce_loop ::
  "('m, 'l, 's) sched_env \<Rightarrow> nat \<Rightarrow> int \<Rightarrow> request_id list \<Rightarrow> replica_batch \<Rightarrow> ('m, 'l, 's, 'w) constructor \<Rightarrow>
   (ce_exit \<times> replica_batch \<times> ('m, 'l, 's, 'w) constructor) result" where
  "add_ce_loop E r start [] b s = Inr (Finished, b, s)"
| "add_ce_loop E r start (i # queue) b s =
     (let size = max_batch_size (scheduler_config s); tg = int (length (tg_reqs (replicas s ! r))) in
      if \<not> (int (length (batch b)) < size \<and> int (length (batch b)) + tg - start < size)
      then Inr (Finished, b, s)
      else bind_r (try_ce_request E r i b (upd_replica r (\<lambda>q. q\<lparr>ce_reqs := queue\<rparr>) s)) (\<lambda>(ex, b, s).
        case ex of None \<Rightarrow> add_ce_loop E r start queue b s | Some x \<Rightarrow> Inr (x, b, s)))"

definition add_ce_requests ::
  "('m, 'l, 's) sched_env \<Rightarrow> replica_batch \<Rightarrow> nat \<Rightarrow> ('m, 'l, 's, 'w) constructor \<Rightarrow>
   (replica_batch \<times> ('m, 'l, 's, 'w) constructor) result" where
  "add_ce_requests E b r s =
     (if r \<in> set (ce_deferred_replicas s) then Inr (b, s)
      else bind_r (replica_at r s) (\<lambda>q.
        bind_r (add_ce_loop E r (int (length (batch b))) (ce_reqs q) b s) (\<lambda>(ex, b, s).
          Inr (b, case ex of Returned \<Rightarrow> s | Finished \<Rightarrow> upd_replica r update_deferred_lora_requests s))))"

section \<open>Token generation\<close>

text \<open>
  The inner loop of \<open>_add_tg_requests\<close>: allocate, preempting the newest remaining candidate
  (the first of the reversed list) after every failure. The result is the number of preempted
  candidates, or \<open>None\<close> when the method returns because nothing is left to preempt.
\<close>

fun alloc_or_preempt ::
  "('m, 'l, 's) sched_env \<Rightarrow> request_id \<Rightarrow> nat \<Rightarrow> bool \<Rightarrow> request_id list \<Rightarrow> ('m, 'l, 's, 'w) constructor \<Rightarrow>
   (nat option \<times> ('m, 'l, 's, 'w) constructor) result" where
  "alloc_or_preempt E i r batch_empty newest s =
     bind_r (kv_alloc (env_kv E) (store s i) (kv s)) (\<lambda>(out, c, k).
     let s = put_ctx i c (s\<lparr>kv := k\<rparr>) in
     case out of
       Allocated _ \<Rightarrow> Inr (Some 0, s)
     | OutOfBlocks \<Rightarrow>
         (case newest of
            [] \<Rightarrow> bind_r (is_insufficient_blocks_fatal E r batch_empty s) (\<lambda>fatal.
                    if fatal then Inl InsufficientBlocksError else Inr (None, s))
          | j # older \<Rightarrow>
              bind_r (preempt_request E j r (upd_replica r (\<lambda>q. q\<lparr>tg_reqs := od_del j (tg_reqs q)\<rparr>) s)) (\<lambda>s.
              bind_r (alloc_or_preempt E i r batch_empty older s) (\<lambda>(n, s).
                Inr (map_option Suc n, s)))))"

declare alloc_or_preempt.simps [simp del]

text \<open>
  The body of the loop of \<open>_add_tg_requests\<close> on the candidate \<open>i\<close>: \<open>None\<close> leaves the loop, \<open>Some n\<close>
  goes on without the \<open>n\<close> newest of the other candidates.
\<close>

definition try_tg_request ::
  "('m, 'l, 's) sched_env \<Rightarrow> nat \<Rightarrow> request_id \<Rightarrow> request_id list \<Rightarrow> replica_batch \<Rightarrow> ('m, 'l, 's, 'w) constructor \<Rightarrow>
   (nat option \<times> replica_batch \<times> ('m, 'l, 's, 'w) constructor) result" where
  "try_tg_request E r i candidates b s =
     raise_if (i \<notin> set (tg_reqs (replicas s ! r))) KeyError
     (if is_lora (ctx_of i s) (lora s) \<and> \<not> is_active_lora (ctx_of i s) (lora s)
      then bind_r (preempt_request E i r s) (\<lambda>s. Inr (Some 0, b, s))
      else bind_r (budget_status_of TG i b s) (\<lambda>(status, s).
        if status = BUDGET_EXHAUSTED then Inr (None, b, s)
        else bind_r (alloc_or_preempt E i r (batch b = []) (rev candidates) s) (\<lambda>(n, s).
          case n of
            None \<Rightarrow> Inr (None, b, s)
          | Some n \<Rightarrow> bind_r (add_to_batch TG i b s) (\<lambda>b.
              Inr (if status = BUDGET_REACHED then None else Some n, b, s)))))"

fun add_tg_loop ::
  "('m, 'l, 's) sched_env \<Rightarrow> nat \<Rightarrow> request_id list \<Rightarrow> replica_batch \<Rightarrow> ('m, 'l, 's, 'w) constructor \<Rightarrow>
   (replica_batch \<times> ('m, 'l, 's, 'w) constructor) result" where
  "add_tg_loop E r [] b s = Inr (b, s)"
| "add_tg_loop E r (i # candidates) b s =
     (if \<not> int (length (batch b)) < max_batch_size (scheduler_config s) then Inr (b, s)
      else bind_r (try_tg_request E r i candidates b s) (\<lambda>(more, b, s).
        case more of
          None \<Rightarrow> Inr (b, s)
        | Some n \<Rightarrow> add_tg_loop E r (take (length candidates - n) candidates) b s))"

definition add_tg_requests ::
  "('m, 'l, 's) sched_env \<Rightarrow> replica_batch \<Rightarrow> nat \<Rightarrow> ('m, 'l, 's, 'w) constructor \<Rightarrow>
   (replica_batch \<times> ('m, 'l, 's, 'w) constructor) result" where
  "add_tg_requests E b r s = bind_r (replica_at r s) (\<lambda>q. add_tg_loop E r (tg_reqs q) b s)"

section \<open>The batch of a replica\<close>

definition construct_replica_batch ::
  "('m, 'l, 's) sched_env \<Rightarrow> nat \<Rightarrow> request_type option \<Rightarrow> ('m, 'l, 's, 'w) constructor \<Rightarrow>
   (replica_batch \<times> ('m, 'l, 's, 'w) constructor) result" where
  "construct_replica_batch E r priority_override s =
     bind_r (case ce_step_quota s of None \<Rightarrow> Inr None
             | Some quota \<Rightarrow> raise_if (\<not> r < length quota) IndexError
                 (Inr (if quota ! r > 0 \<and> \<not> enable_in_flight_batching (scheduler_config s)
                       then Some (quota ! r) else None))) (\<lambda>ce_capacity.
     let b = \<lparr>batch = [], token_budget = new_token_budget ce_capacity E s\<rparr> in
     bind_r (case priority_override of Some p \<Rightarrow> Inr (Some p) | None \<Rightarrow> identify_priority E r s) (\<lambda>priority.
     case priority of
       None \<Rightarrow> Inr (b, s)
     | Some p \<Rightarrow>
         if p = CE then
           bind_r (add_ce_requests E b r s) (\<lambda>(b, s).
             if batch b = [] \<and> priority_override = None then add_tg_requests E b r s else Inr (b, s))
         else if p = TG then
           bind_r (add_tg_requests E b r s) (\<lambda>(b, s).
             if enable_in_flight_batching (scheduler_config s) \<and> batch b \<noteq> [] \<and> priority_override = None
             then add_ce_requests E b r s else Inr (b, s))
         else Inr (b, s)))"

section \<open>After a batch\<close>

definition release_data_parallel_padding ::
  "('m, 'l, 's) sched_env \<Rightarrow> ('m, 'l, 's, 'w) constructor \<Rightarrow> ('m, 'l, 's, 'w) constructor result" where
  "release_data_parallel_padding E s =
     bind_r (case prev_dp_padding s of None \<Rightarrow> Inr s
             | Some dummies \<Rightarrow> fold_r (\<lambda>s i. bind_r (release_if_claimed E i s) (\<lambda>s. Inr (pipeline_release i s))) s dummies)
       (\<lambda>s. Inr (s\<lparr>prev_dp_padding := current_dp_padding s, current_dp_padding := None\<rparr>))"

definition advance_replica ::
  "nat \<Rightarrow> request_id list \<Rightarrow> ('m, 'l, 's, 'w) constructor \<Rightarrow> ('m, 'l, 's, 'w) constructor" where
  "advance_replica r per_replica_batch s =
     (if per_replica_batch = [] then s
      else
        let s = foldl (\<lambda>s i. if contains i s
                  then upd_replica r (\<lambda>q. q\<lparr>tg_reqs := od_put i (tg_reqs q)\<rparr>) s else s) s per_replica_batch;
            last_request = last per_replica_batch
        in if contains last_request s \<and> generated_len s last_request = 0
           then upd_replica r (\<lambda>q. q\<lparr>tg_reqs := od_del last_request (tg_reqs q),
                                     ce_reqs := od_front last_request (ce_reqs q)\<rparr>) s
           else s)"

definition advance_requests ::
  "('m, 'l, 's) sched_env \<Rightarrow> request_id list list \<Rightarrow> ('m, 'l, 's, 'w) constructor \<Rightarrow> ('m, 'l, 's, 'w) constructor result" where
  "advance_requests E batches s =
     bind_r (release_data_parallel_padding E s) (\<lambda>s.
     raise_if (length batches \<noteq> length (replicas s)) ValueError
     (Inr (foldl (\<lambda>s (r, b). advance_replica r b s) s (enumerate 0 batches))))"

section \<open>Padding\<close>

text \<open>\<open>TextGenerationInputs.__post_init__\<close>: a batch is a CE batch if any context has generated nothing.\<close>

definition batch_type :: "request_id list list \<Rightarrow> ('m, 'l, 's, 'w) constructor \<Rightarrow> request_type" where
  "batch_type batches s = (if \<exists>i \<in> set (concat batches). generated_len s i = 0 then CE else TG)"

text \<open>\<open>_alloc_dummies\<close>: fresh contexts from the \<open>k\<close>-th new id on, one token generated, on the null block.\<close>

fun alloc_dummies ::
  "('m, 'l, 's) sched_env \<Rightarrow> nat \<Rightarrow> nat \<Rightarrow> nat \<Rightarrow> ('m, 'l, 's, 'w) constructor \<Rightarrow>
   (request_id list \<times> ('m, 'l, 's, 'w) constructor) result" where
  "alloc_dummies E r k 0 s = Inr ([], s)"
| "alloc_dummies E r k (Suc n) s =
     bind_r (new_padding_context (env_fresh E k) (padder_max_length s) (padder_model_name s)) (\<lambda>c.
     bind_r (update (env_consume E) (env_junk E) 0 None c) (\<lambda>c.
     let s = put_ctx (env_fresh E k) (TextCtx c) s in
     bind_r (kv_alloc_dummy (env_kv E) (TextCtx c) r (kv s)) (\<lambda>cache.
     bind_r (alloc_dummies E r (Suc k) n (s\<lparr>kv := cache\<rparr>)) (\<lambda>(ids, s). Inr (env_fresh E k # ids, s)))))"

fun pad_replicas ::
  "('m, 'l, 's) sched_env \<Rightarrow> nat \<Rightarrow> nat \<Rightarrow> nat \<Rightarrow> request_id list list \<Rightarrow> ('m, 'l, 's, 'w) constructor \<Rightarrow>
   (request_id list list \<times> request_id list \<times> ('m, 'l, 's, 'w) constructor) result" where
  "pad_replicas E max_per_rank rank k [] s = Inr ([], [], s)"
| "pad_replicas E max_per_rank rank k (b # bs) s =
     bind_r (alloc_dummies E rank k (max_per_rank - length b) s) (\<lambda>(dummies, s).
     bind_r (pad_replicas E max_per_rank (Suc rank) (k + length dummies) bs s) (\<lambda>(padded, all_dummies, s).
       Inr ((b @ dummies) # padded, dummies @ all_dummies, s)))"

definition pad_batch ::
  "('m, 'l, 's) sched_env \<Rightarrow> request_id list list \<Rightarrow> ('m, 'l, 's, 'w) constructor \<Rightarrow>
   (request_id list list \<times> request_id list option \<times> ('m, 'l, 's, 'w) constructor) result" where
  "pad_batch E batches s =
     (if batch_type batches s \<noteq> TG then Inr (batches, None, s)
      else
        let real_sizes = map length batches; max_per_rank = foldl max 0 real_sizes in
        if \<not> (\<exists>n \<in> set real_sizes. n < max_per_rank) then Inr (batches, None, s)
        else bind_r (pad_replicas E max_per_rank 0 0 batches s) (\<lambda>(padded, dummies, s).
          Inr (padded, Some dummies, s)))"

end
