(* ===== verification/CE_Planner.thy ===== *)
theory CE_Planner
  imports Batch_Building "HOL-Library.Product_Lexorder"
begin

text \<open>
  The planner that balances context encoding over data-parallel replicas, \<open>_plan_ce_step\<close> of
  \<open>text_batch_constructor.py\<close>, and \<open>construct_batch\<close>, which runs it and then forms the batches of
  all replicas. The phases of the planner are separate definitions, in the order of the code:
  the floor, the expired requests, the deferrable tails, the pooled requests, and the decision.
  Occupancies are exact rationals.
\<close>

section \<open>Phases of the planner\<close>

definition expired :: "('m, 'l, 's) sched_env \<Rightarrow> ('m, 'l, 's, 'w) constructor \<Rightarrow> request_id \<Rightarrow> bool" where
  "expired E s i =
     (case map_of (ce_arrival s) i of None \<Rightarrow> True
      | Some arrival \<Rightarrow> env_now E - arrival \<ge> dp_ce_balance_timeout_ms (scheduler_config s) / 1000)"

definition ce_tokens :: "('m, 'l, 's, 'w) constructor \<Rightarrow> replica_requests \<Rightarrow> int" where
  "ce_tokens s q = sum_list (map (active_len s) (ce_reqs q))"

definition can_defer :: "('m, 'l, 's) sched_env \<Rightarrow> ('m, 'l, 's, 'w) constructor \<Rightarrow> replica_requests \<Rightarrow> bool" where
  "can_defer E s q \<longleftrightarrow> tg_reqs q \<noteq> [] \<and> \<not> (\<exists>i \<in> set (ce_reqs q). expired E s i)"

abbreviation ce_target :: "('m, 'l, 's, 'w) constructor \<Rightarrow> int" where
  "ce_target s \<equiv> target_tokens_per_batch_ce (scheduler_config s)"

text \<open>The first loop: per-replica loads, the floor, and the tails that may be deferred.\<close>

definition plan_total_load :: "('m, 'l, 's, 'w) constructor \<Rightarrow> int list" where
  "plan_total_load s = map (ce_tokens s) (replicas s)"

definition plan_floor :: "('m, 'l, 's) sched_env \<Rightarrow> ('m, 'l, 's, 'w) constructor \<Rightarrow> int list" where
  "plan_floor E s =
     map (\<lambda>q. if ce_tokens s q = 0 \<or> can_defer E s q then 0 else min (ce_tokens s q) (ce_target s)) (replicas s)"

definition deferrable_tails :: "('m, 'l, 's) sched_env \<Rightarrow> ('m, 'l, 's, 'w) constructor \<Rightarrow> (int \<times> nat) list" where
  "deferrable_tails E s =
     map (\<lambda>(r, q). (min (ce_tokens s q) (ce_target s), r))
       (filter (\<lambda>(r, q). ce_tokens s q \<noteq> 0 \<and> can_defer E s q) (enumerate 0 (replicas s)))"

record plan =
  pl_floor :: "int list"
  pl_total_load :: "int list"
  pl_step_load :: "int list"

text \<open>Adding a request's weight on one replica, capped at the chunk target.\<close>

definition raise_load :: "int \<Rightarrow> nat \<Rightarrow> int \<Rightarrow> int list \<Rightarrow> int list" where
  "raise_load target r w loads = loads[r := min (loads ! r + w) target]"

text \<open>Expired pooled requests bind now and join the floor.\<close>

definition bind_expired_one ::
  "plan \<times> ('m, 'l, 's, 'w) constructor \<Rightarrow> request_id \<Rightarrow> (plan \<times> ('m, 'l, 's, 'w) constructor) result" where
  "bind_expired_one st i =
     (let (p, s) = st in
      case map_of (ce_pending s) i of None \<Rightarrow> Inl KeyError
      | Some pending \<Rightarrow>
          let s = s\<lparr>ce_pending := AList.delete i (ce_pending s)\<rparr>; w = pc_weights pending in
          bind_r (min_by (\<lambda>r. pl_total_load p ! r + w ! r) [0..<ctx_num_replicas s]) (\<lambda>r.
          let total = (pl_total_load p)[r := pl_total_load p ! r + w ! r];
              step_load = raise_load (ce_target s) r (w ! r) (pl_step_load p);
              p = \<lparr>pl_floor = (pl_floor p)[r := step_load ! r], pl_total_load = total, pl_step_load = step_load\<rparr>
          in bind_r (bind_request i r s) (\<lambda>s. Inr (p, s))))"

definition list_max :: "int list \<Rightarrow> int" where
  "list_max xs = (case xs of [] \<Rightarrow> 0 | x # xs \<Rightarrow> foldl max x xs)"

definition occupancy :: "int list \<Rightarrow> rat" where
  "occupancy loads =
     (if list_max loads = 0 then 1
      else of_int (sum_list loads) / of_nat (length loads) / of_int (list_max loads))"

definition improves :: "int list \<Rightarrow> int list \<Rightarrow> bool" where
  "improves step_load trial \<longleftrightarrow> list_max step_load = 0 \<or> occupancy trial > occupancy step_load"

text \<open>Greedy valley-fill with the deferrable tails, largest first.\<close>

definition fill_tail :: "int \<Rightarrow> int list \<times> nat list \<Rightarrow> int \<times> nat \<Rightarrow> int list \<times> nat list" where
  "fill_tail target st tail =
     (let (step_load, deferred) = st; (step_tokens, r) = tail;
          trial = raise_load target r step_tokens step_load
      in if improves step_load trial then (trial, removeAll r deferred) else (step_load, deferred))"

definition fill_tails :: "int \<Rightarrow> int list \<Rightarrow> (int \<times> nat) list \<Rightarrow> int list \<times> nat list" where
  "fill_tails target step_load tails =
     foldl (fill_tail target) (step_load, map snd tails) (rev (sort tails))"

text \<open>Pooled requests, largest first, only onto replicas that run context encoding this step.\<close>

definition pool_candidate ::
  "int \<Rightarrow> nat \<Rightarrow> nat list \<Rightarrow> int list \<times> int list \<times> (request_id \<times> nat) list \<Rightarrow> request_id \<times> pending_ce \<Rightarrow>
   int list \<times> int list \<times> (request_id \<times> nat) list" where
  "pool_candidate target n deferred st item =
     (let (step_load, total_load, binds) = st; (i, pending) = item; w = pc_weights pending;
          eligible = filter (\<lambda>r. r \<notin> set deferred \<and> step_load ! r < target) [0..<n]
      in case min_by (\<lambda>r. total_load ! r + w ! r) eligible of
           Inl _ \<Rightarrow> st
         | Inr r \<Rightarrow>
             let trial = raise_load target r (w ! r) step_load in
             if improves step_load trial
             then (trial, total_load[r := total_load ! r + w ! r], binds @ [(i, r)])
             else st)"

definition list_min :: "int list \<Rightarrow> int" where
  "list_min xs = (case xs of [] \<Rightarrow> 0 | x # xs \<Rightarrow> foldl min x xs)"

definition plan_pool ::
  "int \<Rightarrow> nat \<Rightarrow> nat list \<Rightarrow> int list \<Rightarrow> int list \<Rightarrow> (request_id, pending_ce) dict \<Rightarrow>
   int list \<times> int list \<times> (request_id \<times> nat) list" where
  "plan_pool target n deferred step_load total_load pool =
     foldl (pool_candidate target n deferred) (step_load, total_load, [])
       (sort_key (\<lambda>item. - list_min (pc_weights (snd item))) pool)"

definition loads_with_work :: "int list \<Rightarrow> int list" where
  "loads_with_work step_load = filter (\<lambda>t. t > 0) step_load"

definition balance_level :: "int list \<Rightarrow> int list \<Rightarrow> int" where
  "balance_level fl step_load =
     (if loads_with_work step_load \<noteq> [] then max (list_max fl) (list_min (loads_with_work step_load)) else 0)"

definition can_reduce_chunk_size :: "('m, 'l, 's, 'w) constructor \<Rightarrow> int list \<Rightarrow> int list \<Rightarrow> bool" where
  "can_reduce_chunk_size s fl step_load \<longleftrightarrow>
     dp_ce_balance_enable_dynamic_chunk_size (scheduler_config s) \<and>
     length (loads_with_work step_load) > 1 \<and> balance_level fl step_load \<ge> ce_target s div 2"

definition step_quotas :: "('m, 'l, 's, 'w) constructor \<Rightarrow> int list \<Rightarrow> int list \<Rightarrow> int list" where
  "step_quotas s fl step_load =
     map (\<lambda>r. if step_load ! r > 0 then max (fl ! r) (min (step_load ! r) (balance_level fl step_load))
              else ce_target s) [0..<ctx_num_replicas s]"

definition bind_pooled ::
  "('m, 'l, 's, 'w) constructor \<Rightarrow> request_id \<times> nat \<Rightarrow> ('m, 'l, 's, 'w) constructor result" where
  "bind_pooled s e =
     (let (i, r) = e in
      raise_if (map_of (ce_pending s) i = None) KeyError
        (bind_request i r (s\<lparr>ce_pending := AList.delete i (ce_pending s)\<rparr>)))"

text \<open>The decision: commit the assembled step, or hold everything that may be deferred.\<close>

definition commit_plan ::
  "('m, 'l, 's) sched_env \<Rightarrow> int list \<Rightarrow> (int \<times> nat) list \<Rightarrow> nat list \<Rightarrow> int list \<Rightarrow> (request_id \<times> nat) list \<Rightarrow>
   ('m, 'l, 's, 'w) constructor \<Rightarrow> ('m, 'l, 's, 'w) constructor result" where
  "commit_plan E fl tails deferred step_load binds s =
     (let cfg = scheduler_config s;
          floor_exists = (\<exists>t \<in> set fl. t \<noteq> 0);
          fleet_idle = (\<not> floor_exists \<and> (\<forall>q \<in> set (replicas s). tg_reqs q = []));
          occ = occupancy step_load; reducible = can_reduce_chunk_size s fl step_load
      in if floor_exists \<or> fleet_idle \<or> occ \<ge> dp_ce_balance_threshold cfg \<or> reducible
         then bind_r (fold_r bind_pooled s binds) (\<lambda>s.
           let s = s\<lparr>ce_deferred_replicas := deferred\<rparr>
           in Inr (if occ < dp_ce_balance_threshold cfg \<and> reducible \<and> \<not> fleet_idle
                   then s\<lparr>ce_step_quota := Some (step_quotas s fl step_load)\<rparr> else s))
         else Inr (s\<lparr>ce_deferred_replicas := map snd tails\<rparr>))"

definition plan_ce_step ::
  "('m, 'l, 's) sched_env \<Rightarrow> ('m, 'l, 's, 'w) constructor \<Rightarrow> ('m, 'l, 's, 'w) constructor result" where
  "plan_ce_step E s =
     (let s = s\<lparr>ce_deferred_replicas := [], ce_step_quota := None\<rparr> in
      if \<not> dp_ce_balance_enabled s then Inr s
      else if ce_pending s = [] \<and> (\<forall>q \<in> set (replicas s). ce_reqs q = []) then Inr s
      else
        let tails = deferrable_tails E s; fl = plan_floor E s;
            p = \<lparr>pl_floor = fl, pl_total_load = plan_total_load s, pl_step_load = fl\<rparr>
        in bind_r (fold_r bind_expired_one (p, s) (filter (expired E s) (map fst (ce_pending s)))) (\<lambda>(p, s).
           let (step_load, deferred) = fill_tails (ce_target s) (pl_step_load p) tails;
               (step_load, _, binds) = plan_pool (ce_target s) (ctx_num_replicas s) deferred step_load
                 (pl_total_load p) (ce_pending s)
           in commit_plan E (pl_floor p) tails deferred step_load binds s))"

section \<open>Constructing the batches\<close>

definition readmit_completed_onloads ::
  "('m, 'l, 's) sched_env \<Rightarrow> ('m, 'l, 's, 'w) constructor \<Rightarrow> ('m, 'l, 's, 'w) constructor result" where
  "readmit_completed_onloads E s =
     fold_r (\<lambda>s i.
       case map_of (onloading_reqs s) i of None \<Rightarrow> Inl KeyError
       | Some o1 \<Rightarrow>
           let s = s\<lparr>onloading_reqs := AList.delete i (onloading_reqs s)\<rparr> in
           bind_r (replica_at (on_replica o1) s) (\<lambda>_.
             Inr (upd_replica (on_replica o1) (\<lambda>q. q\<lparr>ce_reqs := od_front i (ce_reqs q)\<rparr>) s)))
       s (map fst (filter (\<lambda>(i, o1). kv_event_done (env_kv E) (on_event o1) (kv s)) (onloading_reqs s)))"

text \<open>The priorities of all replicas, and the override the strategy derives from them.\<close>

definition replica_priorities ::
  "('m, 'l, 's) sched_env \<Rightarrow> ('m, 'l, 's, 'w) constructor \<Rightarrow> request_type option list result" where
  "replica_priorities E s =
     fold_r (\<lambda>ps r. bind_r (identify_priority E r s) (\<lambda>p. Inr (ps @ [p]))) [] [0..<ctx_num_replicas s]"

definition priority_override_of ::
  "('m, 'l, 's) sched_env \<Rightarrow> ('m, 'l, 's, 'w) constructor \<Rightarrow> request_type option result" where
  "priority_override_of E s =
     (case strategy s of
        PER_REPLICA \<Rightarrow> Inr None
      | DECODE_FIRST \<Rightarrow> bind_r (replica_priorities E s) (\<lambda>ps. Inr (if Some TG \<in> set ps then Some TG else None))
      | PREFILL_FIRST \<Rightarrow> bind_r (replica_priorities E s) (\<lambda>ps. Inr (if Some CE \<in> set ps then Some CE else None))
      | BALANCED \<Rightarrow> bind_r (replica_priorities E s) (\<lambda>ps.
          Inr (Some (if count_list ps (Some CE) > count_list ps (Some TG) then CE else TG))))"

fun construct_replicas ::
  "('m, 'l, 's) sched_env \<Rightarrow> request_type option \<Rightarrow> nat list \<Rightarrow> ('m, 'l, 's, 'w) constructor \<Rightarrow>
   (request_id list list \<times> ('m, 'l, 's, 'w) constructor) result" where
  "construct_replicas E override [] s = Inr ([], s)"
| "construct_replicas E override (r # rs) s =
     bind_r (construct_replica_batch E r override s) (\<lambda>(b, s).
     bind_r (construct_replicas E override rs s) (\<lambda>(bs, s). Inr (batch b # bs, s)))"

definition construct_batch ::
  "('m, 'l, 's) sched_env \<Rightarrow> ('m, 'l, 's, 'w) constructor \<Rightarrow>
   (request_id list list \<times> ('m, 'l, 's, 'w) constructor) result" where
  "construct_batch E s =
     bind_r (readmit_completed_onloads E s) (\<lambda>s.
     bind_r (promote_grammar_ready_requests E s) (\<lambda>s.
     bind_r (plan_ce_step E s) (\<lambda>s.
     bind_r (priority_override_of E s) (\<lambda>override.
     bind_r (construct_replicas E override [0..<ctx_num_replicas s] s) (\<lambda>(batches, s).
     if has_padder s then
       bind_r (pad_batch E batches s) (\<lambda>(batches, dummies, s).
         Inr (batches, s\<lparr>current_dp_padding := dummies\<rparr>))
     else Inr (batches, s))))))"

end
