(* ===== verification/Scheduler.thy ===== *)
theory Scheduler
  imports CE_Planner
begin

text \<open>
  The token generation scheduler, \<open>max/serve/scheduler/text_generation_scheduler.py\<close>: one
  iteration of the serving loop, with \<open>drain_queue\<close> of \<open>max/serve/queue.py\<close> and
  \<open>get_cancelled_reqs\<close> of \<open>max/serve/scheduler/utils.py\<close>.

  The pipeline is a parameter: executing a batch may change the contexts and the KV cache, and
  returns for every request with output whether it is done. The queues to and from the API
  process are lists; the API process appends to the request and cancel queues between
  iterations. Tracing spans, logging and batch metrics are left out.
\<close>

datatype scheduler_result = ResultFailed string | ResultCancelled | ResultResponse bool

record ('m, 'l, 's) pipeline_env =
  execute :: "request_id list list \<Rightarrow> (request_id \<Rightarrow> ('m, 'l) any_context) \<Rightarrow> 's \<Rightarrow>
    ((request_id, bool) dict \<times> (request_id \<Rightarrow> ('m, 'l) any_context) \<times> 's) result"
  has_pending_outputs :: bool

record ('m, 'l, 's, 'w) scheduler =
  batch_constructor :: "('m, 'l, 's, 'w) constructor"
  request_queue :: "request_id list"
  cancel_queue :: "request_id list list"
  response_queue :: "(request_id \<times> scheduler_result) list"
  max_pending_requests :: "int option"
  support_empty_batches :: bool
  batch_counter :: int

datatype scheduler_progress = MADE_PROGRESS | NO_PROGRESS

text \<open>The items taken and the items left.\<close>

fun drain_queue :: "'a list \<Rightarrow> int option \<Rightarrow> 'a list \<times> 'a list" where
  "drain_queue q (Some n) = (take (nat n) q, drop (nat n) q)"
| "drain_queue q None = (q, [])"

definition get_cancelled_reqs :: "request_id list list \<Rightarrow> request_id list" where
  "get_cancelled_reqs q = concat q"

definition max_items_per_drain :: "('m, 'l, 's, 'w) scheduler \<Rightarrow> int" where
  "max_items_per_drain S =
     max_batch_size (scheduler_config (batch_constructor S)) *
     int (data_parallel_degree (scheduler_config (batch_constructor S))) * 2"

definition retrieve_pending_requests ::
  "('m, 'l, 's) sched_env \<Rightarrow> ('m, 'l, 's, 'w) scheduler \<Rightarrow> ('m, 'l, 's, 'w) scheduler result" where
  "retrieve_pending_requests E S =
     (let available = (case max_pending_requests S of None \<Rightarrow> None
            | Some n \<Rightarrow> Some (n - int (length (all_ce_reqs (batch_constructor S)))))
      in if (case available of None \<Rightarrow> False | Some a \<Rightarrow> a \<le> 0) then Inr S
         else
           let max_items = (case available of None \<Rightarrow> max_items_per_drain S
                            | Some a \<Rightarrow> min (max_items_per_drain S) a);
               (items, rest) = drain_queue (request_queue S) (Some max_items)
           in bind_r (fold_r (\<lambda>s i. enqueue_new_request E i None s) (batch_constructor S) items) (\<lambda>s.
              Inr (S\<lparr>batch_constructor := s, request_queue := rest\<rparr>)))"

definition respond :: "request_id \<Rightarrow> scheduler_result \<Rightarrow> ('m, 'l, 's, 'w) scheduler \<Rightarrow> ('m, 'l, 's, 'w) scheduler" where
  "respond i res S = S\<lparr>response_queue := response_queue S @ [(i, res)]\<rparr>"

definition schedule ::
  "('m, 'l, 's) sched_env \<Rightarrow> ('m, 'l, 's) pipeline_env \<Rightarrow> request_id list list \<Rightarrow> ('m, 'l, 's, 'w) scheduler \<Rightarrow>
   ('m, 'l, 's, 'w) scheduler result" where
  "schedule E X inputs S =
     (let s = batch_constructor S in
      bind_r (execute X inputs (store s) (kv s)) (\<lambda>(responses, st, cache).
      let s = s\<lparr>store := st, kv := cache\<rparr>;
          responses = filter (\<lambda>(i, _). contains i s) responses
      in bind_r (advance_requests E inputs s) (\<lambda>s.
         bind_r (fold_r (\<lambda>s (i, done). if done then release_request E i s else Inr s) s responses) (\<lambda>s.
         Inr (S\<lparr>batch_constructor := s, batch_counter := batch_counter S + 1,
                response_queue := response_queue S @ map (\<lambda>(i, done). (i, ResultResponse done)) responses\<rparr>)))))"

definition cancel_requests ::
  "('m, 'l, 's) sched_env \<Rightarrow> ('m, 'l, 's, 'w) scheduler \<Rightarrow> ('m, 'l, 's, 'w) scheduler result" where
  "cancel_requests E S =
     (let cancelled = get_cancelled_reqs (cancel_queue S) in
      fold_r (\<lambda>S i.
        if contains i (batch_constructor S)
        then bind_r (release_request E i (batch_constructor S)) (\<lambda>s. Inr (respond i ResultCancelled (S\<lparr>batch_constructor := s\<rparr>)))
        else Inr S) (S\<lparr>cancel_queue := []\<rparr>) cancelled)"

definition run_iteration ::
  "('m, 'l, 's) sched_env \<Rightarrow> ('m, 'l, 's) pipeline_env \<Rightarrow> ('m, 'l, 's, 'w) scheduler \<Rightarrow>
   (scheduler_progress \<times> ('m, 'l, 's, 'w) scheduler) result" where
  "run_iteration E X S =
     bind_r (retrieve_pending_requests E S) (\<lambda>S.
     bind_r (construct_batch E (batch_constructor S)) (\<lambda>(inputs, s).
     let (failed, s) = take_grammar_failed s;
         S = foldl (\<lambda>S (i, err). respond i (ResultFailed err) S) (S\<lparr>batch_constructor := s\<rparr>) failed
     in if \<not> (concat inputs \<noteq> [] \<or> support_empty_batches S \<or> has_pending_outputs X)
        then Inr (NO_PROGRESS, S)
        else bind_r (schedule E X inputs S) (\<lambda>S.
             bind_r (cancel_requests E S) (\<lambda>S. Inr (MADE_PROGRESS, S)))))"

end
