(* ===== verification/Batch_Ownership.thy ===== *)
theory Batch_Ownership
  imports Scheduler Cache_Contract
begin

text \<open>
  Who has a request. Every request the constructor manages is bound to one replica or waits in one
  of the two pools, and a bound request is in exactly one place: a queue of its replica, the set of
  requests whose KV data is being loaded, or the batch in flight. The KV cache owns blocks for bound
  requests only, on their own replica. The invariant is stated over any KV cache that meets the
  contract of \<open>Cache_Contract\<close> and preserved by every operation of the constructor, including
  the loops that form a batch. Padding of data-parallel batches is switched off here.
\<close>

section \<open>The invariant\<close>

definition queue_ids :: "replica_requests \<Rightarrow> request_id list" where
  "queue_ids q = ce_reqs q @ tg_reqs q @ deferred_lora_requests q"

definition queued :: "('m, 'l, 's, 'w) constructor \<Rightarrow> request_id multiset" where
  "queued s = sum_list (map (mset \<circ> queue_ids) (replicas s)) + mset (map fst (onloading_reqs s))"

definition bound_ids :: "('m, 'l, 's, 'w) constructor \<Rightarrow> request_id set" where
  "bound_ids s = dom (map_of (bound_requests s))"

definition pooled_ids :: "('m, 'l, 's, 'w) constructor \<Rightarrow> request_id set" where
  "pooled_ids s = dom (map_of (ce_pending s)) \<union> dom (map_of (grammar_pending s))"

definition managed :: "('m, 'l, 's, 'w) constructor \<Rightarrow> request_id set" where
  "managed s = bound_ids s \<union> pooled_ids s"

text \<open>\<open>act\<close> is the set of bound requests that are in no queue: the popped part of the batch.\<close>

definition places_ok :: "request_id set \<Rightarrow> ('m, 'l, 's, 'w) constructor \<Rightarrow> bool" where
  "places_ok act s \<longleftrightarrow>
     ctx_num_replicas s = length (replicas s) \<and> (\<forall>i. rid (store s i) = i) \<and>
     queued s = mset_set (bound_ids s - act) \<and> act \<subseteq> bound_ids s \<and>
     (\<forall>r < length (replicas s). \<forall>i \<in> set (queue_ids (replicas s ! r)). map_of (bound_requests s) i = Some r) \<and>
     (\<forall>e \<in> set (onloading_reqs s). map_of (bound_requests s) (fst e) = Some (on_replica (snd e))) \<and>
     (\<forall>i r. map_of (bound_requests s) i = Some r \<longrightarrow> r < length (replicas s)) \<and>
     bound_ids s \<inter> pooled_ids s = {} \<and>
     dom (map_of (ce_pending s)) \<inter> dom (map_of (grammar_pending s)) = {} \<and>
     (grammar_pending s \<noteq> [] \<longrightarrow> gate s \<noteq> None) \<and>
     \<not> has_padder s \<and> prev_dp_padding s = None \<and> current_dp_padding s = None"

lemma finite_bound [simp]: "finite (bound_ids s)"
  by (simp add: bound_ids_def finite_dom_map_of)

lemma contains_managed: "places_ok act s \<Longrightarrow> contains i s \<longleftrightarrow> i \<in> managed s"
proof -
  assume p: "places_ok act s"
  have "i \<in> bound_ids s" if "map_of (onloading_reqs s) i = Some e" for e
  proof -
    have "map_of (bound_requests s) i = Some (on_replica e)"
      using p map_of_SomeD [OF that] unfolding places_ok_def by (metis fst_conv snd_conv)
    then show ?thesis by (auto simp: bound_ids_def)
  qed
  then show ?thesis
    unfolding contains_def managed_def pooled_ids_def bound_ids_def by blast
qed

subsection \<open>Queues as multisets\<close>

lemma sum_list_swap: "r < length xs \<Longrightarrow> sum_list (xs[r := y]) + xs ! r = sum_list xs + (y :: 'a multiset)"
proof (induction xs arbitrary: r)
  case (Cons x xs)
  then show ?case by (cases r) (auto simp: add_ac)
qed simp

lemma queued_upd_replica:
  assumes "r < length (replicas s)"
  shows "queued (upd_replica r f s) + mset (queue_ids (replicas s ! r)) = queued s + mset (queue_ids (f (replicas s ! r)))"
  using sum_list_swap [of r "map (mset \<circ> queue_ids) (replicas s)" "mset (queue_ids (f (replicas s ! r)))"] assms
  by (simp add: queued_def upd_replica_def map_update add_ac)

lemma queued_cong: "replicas s' = replicas s \<Longrightarrow> onloading_reqs s' = onloading_reqs s \<Longrightarrow> queued s' = queued s"
  by (simp add: queued_def)

lemma in_queue_queued: "r < length (replicas s) \<Longrightarrow> i \<in> set (queue_ids (replicas s ! r)) \<Longrightarrow> i \<in># queued s"
  by (force simp: queued_def set_mset_sum_list in_set_conv_nth)

lemma places_queued: "places_ok act s \<Longrightarrow> queued s = mset_set (bound_ids s - act)"
  unfolding places_ok_def by (elim conjE)

lemma not_queued:
  assumes "places_ok act s" and "i \<notin> bound_ids s - act"
  shows "i \<notin># queued s"
  using assms(2) places_queued [OF assms(1)] by simp

lemma upd_replica_simps [simp]:
  "scheduler_config (upd_replica r f s) = scheduler_config s" "store (upd_replica r f s) = store s"
  "kv (upd_replica r f s) = kv s" "lora (upd_replica r f s) = lora s" "gate (upd_replica r f s) = gate s"
  "bound_requests (upd_replica r f s) = bound_requests s" "onloading_reqs (upd_replica r f s) = onloading_reqs s"
  "ce_pending (upd_replica r f s) = ce_pending s" "grammar_pending (upd_replica r f s) = grammar_pending s"
  "ce_deferred_replicas (upd_replica r f s) = ce_deferred_replicas s" "ce_step_quota (upd_replica r f s) = ce_step_quota s"
  "has_padder (upd_replica r f s) = has_padder s" "prev_dp_padding (upd_replica r f s) = prev_dp_padding s"
  "current_dp_padding (upd_replica r f s) = current_dp_padding s" "strategy (upd_replica r f s) = strategy s"
  "grammar_failed (upd_replica r f s) = grammar_failed s" "ce_arrival (upd_replica r f s) = ce_arrival s"
  "length (replicas (upd_replica r f s)) = length (replicas s)"
  "bound_ids (upd_replica r f s) = bound_ids s" "pooled_ids (upd_replica r f s) = pooled_ids s"
  by (simp_all add: upd_replica_def bound_ids_def pooled_ids_def)

lemma replicas_upd_replica:
  "r < length (replicas s) \<Longrightarrow> replicas (upd_replica r f s) ! k = (if k = r then f (replicas s ! r) else replicas s ! k)"
  by (simp add: upd_replica_def nth_list_update)

text \<open>Changing one replica: the members of its queues are bound to it, and the multiset of queued requests fits.\<close>

lemma places_upd_replica:
  assumes p: "places_ok act s" and r: "r < length (replicas s)"
    and sub: "\<forall>i \<in> set (queue_ids (f (replicas s ! r))). map_of (bound_requests s) i = Some r"
    and q: "queued (upd_replica r f s) = mset_set (bound_ids s - act')" and a: "act' \<subseteq> bound_ids s"
  shows "places_ok act' (upd_replica r f s)"
proof -
  note D = p [unfolded places_ok_def]
  have 1: "\<forall>k < length (replicas s). \<forall>i \<in> set (queue_ids (replicas (upd_replica r f s) ! k)).
      map_of (bound_requests s) i = Some k"
  proof (intro allI impI ballI)
    fix k i
    assume k: "k < length (replicas s)" and i: "i \<in> set (queue_ids (replicas (upd_replica r f s) ! k))"
    show "map_of (bound_requests s) i = Some k"
    proof (cases "k = r")
      case True
      then show ?thesis using i sub replicas_upd_replica [OF r, of f k] by simp
    next
      case False
      then have "i \<in> set (queue_ids (replicas s ! k))" using i replicas_upd_replica [OF r, of f k] by simp
      then show ?thesis using D k by blast
    qed
  qed
  show ?thesis
    unfolding places_ok_def upd_replica_simps using D 1 q a by (elim conjE, intro conjI) assumption+
qed

lemma places_queue_bound:
  assumes "places_ok act s" and "r < length (replicas s)" and "i \<in> set (queue_ids (replicas s ! r))"
  shows "map_of (bound_requests s) i = Some r"
  using assms unfolding places_ok_def by (elim conjE) blast

lemma places_act_bound: "places_ok act s \<Longrightarrow> act \<subseteq> bound_ids s"
  unfolding places_ok_def by (elim conjE)

lemma places_same:
  assumes "places_ok act s" and "r < length (replicas s)"
    and "mset (queue_ids (f (replicas s ! r))) = mset (queue_ids (replicas s ! r))"
  shows "places_ok act (upd_replica r f s)"
proof (rule places_upd_replica [OF assms(1,2)])
  show "queued (upd_replica r f s) = mset_set (bound_ids s - act)"
    using queued_upd_replica [OF assms(2), of f] assms(3) places_queued [OF assms(1)] by simp
  show "\<forall>i \<in> set (queue_ids (f (replicas s ! r))). map_of (bound_requests s) i = Some r"
    using places_queue_bound [OF assms(1,2)] mset_eq_setD [OF assms(3)] by blast
qed (rule places_act_bound [OF assms(1)])

lemma mset_set_take: "finite B \<Longrightarrow> i \<in> B - act \<Longrightarrow> mset_set (B - act) = add_mset i (mset_set (B - insert i act))"
  using mset_set.remove [of "B - act" i] by (simp add: Diff_insert [symmetric])

lemma mset_set_give:
  assumes "finite B" and "i \<in> B" and "i \<in> act"
  shows "mset_set (B - (act - {i})) = add_mset i (mset_set (B - act))"
proof -
  have "B - (act - {i}) = insert i (B - act)" using assms by auto
  then show ?thesis using assms by simp
qed

lemma places_take:
  assumes "places_ok act s" and "r < length (replicas s)" and "i \<in> set (queue_ids (replicas s ! r))"
    and m: "mset (queue_ids (replicas s ! r)) = add_mset i (mset (queue_ids (f (replicas s ! r))))"
  shows "places_ok (insert i act) (upd_replica r f s)" and "i \<notin> act"
proof -
  have i: "i \<in># queued s" by (rule in_queue_queued [OF assms(2,3)])
  then have mem: "i \<in> bound_ids s - act" using places_queued [OF assms(1)] by simp
  then show "i \<notin> act" by simp
  have sub: "set (queue_ids (f (replicas s ! r))) \<subseteq> set (queue_ids (replicas s ! r))"
    using arg_cong [OF m, of set_mset] by auto
  have "add_mset i (queued (upd_replica r f s)) = queued s"
    using queued_upd_replica [OF assms(2), of f] m by simp
  also have "\<dots> = add_mset i (mset_set (bound_ids s - insert i act))"
    using mset_set_take [OF _ mem] places_queued [OF assms(1)] by simp
  finally have q: "queued (upd_replica r f s) = mset_set (bound_ids s - insert i act)" by simp
  have "insert i act \<subseteq> bound_ids s" using places_act_bound [OF assms(1)] mem by simp
  then show "places_ok (insert i act) (upd_replica r f s)"
    using places_queue_bound [OF assms(1,2)] sub by (intro places_upd_replica [OF assms(1,2) _ q]) blast+
qed

lemma places_give:
  assumes "places_ok act s" and "r < length (replicas s)" and "i \<in> act" and b: "map_of (bound_requests s) i = Some r"
    and m: "mset (queue_ids (f (replicas s ! r))) = add_mset i (mset (queue_ids (replicas s ! r)))"
  shows "places_ok (act - {i}) (upd_replica r f s)"
proof -
  have "i \<in> bound_ids s" using b by (auto simp: bound_ids_def)
  then have q: "queued (upd_replica r f s) = mset_set (bound_ids s - (act - {i}))"
    using queued_upd_replica [OF assms(2), of f] m assms(3) mset_set_give [of "bound_ids s" i act]
      places_queued [OF assms(1)] by simp
  have "set (queue_ids (f (replicas s ! r))) \<subseteq> insert i (set (queue_ids (replicas s ! r)))"
    using arg_cong [OF m, of set_mset] by auto
  moreover have "act - {i} \<subseteq> bound_ids s" using places_act_bound [OF assms(1)] by blast
  ultimately show ?thesis
    using places_queue_bound [OF assms(1,2)] b by (intro places_upd_replica [OF assms(1,2) _ q]) blast+
qed

subsection \<open>Frames\<close>

text \<open>What the invariant reads, apart from the queues and the store.\<close>

definition same_static :: "('m, 'l, 's, 'w) constructor \<Rightarrow> ('m, 'l, 's, 'w) constructor \<Rightarrow> bool" where
  "same_static s s' \<longleftrightarrow> bound_requests s' = bound_requests s \<and> ce_pending s' = ce_pending s \<and>
     grammar_pending s' = grammar_pending s \<and> (gate s' = None \<longleftrightarrow> gate s = None) \<and>
     scheduler_config s' = scheduler_config s \<and> length (replicas s') = length (replicas s) \<and>
     ce_deferred_replicas s' = ce_deferred_replicas s \<and> ce_step_quota s' = ce_step_quota s \<and>
     strategy s' = strategy s \<and> grammar_failed s' = grammar_failed s \<and> ce_arrival s' = ce_arrival s \<and>
     has_padder s' = has_padder s \<and> prev_dp_padding s' = prev_dp_padding s \<and>
     current_dp_padding s' = current_dp_padding s"

lemma same_static_refl [simp]: "same_static s s"
  by (simp add: same_static_def)

lemma same_static_trans: "same_static a b \<Longrightarrow> same_static b c \<Longrightarrow> same_static a c"
  unfolding same_static_def by (elim conjE) (intro conjI; simp only:)

lemma same_static_ids:
  "same_static s s' \<Longrightarrow> bound_ids s' = bound_ids s \<and> pooled_ids s' = pooled_ids s \<and> managed s' = managed s"
  by (simp add: same_static_def bound_ids_def pooled_ids_def managed_def)

lemma same_static_upd [simp]: "same_static s (upd_replica r f s)"
  by (simp add: same_static_def)

lemma same_static_fields [simp]:
  "same_static s (put_ctx i c s)" "same_static s (s\<lparr>kv := k\<rparr>)" "same_static s (pipeline_release i s)"
  "same_static s (s\<lparr>lora := l\<rparr>)" "same_static s (s\<lparr>total_preemption_count := n\<rparr>)"
  "same_static s (s\<lparr>onloading_reqs := x\<rparr>)"
  by (simp_all add: same_static_def put_ctx_def pipeline_release_def)

text \<open>The queues and the cordoned requests unchanged.\<close>

definition same_queues :: "('m, 'l, 's, 'w) constructor \<Rightarrow> ('m, 'l, 's, 'w) constructor \<Rightarrow> bool" where
  "same_queues s s' \<longleftrightarrow> replicas s' = replicas s \<and> onloading_reqs s' = onloading_reqs s"

lemma same_queues_fields [simp]:
  "same_queues s s" "same_queues s (put_ctx i c s)" "same_queues s (s\<lparr>kv := k\<rparr>)" "same_queues s (pipeline_release i s)"
  "same_queues s (s\<lparr>lora := l\<rparr>)" "same_queues s (s\<lparr>total_preemption_count := n\<rparr>)"
  by (simp_all add: same_queues_def put_ctx_def pipeline_release_def)

lemma same_queues_trans: "same_queues a b \<Longrightarrow> same_queues b c \<Longrightarrow> same_queues a c"
  by (simp add: same_queues_def)

lemma places_frame:
  assumes p: "places_ok act s" and st: "same_static s s'" and q: "same_queues s s'"
    and ids: "\<And>i. rid (store s' i) = i"
  shows "places_ok act s'"
proof -
  have qs: "queued s' = queued s" using q by (intro queued_cong) (simp_all add: same_queues_def)
  have b: "bound_ids s' = bound_ids s" "pooled_ids s' = pooled_ids s" using same_static_ids [OF st] by simp_all
  have e: "bound_requests s' = bound_requests s" "ce_pending s' = ce_pending s" "grammar_pending s' = grammar_pending s"
    "(gate s' = None) = (gate s = None)" "scheduler_config s' = scheduler_config s" "has_padder s' = has_padder s"
    "prev_dp_padding s' = prev_dp_padding s" "current_dp_padding s' = current_dp_padding s"
    "replicas s' = replicas s" "onloading_reqs s' = onloading_reqs s"
    using st q by (simp_all add: same_static_def same_queues_def)
  have i: "\<forall>i. rid (store s' i) = i" using ids by blast
  show ?thesis
    unfolding places_ok_def qs b e using p [unfolded places_ok_def] i by (elim conjE, intro conjI) assumption+
qed

lemma places_ids: "places_ok act s \<Longrightarrow> rid (store s i) = i"
  unfolding places_ok_def by (elim conjE) blast

lemma places_bound_range:
  assumes "places_ok act s" and "map_of (bound_requests s) i = Some r"
  shows "r < length (replicas s)"
  using assms unfolding places_ok_def by (elim conjE) blast

lemma places_onloading_bound:
  assumes "places_ok act s" and "e \<in> set (onloading_reqs s)"
  shows "map_of (bound_requests s) (fst e) = Some (on_replica (snd e))"
  using assms unfolding places_ok_def by (elim conjE) blast

lemma places_not_in_queue:
  assumes "places_ok act s" and "i \<in> act" and "r < length (replicas s)"
  shows "i \<notin> set (queue_ids (replicas s ! r))"
  using in_queue_queued [OF assms(3)] not_queued [OF assms(1), of i] assms(2) by blast

lemma places_not_onloading:
  assumes "places_ok act s" and "i \<in> act"
  shows "i \<notin> fst ` set (onloading_reqs s)"
  using not_queued [OF assms(1), of i] assms(2) by (simp add: queued_def)

text \<open>A queue holds a request once.\<close>

lemma distinct_count_le: "(\<And>i. count_list xs i \<le> 1) \<Longrightarrow> distinct xs"
proof (induction xs)
  case (Cons x xs)
  have "count_list xs i \<le> 1" for i using Cons.prems [of i] by (cases "i = x") simp_all
  moreover have "count_list xs x = 0" using Cons.prems [of x] by simp
  ultimately show ?case using Cons.IH by (simp add: count_list_0_iff)
qed simp

lemma queue_distinct:
  assumes "places_ok act s" and "r < length (replicas s)"
  shows "distinct (queue_ids (replicas s ! r))"
proof -
  have "count (mset (queue_ids (replicas s ! r))) i \<le> 1" for i
  proof -
    have "sum_list (map (mset \<circ> queue_ids) (replicas s)) =
        sum_list ((map (mset \<circ> queue_ids) (replicas s))[r := {#}]) + mset (queue_ids (replicas s ! r))"
      using sum_list_swap [of r "map (mset \<circ> queue_ids) (replicas s)" "{#}"] assms(2) by simp
    then have "count (mset (queue_ids (replicas s ! r))) i \<le> count (queued s) i"
      by (simp add: queued_def)
    also have "\<dots> \<le> 1" using places_queued [OF assms(1)] by (simp add: count_mset_set')
    finally show ?thesis .
  qed
  then have "count_list (queue_ids (replicas s ! r)) i \<le> 1" for i by (simp add: count_mset)
  then show ?thesis by (rule distinct_count_le)
qed

end
