(* ===== verification/Batch_Loops.thy ===== *)
theory Batch_Loops
  imports Batch_Ownership
begin

text \<open>
  The ownership invariant through the formation of a batch: the calls on the KV cache, the return
  of a request to its queue, the loop that admits context-encoding requests, and the loop that
  admits token-generation requests and preempts the newest ones. The lemmas are proved once, over
  the contract of the KV cache.
\<close>

section \<open>The invariant with the KV cache\<close>

definition kv_good ::
  "('s \<Rightarrow> bool) \<Rightarrow> ('s \<Rightarrow> request_id \<Rightarrow> nat option) \<Rightarrow> ('s \<Rightarrow> nat) \<Rightarrow> ('m, 'l, 's, 'w) constructor \<Rightarrow> bool" where
  "kv_good ok owner nrep s \<longleftrightarrow> ok (kv s) \<and> nrep (kv s) = length (replicas s) \<and>
     (\<forall>i r. owner (kv s) i = Some r \<longrightarrow> map_of (bound_requests s) i = Some r)"

definition own_inv ::
  "('s \<Rightarrow> bool) \<Rightarrow> ('s \<Rightarrow> request_id \<Rightarrow> nat option) \<Rightarrow> ('s \<Rightarrow> nat) \<Rightarrow> request_id set \<Rightarrow> ('m, 'l, 's, 'w) constructor \<Rightarrow> bool" where
  "own_inv ok owner nrep act s \<longleftrightarrow> places_ok act s \<and> kv_good ok owner nrep s"

lemma own_places: "own_inv ok owner nrep act s \<Longrightarrow> places_ok act s"
  by (simp add: own_inv_def)

lemma kv_good_frame:
  "kv_good ok owner nrep s \<Longrightarrow> same_static s s' \<Longrightarrow> kv s' = kv s \<Longrightarrow> kv_good ok owner nrep s'"
  by (simp add: kv_good_def same_static_def)

text \<open>What work on one replica may touch: no other replica's token-generation queue.\<close>

definition frame :: "nat \<Rightarrow> ('m, 'l, 's, 'w) constructor \<Rightarrow> ('m, 'l, 's, 'w) constructor \<Rightarrow> bool" where
  "frame r s s' \<longleftrightarrow> same_static s s' \<and> (\<forall>k. k \<noteq> r \<longrightarrow> tg_reqs (replicas s' ! k) = tg_reqs (replicas s ! k))"

lemma frame_refl [simp]: "frame r s s"
  by (simp add: frame_def)

lemma frame_trans: "frame r a b \<Longrightarrow> frame r b c \<Longrightarrow> frame r a c"
  using same_static_trans by (fastforce simp: frame_def)

lemma frame_queues: "same_static s s' \<Longrightarrow> same_queues s s' \<Longrightarrow> frame r s s'"
  by (simp add: frame_def same_queues_def)

lemma frame_upd [simp]: "frame r s (upd_replica r f s)"
  by (cases "r < length (replicas s)") (simp_all add: frame_def replicas_upd_replica, simp add: upd_replica_def)

lemma frame_bound: "frame r s s' \<Longrightarrow> bound_requests s' = bound_requests s"
  by (simp add: frame_def same_static_def)

lemma frame_length: "frame r s s' \<Longrightarrow> length (replicas s') = length (replicas s)"
  by (simp add: frame_def same_static_def)

lemma frame_config: "frame r s s' \<Longrightarrow> scheduler_config s' = scheduler_config s"
  by (simp add: frame_def same_static_def)

lemma own_frame:
  assumes "own_inv ok owner nrep act s" and "same_static s s'" and "same_queues s s'"
    and "\<And>i. rid (store s' i) = i" and "kv s' = kv s"
  shows "own_inv ok owner nrep act s'"
  using assms places_frame [of act s s'] kv_good_frame [of ok owner nrep s s'] by (simp add: own_inv_def)

lemma own_put_ctx:
  assumes "own_inv ok owner nrep act s" and "rid c = i"
  shows "own_inv ok owner nrep act (put_ctx i c s)"
proof (rule own_frame [OF assms(1)])
  show "rid (store (put_ctx i c s) j) = j" for j
    using places_ids [OF own_places [OF assms(1)], of j] assms(2) by (simp add: put_ctx_def)
qed (simp_all add: put_ctx_def same_static_def same_queues_def)

lemma own_upd:
  assumes "kv_good ok owner nrep s" and "places_ok act (upd_replica r f s)"
  shows "own_inv ok owner nrep act (upd_replica r f s)"
  using assms kv_good_frame [of ok owner nrep s "upd_replica r f s"] by (simp add: own_inv_def)

lemma own_kv_good: "own_inv ok owner nrep act s \<Longrightarrow> kv_good ok owner nrep s"
  by (simp add: own_inv_def)

section \<open>Single operations\<close>

lemma reset_any_rid: "reset_any c = Inr c' \<Longrightarrow> rid c' = rid c"
  by (cases c) (auto simp: reset_def result_Inr text_context.truncate_def)

text \<open>Adding an adapter changes no queue.\<close>

lemma add_active_lora_own:
  assumes inv: "own_inv ok owner nrep act s" and r: "r < length (replicas s)" and run: "add_active_lora i r s = Inr s'"
  shows "own_inv ok owner nrep act s' \<and> frame r s s' \<and> tg_reqs (replicas s' ! r) = tg_reqs (replicas s ! r) \<and>
    ce_reqs (replicas s' ! r) = ce_reqs (replicas s ! r) \<and> store s' = store s"
proof (cases "lora s = None \<or> \<not> is_lora (ctx_of i s) (lora s)")
  case True
  then show ?thesis using inv run by (auto simp: add_active_lora_def split: option.splits)
next
  case False
  then obtain lm where s': "s' = upd_replica r (\<lambda>q. q\<lparr>active_loras := insert (model_name (ctx_of i s)) (active_loras q)\<rparr>)
                  (s\<lparr>lora := Some lm\<rparr>)"
    using run by (auto simp: add_active_lora_def bind_r_eq_Inr split: option.splits)
  let ?s = "s\<lparr>lora := Some lm\<rparr>"
  have i1: "own_inv ok owner nrep act ?s"
    by (rule own_frame [OF inv]) (simp_all add: places_ids [OF own_places [OF inv]])
  have "places_ok act s'"
    unfolding s' using r by (intro places_same [OF own_places [OF i1]]) (simp_all add: queue_ids_def)
  then have "own_inv ok owner nrep act s'" unfolding s' by (rule own_upd [OF own_kv_good [OF i1]])
  moreover have "frame r s s'" unfolding s' by (rule frame_trans [of r s ?s], simp add: frame_def, rule frame_upd)
  ultimately show ?thesis using r by (simp add: s' replicas_upd_replica)
qed

text \<open>A request that was popped and cannot get its adapter waits among the deferred ones.\<close>

lemma can_allocate_lora_own:
  assumes inv: "own_inv ok owner nrep act s" and r: "r < length (replicas s)" and i: "i \<in> act"
    and b: "map_of (bound_requests s) i = Some r" and run: "can_allocate_lora_request i r s = Inr (yes, s')"
  shows "(yes \<and> s' = s) \<or> (\<not> yes \<and> own_inv ok owner nrep (act - {i}) s' \<and> frame r s s' \<and>
    tg_reqs (replicas s' ! r) = tg_reqs (replicas s ! r) \<and> ce_reqs (replicas s' ! r) = ce_reqs (replicas s ! r))"
proof -
  let ?f = "\<lambda>q. q\<lparr>deferred_lora_requests := od_put i (deferred_lora_requests q)\<rparr>"
  have "i \<notin> set (queue_ids (replicas s ! r))" by (rule places_not_in_queue [OF own_places [OF inv] i r])
  then have m: "mset (queue_ids (?f (replicas s ! r))) = add_mset i (mset (queue_ids (replicas s ! r)))"
    by (simp add: queue_ids_def od_put_def)
  have p: "own_inv ok owner nrep (act - {i}) (upd_replica r ?f s)"
    by (rule own_upd [OF own_kv_good [OF inv]]) (rule places_give [where f = ?f, OF own_places [OF inv] r i b m])
  show ?thesis
    using run p r by (auto simp: can_allocate_lora_request_def result_Inr replicas_upd_replica split: if_splits)
qed

text \<open>A popped request whose KV data is being loaded is set aside.\<close>

lemma set_aside_own:
  assumes inv: "own_inv ok owner nrep act s" and i: "i \<in> act" and b: "map_of (bound_requests s) i = Some r"
    and o1: "on_replica o1 = r"
  shows "own_inv ok owner nrep (act - {i}) (s\<lparr>onloading_reqs := AList.update i o1 (onloading_reqs s)\<rparr>)"
proof -
  let ?s = "s\<lparr>onloading_reqs := AList.update i o1 (onloading_reqs s)\<rparr>"
  have p: "places_ok act s" by (rule own_places [OF inv])
  note D = p [unfolded places_ok_def]
  have "i \<notin> fst ` set (onloading_reqs s)" by (rule places_not_onloading [OF p i])
  then have app: "AList.update i o1 (onloading_reqs s) = onloading_reqs s @ [(i, o1)]"
    by (rule update_new_key)
  have ib: "i \<in> bound_ids s" using b by (auto simp: bound_ids_def)
  have q: "queued ?s = mset_set (bound_ids ?s - (act - {i}))"
    using mset_set_give [OF finite_bound ib i] places_queued [OF p] by (simp add: queued_def app bound_ids_def)
  have on: "\<forall>e \<in> set (onloading_reqs ?s). map_of (bound_requests ?s) (fst e) = Some (on_replica (snd e))"
    using places_onloading_bound [OF p] b o1 by (auto simp: app)
  have a: "act - {i} \<subseteq> bound_ids ?s" using places_act_bound [OF p] by (auto simp: bound_ids_def)
  have e: "bound_ids ?s = bound_ids s" "pooled_ids ?s = pooled_ids s" by (simp_all add: bound_ids_def pooled_ids_def)
  have f: "ctx_num_replicas ?s = ctx_num_replicas s" "replicas ?s = replicas s" "store ?s = store s" "gate ?s = gate s"
    "bound_requests ?s = bound_requests s" "ce_pending ?s = ce_pending s" "grammar_pending ?s = grammar_pending s"
    "has_padder ?s = has_padder s" "prev_dp_padding ?s = prev_dp_padding s" "current_dp_padding ?s = current_dp_padding s"
    by simp_all
  have "places_ok (act - {i}) ?s"
    unfolding places_ok_def f e using D q [unfolded e] on [unfolded f] a [unfolded e] by (elim conjE, intro conjI) assumption+
  then show ?thesis using own_kv_good [OF inv] by (simp add: own_inv_def kv_good_def)
qed

text \<open>The deferred requests go back to the front of the queue one by one, so in reverse order.\<close>

lemma update_deferred_reverses:
  assumes "distinct (queue_ids q)"
  shows "update_deferred_lora_requests q =
    q\<lparr>ce_reqs := rev (deferred_lora_requests q) @ ce_reqs q, deferred_lora_requests := []\<rparr>"
proof -
  have "foldl (\<lambda>q i. q\<lparr>ce_reqs := od_front i (ce_reqs q)\<rparr>) q ds = q\<lparr>ce_reqs := rev ds @ ce_reqs q\<rparr>"
    if "distinct ds" "set ds \<inter> set (ce_reqs q) = {}" for ds and q :: replica_requests
    using that by (induction ds arbitrary: q) (simp_all add: od_front_def)
  moreover have "distinct (deferred_lora_requests q)" "set (deferred_lora_requests q) \<inter> set (ce_reqs q) = {}"
    using assms by (auto simp: queue_ids_def)
  ultimately show ?thesis by (simp add: update_deferred_lora_requests_def)
qed

lemma update_deferred_own:
  assumes inv: "own_inv ok owner nrep act s" and r: "r < length (replicas s)"
  shows "own_inv ok owner nrep act (upd_replica r update_deferred_lora_requests s)"
    and "tg_reqs (replicas (upd_replica r update_deferred_lora_requests s) ! r) = tg_reqs (replicas s ! r)"
proof -
  note U = update_deferred_reverses [OF queue_distinct [OF own_places [OF inv] r]]
  have "places_ok act (upd_replica r update_deferred_lora_requests s)"
    by (rule places_same [OF own_places [OF inv] r]) (simp add: U queue_ids_def)
  then show "own_inv ok owner nrep act (upd_replica r update_deferred_lora_requests s)"
    by (rule own_upd [OF own_kv_good [OF inv]])
  show "tg_reqs (replicas (upd_replica r update_deferred_lora_requests s) ! r) = tg_reqs (replicas s ! r)"
    by (simp add: replicas_upd_replica [OF r] U)
qed

text \<open>The cases of \<open>construct_replica_batch\<close>: nothing, one phase, or one phase after the other.\<close>

lemma construct_replica_runs:
  assumes "construct_replica_batch E r p s = Inr (b', s')"
  obtains b where "batch b = []" and
    "b' = b \<and> s' = s \<or> add_ce_requests E b r s = Inr (b', s') \<or> add_tg_requests E b r s = Inr (b', s') \<or>
     (\<exists>b1 s1. add_ce_requests E b r s = Inr (b1, s1) \<and> batch b1 = [] \<and> add_tg_requests E b1 r s1 = Inr (b', s')) \<or>
     (\<exists>b1 s1. add_tg_requests E b r s = Inr (b1, s1) \<and> add_ce_requests E b1 r s1 = Inr (b', s'))"
proof -
  obtain cap prio where run: "(let b = \<lparr>batch = [], token_budget = new_token_budget cap E s\<rparr> in
      case prio of None \<Rightarrow> Inr (b, s)
     | Some q \<Rightarrow>
         if q = CE then
           bind_r (add_ce_requests E b r s) (\<lambda>(b, s). if batch b = [] \<and> p = None then add_tg_requests E b r s else Inr (b, s))
         else if q = TG then
           bind_r (add_tg_requests E b r s) (\<lambda>(b, s).
             if enable_in_flight_batching (scheduler_config s) \<and> batch b \<noteq> [] \<and> p = None
             then add_ce_requests E b r s else Inr (b, s))
         else Inr (b, s)) = Inr (b', s')"
    using assms unfolding construct_replica_batch_def Let_def by (auto simp: bind_r_eq_Inr)
  let ?b = "\<lparr>batch = [], token_budget = new_token_budget cap E s\<rparr>"
  show thesis
    by (rule that [of ?b]) (use run in \<open>auto simp: Let_def bind_r_eq_Inr split: option.splits if_splits\<close>)
qed

context kv_cache_contract
begin

abbreviation inv :: "request_id set \<Rightarrow> ('m, 'l, 's, 'w) constructor \<Rightarrow> bool" where
  "inv \<equiv> own_inv ok owner nrep"

lemma own_set_kv:
  assumes "inv act s" and "ok k" and "nrep k = nrep (kv s)"
    and "\<And>i r. owner k i = Some r \<Longrightarrow> map_of (bound_requests s) i = Some r"
  shows "inv act (s\<lparr>kv := k\<rparr>)"
  using assms places_frame [of act s "s\<lparr>kv := k\<rparr>"] places_ids [of act s]
  by (simp add: own_inv_def kv_good_def)

lemma release_if_claimed_own:
  assumes inv: "inv act s" and E: "env_kv E = K"
  shows "\<exists>k. release_if_claimed E i s = Inr (s\<lparr>kv := k\<rparr>) \<and> inv act (s\<lparr>kv := k\<rparr>) \<and> owner k = (owner (kv s))(i := None)"
proof -
  have g: "kv_good ok owner nrep s" by (rule own_kv_good [OF inv])
  have id: "rid (store s i) = i" by (rule places_ids [OF own_places [OF inv]])
  obtain k where k: "(if kv_contains K (store s i) (kv s) then kv_release K (store s i) (kv s) else Inr (kv s)) = Inr k"
      "ok k" "owner k = (owner (kv s))(i := None)" "nrep k = nrep (kv s)"
    using guarded_release [of "kv s" "store s i"] g id by (auto simp: kv_good_def)
  have "release_if_claimed E i s = Inr (s\<lparr>kv := k\<rparr>)"
    using k(1) by (auto simp: release_if_claimed_def E split: if_splits)
  moreover have "inv act (s\<lparr>kv := k\<rparr>)"
    using k g by (intro own_set_kv [OF inv]) (auto simp: kv_good_def split: if_splits)
  ultimately show ?thesis using k(3) by blast
qed

lemma claim_and_alloc_own:
  assumes inv: "inv act s" and E: "env_kv E = K" and b: "map_of (bound_requests s) i = Some r"
    and run: "claim_and_alloc E i r s = Inr (out, s')"
  shows "inv act s' \<and> same_static s s' \<and> same_queues s s' \<and> generated_len s' i = generated_len s i"
proof -
  have g: "kv_good ok owner nrep s" by (rule own_kv_good [OF inv])
  have id: "rid (store s i) = i" by (rule places_ids [OF own_places [OF inv]])
  have r: "r < nrep (kv s)" using places_bound_range [OF own_places [OF inv] b] g by (simp add: kv_good_def)
  obtain k where k: "(if \<not> kv_contains K (store s i) (kv s) then kv_claim K (store s i) r (kv s) else Inr (kv s)) = Inr k"
      "ok k" "nrep k = nrep (kv s)"
      "owner k = (owner (kv s))(i \<mapsto> (case owner (kv s) i of None \<Rightarrow> r | Some q \<Rightarrow> q))"
    using claim_if_needed [of "kv s" r "store s i"] g r id by (auto simp: kv_good_def)
  have s1: "(if \<not> kv_contains (env_kv E) (store s i) (kv s)
             then bind_r (kv_claim (env_kv E) (store s i) r (kv s)) (\<lambda>k. Inr (s\<lparr>kv := k\<rparr>))
             else Inr s) = Inr (s\<lparr>kv := k\<rparr>)"
    using k(1) by (auto simp: E split: if_splits)
  have "map_of (bound_requests s) j = Some q" if "owner k j = Some q" for j q
    using that k(4) g b by (auto simp: kv_good_def split: if_splits option.splits)
  then have i1: "inv act (s\<lparr>kv := k\<rparr>)" using k(2,3) by (intro own_set_kv [OF inv]) simp_all
  obtain c k2 where al: "kv_alloc K (store s i) k = Inr (out, c, k2)" and s': "s' = put_ctx i c (s\<lparr>kv := k2\<rparr>)"
    using run unfolding claim_and_alloc_def s1 by (auto simp: E bind_r_eq_Inr)
  have k2: "ok k2" "owner k2 = owner k" "nrep k2 = nrep k" "same_request (store s i) c"
    using alloc_keeps [OF k(2) al] by simp_all
  have "inv act (s\<lparr>kv := k2\<rparr>)"
    using own_set_kv [OF i1 k2(1)] k2 own_kv_good [OF i1] by (simp add: kv_good_def)
  then have "inv act s'" unfolding s' using k2(4) id by (intro own_put_ctx) (simp_all add: same_request_def)
  moreover have "same_static s s'" "same_queues s s'"
    unfolding s' by (simp_all add: same_static_def same_queues_def put_ctx_def)
  ultimately show ?thesis using k2(4) by (simp add: s' put_ctx_def same_request_def)
qed

text \<open>
  Back to the front of the context-encoding queue: of a popped request, and of one that is still in
  the token-generation queue. Either way the request holds no KV block afterwards.
\<close>

lemma return_runs:
  assumes inv: "inv act s" and E: "env_kv E = K" and run: "return_to_request_queue E i r s = Inr s'"
  obtains s1 where "inv act s1" and "same_static s s1" and "same_queues s s1" and "owner (kv s1) i = None"
    and "owner (kv s1) = (owner (kv s))(i := None)"
    and "s' = upd_replica r (\<lambda>q. q\<lparr>tg_reqs := od_del i (tg_reqs q), ce_reqs := od_front i (ce_reqs q)\<rparr>) s1"
    and "r < length (replicas s1)"
proof -
  obtain k where k: "release_if_claimed E i s = Inr (s\<lparr>kv := k\<rparr>)" "inv act (s\<lparr>kv := k\<rparr>)" "owner k = (owner (kv s))(i := None)"
    using release_if_claimed_own [OF inv E] by blast
  let ?p = "pipeline_release i (s\<lparr>kv := k\<rparr>)"
  obtain c where c: "reset_any (store s i) = Inr c"
    and s': "s' = upd_replica r (\<lambda>q. q\<lparr>tg_reqs := od_del i (tg_reqs q), ce_reqs := od_front i (ce_reqs q)\<rparr>) (put_ctx i c ?p)"
    and r: "r < length (replicas s)"
    using run k(1) by (auto simp: return_to_request_queue_def replica_at_def result_Inr Let_def pipeline_release_def put_ctx_def)
  have ip: "inv act ?p"
    by (rule own_frame [OF k(2)]) (simp_all add: pipeline_release_def same_static_def same_queues_def places_ids [OF own_places [OF inv]])
  have "rid c = i" using reset_any_rid [OF c] places_ids [OF own_places [OF inv]] by simp
  then have "inv act (put_ctx i c ?p)" by (rule own_put_ctx [OF ip])
  then show thesis
    using k(3) s' r by (intro that [of "put_ctx i c ?p"]) (simp_all add: put_ctx_def pipeline_release_def same_static_def same_queues_def)
qed

lemma return_popped:
  assumes inv: "inv act s" and E: "env_kv E = K" and b: "map_of (bound_requests s) i = Some r" and i: "i \<in> act"
    and run: "return_to_request_queue E i r s = Inr s'"
  shows "inv (act - {i}) s' \<and> frame r s s' \<and> tg_reqs (replicas s' ! r) = tg_reqs (replicas s ! r)"
proof -
  obtain s1 where i1: "inv act s1" and st: "same_static s s1" and q: "same_queues s s1"
    and s': "s' = upd_replica r (\<lambda>q. q\<lparr>tg_reqs := od_del i (tg_reqs q), ce_reqs := od_front i (ce_reqs q)\<rparr>) s1"
    and r: "r < length (replicas s1)"
    by (rule return_runs [OF inv E run])
  let ?f = "\<lambda>q. q\<lparr>tg_reqs := od_del i (tg_reqs q), ce_reqs := od_front i (ce_reqs q)\<rparr>"
  have nq: "i \<notin> set (queue_ids (replicas s1 ! r))" by (rule places_not_in_queue [OF own_places [OF i1] i r])
  then have m: "mset (queue_ids (?f (replicas s1 ! r))) = add_mset i (mset (queue_ids (replicas s1 ! r)))"
    by (simp add: queue_ids_def od_front_def)
  have b1: "map_of (bound_requests s1) i = Some r" using b st by (simp add: same_static_def)
  have "inv (act - {i}) s'"
    unfolding s' by (rule own_upd [OF own_kv_good [OF i1]]) (rule places_give [where f = ?f, OF own_places [OF i1] r i b1 m])
  moreover have "frame r s s'" unfolding s' by (rule frame_trans [OF frame_queues [OF st q]]) simp
  moreover have "tg_reqs (replicas s' ! r) = tg_reqs (replicas s ! r)"
    using nq q r by (simp add: s' replicas_upd_replica queue_ids_def same_queues_def)
  ultimately show ?thesis by blast
qed

lemma return_generating:
  assumes inv: "inv act s" and E: "env_kv E = K" and i: "i \<in> set (tg_reqs (replicas s ! r))"
    and run: "return_to_request_queue E i r s = Inr s'"
  shows "inv act s' \<and> frame r s s' \<and> tg_reqs (replicas s' ! r) = removeAll i (tg_reqs (replicas s ! r))"
proof -
  obtain s1 where i1: "inv act s1" and st: "same_static s s1" and q: "same_queues s s1"
    and s': "s' = upd_replica r (\<lambda>q. q\<lparr>tg_reqs := od_del i (tg_reqs q), ce_reqs := od_front i (ce_reqs q)\<rparr>) s1"
    and r: "r < length (replicas s1)"
    by (rule return_runs [OF inv E run])
  let ?f = "\<lambda>q. q\<lparr>tg_reqs := od_del i (tg_reqs q), ce_reqs := od_front i (ce_reqs q)\<rparr>"
  have d: "distinct (queue_ids (replicas s1 ! r))" by (rule queue_distinct [OF own_places [OF i1] r])
  have i': "i \<in> set (tg_reqs (replicas s1 ! r))" using i q by (simp add: same_queues_def)
  have "mset (tg_reqs (replicas s1 ! r)) = add_mset i (mset (removeAll i (tg_reqs (replicas s1 ! r))))"
    using i' d by (simp add: queue_ids_def distinct_remove1_removeAll [symmetric])
  moreover have "i \<notin> set (ce_reqs (replicas s1 ! r))" using i' d by (auto simp: queue_ids_def)
  ultimately have m: "mset (queue_ids (?f (replicas s1 ! r))) = mset (queue_ids (replicas s1 ! r))"
    by (simp add: queue_ids_def od_front_def)
  have "inv act s'"
    unfolding s' by (rule own_upd [OF own_kv_good [OF i1]]) (rule places_same [where f = ?f, OF own_places [OF i1] r m])
  moreover have "frame r s s'" unfolding s' by (rule frame_trans [OF frame_queues [OF st q]]) simp
  ultimately show ?thesis using q r by (simp add: s' replicas_upd_replica same_queues_def)
qed

lemma count_preemption:
  assumes "inv act s" and "frame r s0 s"
  shows "inv act (s\<lparr>total_preemption_count := n\<rparr>) \<and> frame r s0 (s\<lparr>total_preemption_count := n\<rparr>)"
proof
  show "inv act (s\<lparr>total_preemption_count := n\<rparr>)"
    by (rule own_frame [OF assms(1)]) (simp_all add: places_ids [OF own_places [OF assms(1)]])
  show "frame r s0 (s\<lparr>total_preemption_count := n\<rparr>)"
    by (rule frame_trans [OF assms(2)]) (simp add: frame_def)
qed

lemma preempt_popped:
  assumes "inv act s" and "env_kv E = K" and "map_of (bound_requests s) i = Some r" and "i \<in> act"
    and "preempt_request E i r s = Inr s'"
  shows "inv (act - {i}) s' \<and> frame r s s' \<and> tg_reqs (replicas s' ! r) = tg_reqs (replicas s ! r)"
proof -
  obtain s1 where s1: "return_to_request_queue E i r s = Inr s1"
    and s': "s' = s1\<lparr>total_preemption_count := total_preemption_count s1 + 1\<rparr>"
    using assms(5) by (auto simp: preempt_request_def bind_r_eq_Inr)
  note R = return_popped [OF assms(1-4) s1]
  show ?thesis
    using R count_preemption [OF R [THEN conjunct1] R [THEN conjunct2, THEN conjunct1], of "total_preemption_count s1 + 1"]
    by (simp add: s')
qed

lemma preempt_generating:
  assumes "inv act s" and "env_kv E = K" and "i \<in> set (tg_reqs (replicas s ! r))"
    and "preempt_request E i r s = Inr s'"
  shows "inv act s' \<and> frame r s s' \<and> tg_reqs (replicas s' ! r) = removeAll i (tg_reqs (replicas s ! r))"
proof -
  obtain s1 where s1: "return_to_request_queue E i r s = Inr s1"
    and s': "s' = s1\<lparr>total_preemption_count := total_preemption_count s1 + 1\<rparr>"
    using assms(4) by (auto simp: preempt_request_def bind_r_eq_Inr)
  note R = return_generating [OF assms(1-3) s1]
  show ?thesis
    using R count_preemption [OF R [THEN conjunct1] R [THEN conjunct2, THEN conjunct1], of "total_preemption_count s1 + 1"]
    by (simp add: s')
qed

lemma budget_status_own:
  assumes inv: "inv act s" and run: "budget_status_of rt i b s = Inr (out, s')"
  shows "inv act s' \<and> same_static s s' \<and> same_queues s s'"
proof -
  obtain t where s': "s' = put_ctx i (set_tokens t (store s i)) s"
    using run by (auto simp: budget_status_of_def bind_r_eq_Inr)
  show ?thesis
    unfolding s' using places_ids [OF own_places [OF inv]] by (simp add: own_put_ctx [OF inv])
qed

section \<open>Admitting context encoding\<close>

text \<open>
  What the loop does to the batch and to the state: the batch grows at its end by requests popped
  from the queue, which are the only new members of the active set.
\<close>

definition ce_progress ::
  "request_id set \<Rightarrow> nat \<Rightarrow> replica_batch \<Rightarrow> ('m, 'l, 's, 'w) constructor \<Rightarrow> replica_batch \<Rightarrow> ('m, 'l, 's, 'w) constructor \<Rightarrow> bool" where
  "ce_progress act r b s b' s' \<longleftrightarrow> (\<exists>new. batch b' = batch b @ new \<and> distinct new \<and> set new \<inter> act = {} \<and>
     inv (act \<union> set new) s' \<and> frame r s s' \<and> tg_reqs (replicas s' ! r) = tg_reqs (replicas s ! r) \<and>
     (\<forall>i \<in> set new. map_of (bound_requests s) i = Some r))"

lemma ce_progress_stop:
  "inv act s' \<Longrightarrow> frame r s s' \<Longrightarrow> tg_reqs (replicas s' ! r) = tg_reqs (replicas s ! r) \<Longrightarrow> ce_progress act r b s b s'"
  unfolding ce_progress_def by (intro exI [of _ "[]"]) simp

lemma ce_progress_skip:
  assumes "frame r s s1" and "tg_reqs (replicas s1 ! r) = tg_reqs (replicas s ! r)" and "ce_progress act r b s1 b' s'"
  shows "ce_progress act r b s b' s'"
  using assms frame_trans [OF assms(1)] frame_bound [OF assms(1)] unfolding ce_progress_def by (metis (no_types, lifting))

lemma ce_progress_add:
  assumes "frame r s s1" and "tg_reqs (replicas s1 ! r) = tg_reqs (replicas s ! r)" and "i \<notin> act"
    and "map_of (bound_requests s) i = Some r" and "batch b1 = batch b @ [i]"
    and "ce_progress (insert i act) r b1 s1 b' s'"
  shows "ce_progress act r b s b' s'"
proof -
  obtain new where new: "batch b' = batch b1 @ new" "distinct new" "set new \<inter> insert i act = {}"
      "inv (insert i act \<union> set new) s'" "frame r s1 s'" "tg_reqs (replicas s' ! r) = tg_reqs (replicas s1 ! r)"
      "\<forall>i \<in> set new. map_of (bound_requests s1) i = Some r"
    using assms(6) unfolding ce_progress_def by blast
  have "insert i act \<union> set new = act \<union> set (i # new)" by auto
  then show ?thesis
    unfolding ce_progress_def using assms new frame_trans [OF assms(1) new(5)] frame_bound [OF assms(1)]
    by (intro exI [of _ "i # new"]) auto
qed

text \<open>
  One iteration on a popped request: it joins the batch, or it is back in a queue or set aside. When
  the loop goes on, the rest of the queue is as it was.
\<close>

definition ce_step ::
  "request_id set \<Rightarrow> nat \<Rightarrow> request_id \<Rightarrow> replica_batch \<Rightarrow> ('m, 'l, 's, 'w) constructor \<Rightarrow>
   ce_exit option \<times> replica_batch \<times> ('m, 'l, 's, 'w) constructor \<Rightarrow> bool" where
  "ce_step act r i b s out = (case out of (ex, b', s') \<Rightarrow>
     (b' = b \<and> inv act s' \<or> batch b' = batch b @ [i] \<and> inv (insert i act) s') \<and>
     frame r s s' \<and> tg_reqs (replicas s' ! r) = tg_reqs (replicas s ! r) \<and>
     (ex = None \<longrightarrow> ce_reqs (replicas s' ! r) = ce_reqs (replicas s ! r)))"

lemma ce_step_queues:
  assumes "ce_step act r i b s1 out" and "frame r s s1" and "replicas s1 = replicas s"
  shows "ce_step act r i b s out"
  using assms frame_trans [OF assms(2)] by (auto simp: ce_step_def)

lemma ce_step_return:
  assumes inv: "inv (insert i act) s" and E: "env_kv E = K" and i: "i \<notin> act"
    and b: "map_of (bound_requests s) i = Some r" and run: "return_to_request_queue E i r s = Inr s'"
  shows "ce_step act r i b s (Some x, b, s')"
  using return_popped [OF inv E b insertI1 run] i by (simp add: ce_step_def)

lemma ce_step_add:
  assumes inv: "inv (insert i act) s" and r: "r < length (replicas s)" and nb: "i \<notin> set (batch b)"
    and l: "add_active_lora i r s = Inr s'" and a: "add_to_batch CE i b x = Inr b'"
  shows "ce_step act r i b s (ex, b', s')"
proof -
  have "batch b' = batch b @ [i]" using a nb by (auto simp: add_to_batch_def bind_r_eq_Inr od_put_def)
  then show ?thesis using add_active_lora_own [OF inv r l] by (simp add: ce_step_def)
qed

lemma fit_ce_budget_own:
  assumes inv: "inv (insert i act) s" and E: "env_kv E = K" and r: "r < length (replicas s)" and i: "i \<notin> act"
    and b: "map_of (bound_requests s) i = Some r" and nb: "i \<notin> set (batch b)" and run: "fit_ce_budget E r i b s = Inr out"
  shows "ce_step act r i b s out"
proof -
  obtain st s1 where bs: "budget_status_of CE i b s = Inr (st, s1)"
    using run by (auto simp: fit_ce_budget_def bind_r_eq_Inr)
  have B: "inv (insert i act) s1" "frame r s s1" "replicas s1 = replicas s"
    using budget_status_own [OF inv bs] frame_queues [of s s1 r] by (simp_all add: same_queues_def)
  have b1: "map_of (bound_requests s1) i = Some r" using frame_bound [OF B(2)] b by simp
  have r1: "r < length (replicas s1)" using B(3) r by simp
  have "ce_step act r i b s1 out"
  proof (cases st)
    case BUDGET_EXHAUSTED
    then show ?thesis using run ce_step_return [OF B(1) E i b1]
      by (auto simp: fit_ce_budget_def bs bind_r_eq_Inr)
  next
    case BUDGET_REACHED
    then show ?thesis using run ce_step_add [OF B(1) r1 nb]
      by (auto simp: fit_ce_budget_def bs bind_r_eq_Inr)
  next
    case BUDGET_AVAILABLE
    then show ?thesis using run ce_step_add [OF B(1) r1 nb]
      by (auto simp: fit_ce_budget_def bs bind_r_eq_Inr)
  qed
  then show ?thesis by (rule ce_step_queues [OF _ B(2,3)])
qed

lemma place_ce_request_own:
  assumes inv: "inv (insert i act) s" and E: "env_kv E = K" and r: "r < length (replicas s)" and i: "i \<notin> act"
    and b: "map_of (bound_requests s) i = Some r" and nb: "i \<notin> set (batch b)" and run: "place_ce_request E r i b s = Inr out"
  shows "ce_step act r i b s out"
proof -
  obtain al s1 where al: "claim_and_alloc E i r s = Inr (al, s1)"
    using run by (auto simp: place_ce_request_def bind_r_eq_Inr)
  have A: "inv (insert i act) s1" "frame r s s1" "replicas s1 = replicas s"
    using claim_and_alloc_own [OF inv E b al] frame_queues [of s s1 r] by (simp_all add: same_queues_def)
  have b1: "map_of (bound_requests s1) i = Some r" using frame_bound [OF A(2)] b by simp
  have r1: "r < length (replicas s1)" using A(3) r by simp
  have "ce_step act r i b s1 out"
  proof (cases al)
    case OutOfBlocks
    then show ?thesis using run ce_step_return [OF A(1) E i b1]
      by (auto simp: place_ce_request_def al bind_r_eq_Inr split: if_splits)
  next
    case (Allocated event)
    let ?o = "\<lparr>on_replica = r, on_event = event\<rparr>"
    let ?s = "s1\<lparr>onloading_reqs := AList.update i ?o (onloading_reqs s1)\<rparr>"
    have "inv act ?s" using set_aside_own [OF A(1) insertI1 b1, of ?o] i by simp
    then have "ce_step act r i b s1 (None, b, ?s)" by (simp add: ce_step_def frame_def)
    then show ?thesis
      using run fit_ce_budget_own [OF A(1) E r1 i b1 nb] Allocated
      by (auto simp: place_ce_request_def al split: if_splits)
  qed
  then show ?thesis by (rule ce_step_queues [OF _ A(2,3)])
qed

lemma try_ce_request_own:
  assumes inv: "inv (insert i act) s" and E: "env_kv E = K" and r: "r < length (replicas s)" and i: "i \<notin> act"
    and b: "map_of (bound_requests s) i = Some r" and nb: "i \<notin> set (batch b)" and run: "try_ce_request E r i b s = Inr out"
  shows "ce_step act r i b s out"
proof -
  obtain yes s0 where c0: "can_allocate_lora_request i r s = Inr (yes, s0)"
    using run by (auto simp: try_ce_request_def bind_r_eq_Inr)
  note L = can_allocate_lora_own [OF inv r insertI1 b c0]
  show ?thesis
  proof (cases yes)
    case False
    then show ?thesis using L run c0 i by (auto simp: try_ce_request_def ce_step_def)
  next
    case True
    with L have "s0 = s" by simp
    with run True obtain rem where "collection_remaining (token_budget b) = Inr rem"
        "(if rem \<le> 0 then bind_r (return_to_request_queue E i r s) (\<lambda>s. Inr (Some Returned, b, s))
          else place_ce_request E r i b s) = Inr out"
      by (auto simp: try_ce_request_def c0 bind_r_eq_Inr)
    then show ?thesis
      using place_ce_request_own [OF assms(1-6)] ce_step_return [OF inv E i b]
      by (auto simp: bind_r_eq_Inr split: if_splits)
  qed
qed

text \<open>Popping the front of the queue.\<close>

lemma pop_ce_own:
  assumes inv: "inv act s" and r: "r < length (replicas s)" and q: "ce_reqs (replicas s ! r) = i # queue"
  shows "inv (insert i act) (upd_replica r (\<lambda>q. q\<lparr>ce_reqs := queue\<rparr>) s)" and "i \<notin> act"
    and "map_of (bound_requests s) i = Some r" and "i \<notin> set (tg_reqs (replicas s ! r))"
proof -
  let ?f = "\<lambda>q. q\<lparr>ce_reqs := queue\<rparr>"
  have m: "mset (queue_ids (replicas s ! r)) = add_mset i (mset (queue_ids (?f (replicas s ! r))))"
    by (simp add: queue_ids_def q)
  have i: "i \<in> set (queue_ids (replicas s ! r))" by (simp add: queue_ids_def q)
  note T = places_take [where f = ?f, OF own_places [OF inv] r i m]
  show "inv (insert i act) (upd_replica r ?f s)" by (rule own_upd [OF own_kv_good [OF inv] T(1)])
  show "i \<notin> act" by (rule T(2))
  show "map_of (bound_requests s) i = Some r" by (rule places_queue_bound [OF own_places [OF inv] r i])
  show "i \<notin> set (tg_reqs (replicas s ! r))"
    using queue_distinct [OF own_places [OF inv] r] by (auto simp: queue_ids_def q)
qed

lemma add_ce_loop_own:
  assumes E: "env_kv E = K"
  shows "inv act s \<Longrightarrow> r < length (replicas s) \<Longrightarrow> ce_reqs (replicas s ! r) = queue \<Longrightarrow>
    set (batch b) \<subseteq> act \<union> set (tg_reqs (replicas s ! r)) \<Longrightarrow>
    add_ce_loop E r start queue b s = Inr (x, b', s') \<Longrightarrow> ce_progress act r b s b' s'"
proof (induction queue arbitrary: act b s)
  case Nil
  then show ?case by (simp add: ce_progress_stop)
next
  case (Cons i queue)
  let ?s = "upd_replica r (\<lambda>q. q\<lparr>ce_reqs := queue\<rparr>) s"
  let ?full = "\<not> (int (length (batch b)) < max_batch_size (scheduler_config s) \<and>
    int (length (batch b)) + int (length (tg_reqs (replicas s ! r))) - start < max_batch_size (scheduler_config s))"
  note P = pop_ce_own [OF Cons.prems(1-3)]
  show ?case
  proof (cases ?full)
    case True
    then show ?thesis using Cons.prems by (auto simp: ce_progress_stop)
  next
    case False
    with Cons.prems(5) obtain ex b1 s1 where t: "try_ce_request E r i b ?s = Inr (ex, b1, s1)"
      and rest: "(case ex of None \<Rightarrow> add_ce_loop E r start queue b1 s1 | Some x \<Rightarrow> Inr (x, b1, s1)) = Inr (x, b', s')"
      by (auto simp: bind_r_eq_Inr)
    have st: "ce_step act r i b ?s (ex, b1, s1)"
      using P Cons.prems(2,4) by (intro try_ce_request_own [OF P(1) E _ P(2) _ _ t]) auto
    have f: "frame r s s1" using st frame_trans [OF frame_upd] by (auto simp: ce_step_def)
    have tg: "tg_reqs (replicas s1 ! r) = tg_reqs (replicas s ! r)"
      using st Cons.prems(2) by (auto simp: ce_step_def replicas_upd_replica)
    have q: "ex = None \<Longrightarrow> ce_reqs (replicas s1 ! r) = queue"
      using st Cons.prems(2) by (auto simp: ce_step_def replicas_upd_replica)
    have l: "r < length (replicas s1)" using frame_length [OF f] Cons.prems(2) by simp
    from st consider "b1 = b" "inv act s1" | "batch b1 = batch b @ [i]" "inv (insert i act) s1"
      by (auto simp: ce_step_def)
    then show ?thesis
    proof cases
      case 1
      have "ce_progress act r b s1 b' s'"
        using rest 1 ce_progress_stop [OF 1(2) frame_refl] Cons.IH [OF 1(2) l q] Cons.prems(4) tg
        by (auto split: option.splits)
      then show ?thesis by (rule ce_progress_skip [OF f tg])
    next
      case 2
      have sub: "set (batch b1) \<subseteq> insert i act \<union> set (tg_reqs (replicas s1 ! r))" using 2(1) Cons.prems(4) tg by auto
      have "ce_progress (insert i act) r b1 s1 b' s'"
        using rest 2 ce_progress_stop [OF 2(2) frame_refl] Cons.IH [OF 2(2) l q sub]
        by (auto split: option.splits)
      then show ?thesis by (rule ce_progress_add [OF f tg P(2,3) 2(1)])
    qed
  qed
qed

lemma add_ce_requests_own:
  assumes inv: "inv act s" and E: "env_kv E = K" and r: "r < length (replicas s)"
    and sub: "set (batch b) \<subseteq> act \<union> set (tg_reqs (replicas s ! r))"
    and run: "add_ce_requests E b r s = Inr (b', s')"
  shows "ce_progress act r b s b' s'"
proof (cases "r \<in> set (ce_deferred_replicas s)")
  case True
  then show ?thesis using inv run by (simp add: add_ce_requests_def ce_progress_stop)
next
  case False
  then obtain x s1 where l: "add_ce_loop E r (int (length (batch b))) (ce_reqs (replicas s ! r)) b s = Inr (x, b', s1)"
    and s': "s' = (case x of Returned \<Rightarrow> s1 | Finished \<Rightarrow> upd_replica r update_deferred_lora_requests s1)"
    using run r by (auto simp: add_ce_requests_def replica_at_def bind_r_eq_Inr)
  have p: "ce_progress act r b s b' s1" by (rule add_ce_loop_own [OF E inv r refl sub l])
  then obtain new where n: "batch b' = batch b @ new" "distinct new" "set new \<inter> act = {}" "inv (act \<union> set new) s1"
      "frame r s s1" "tg_reqs (replicas s1 ! r) = tg_reqs (replicas s ! r)"
      "\<forall>i \<in> set new. map_of (bound_requests s) i = Some r"
    unfolding ce_progress_def by blast
  have "r < length (replicas s1)" using frame_length [OF n(5)] r by simp
  note U = update_deferred_own [OF n(4) this]
  show ?thesis
  proof (cases x)
    case Returned
    then show ?thesis using p s' by simp
  next
    case Finished
    then show ?thesis
      unfolding ce_progress_def s' using n U frame_trans [OF n(5) frame_upd] by (intro exI [of _ new]) simp
  qed
qed

section \<open>Admitting token generation\<close>

text \<open>The candidate that is preempted is first popped from the token-generation queue.\<close>

lemma preempt_candidate_own:
  assumes inv: "inv act s" and E: "env_kv E = K" and r: "r < length (replicas s)"
    and j: "j \<in> set (tg_reqs (replicas s ! r))"
    and run: "preempt_request E j r (upd_replica r (\<lambda>q. q\<lparr>tg_reqs := od_del j (tg_reqs q)\<rparr>) s) = Inr s'"
  shows "inv act s' \<and> frame r s s' \<and> tg_reqs (replicas s' ! r) = removeAll j (tg_reqs (replicas s ! r))"
proof -
  let ?f = "\<lambda>q. q\<lparr>tg_reqs := od_del j (tg_reqs q)\<rparr>"
  have d: "distinct (queue_ids (replicas s ! r))" by (rule queue_distinct [OF own_places [OF inv] r])
  have "mset (tg_reqs (replicas s ! r)) = add_mset j (mset (removeAll j (tg_reqs (replicas s ! r))))"
    using j d by (simp add: queue_ids_def distinct_remove1_removeAll [symmetric])
  then have m: "mset (queue_ids (replicas s ! r)) = add_mset j (mset (queue_ids (?f (replicas s ! r))))"
    by (simp add: queue_ids_def)
  have jq: "j \<in> set (queue_ids (replicas s ! r))" using j by (simp add: queue_ids_def)
  note T = places_take [where f = ?f, OF own_places [OF inv] r jq m]
  have i1: "inv (insert j act) (upd_replica r ?f s)" by (rule own_upd [OF own_kv_good [OF inv] T(1)])
  have "map_of (bound_requests (upd_replica r ?f s)) j = Some r"
    using places_queue_bound [OF own_places [OF inv] r jq] by simp
  from preempt_popped [OF i1 E this insertI1 run] T(2) show ?thesis
    using frame_trans [OF frame_upd] r by (auto simp: replicas_upd_replica)
qed

lemma alloc_own:
  assumes inv: "inv act s" and E: "env_kv E = K" and al: "kv_alloc (env_kv E) (store s i) (kv s) = Inr (out, c, k)"
  shows "inv act (put_ctx i c (s\<lparr>kv := k\<rparr>)) \<and> frame r s (put_ctx i c (s\<lparr>kv := k\<rparr>)) \<and>
    replicas (put_ctx i c (s\<lparr>kv := k\<rparr>)) = replicas s"
proof -
  have g: "kv_good ok owner nrep s" by (rule own_kv_good [OF inv])
  have A: "ok k" "owner k = owner (kv s)" "nrep k = nrep (kv s)" "same_request (store s i) c"
    using alloc_keeps [of "kv s" "store s i" out c k] al E g by (simp_all add: kv_good_def)
  have "inv act (s\<lparr>kv := k\<rparr>)" using own_set_kv [OF inv A(1)] A g by (simp add: kv_good_def)
  then have "inv act (put_ctx i c (s\<lparr>kv := k\<rparr>))"
    using A(4) places_ids [OF own_places [OF inv]] by (intro own_put_ctx) (simp_all add: same_request_def)
  then show ?thesis by (simp add: frame_def same_static_def put_ctx_def)
qed

text \<open>
  Preemption takes the newest candidates one by one: with \<open>n\<close> of them preempted, exactly those are
  gone from the queue.
\<close>

lemma alloc_or_preempt_own:
  assumes E: "env_kv E = K"
  shows "inv act s \<Longrightarrow> r < length (replicas s) \<Longrightarrow> distinct newest \<Longrightarrow> set newest \<subseteq> set (tg_reqs (replicas s ! r)) \<Longrightarrow>
    alloc_or_preempt E i r be newest s = Inr (n, s') \<Longrightarrow>
    inv act s' \<and> frame r s s' \<and> (\<exists>k \<le> length newest. (n = None \<or> n = Some k) \<and>
      set (tg_reqs (replicas s' ! r)) = set (tg_reqs (replicas s ! r)) - set (take k newest))"
proof (induction newest arbitrary: s n)
  case Nil
  then obtain out c k where al: "kv_alloc (env_kv E) (store s i) (kv s) = Inr (out, c, k)"
    by (auto simp: alloc_or_preempt.simps [of E i r be "[]"] bind_r_eq_Inr)
  have s': "s' = put_ctx i c (s\<lparr>kv := k\<rparr>) \<and> (n = None \<or> n = Some 0)"
    using Nil.prems(5) by (auto simp: alloc_or_preempt.simps [of E i r be "[]"] al Let_def bind_r_eq_Inr
        split: alloc_outcome.splits if_splits)
  then show ?case using alloc_own [OF Nil.prems(1) E al, of r] by simp
next
  case (Cons j older)
  note eq = alloc_or_preempt.simps [of E i r be "j # older"]
  obtain out c k where al: "kv_alloc (env_kv E) (store s i) (kv s) = Inr (out, c, k)"
    using Cons.prems(5) by (auto simp: eq bind_r_eq_Inr)
  let ?s1 = "put_ctx i c (s\<lparr>kv := k\<rparr>)"
  have A: "inv act ?s1" "frame r s ?s1" "replicas ?s1 = replicas s" using alloc_own [OF Cons.prems(1) E al] by blast+
  show ?case
  proof (cases out)
    case (Allocated ev)
    then have "s' = ?s1 \<and> n = Some 0" using Cons.prems(5) by (simp add: eq al Let_def)
    then show ?thesis using A by (intro conjI exI [of _ 0]) simp_all
  next
    case OutOfBlocks
    then obtain s2 m where p: "preempt_request E j r (upd_replica r (\<lambda>q. q\<lparr>tg_reqs := od_del j (tg_reqs q)\<rparr>) ?s1) = Inr s2"
      and rest: "alloc_or_preempt E i r be older s2 = Inr (m, s')" and n: "n = map_option Suc m"
      using Cons.prems(5) by (auto simp: eq al Let_def bind_r_eq_Inr)
    have "j \<in> set (tg_reqs (replicas ?s1 ! r))" "r < length (replicas ?s1)" using Cons.prems(2,4) A(3) by auto
    note P = preempt_candidate_own [OF A(1) E this(2,1) p]
    have tg2: "set (tg_reqs (replicas s2 ! r)) = set (tg_reqs (replicas s ! r)) - {j}" using P A(3) by simp
    have f2: "frame r s s2" using P frame_trans [OF A(2)] by blast
    have "inv act s2" "r < length (replicas s2)" "distinct older" "set older \<subseteq> set (tg_reqs (replicas s2 ! r))"
      using P Cons.prems(2,3,4) frame_length [OF f2] tg2 by auto
    from Cons.IH [OF this rest] obtain k where k: "k \<le> length older" "m = None \<or> m = Some k" "inv act s'" "frame r s2 s'"
        "set (tg_reqs (replicas s' ! r)) = set (tg_reqs (replicas s2 ! r)) - set (take k older)"
      by blast
    show ?thesis using k n tg2 frame_trans [OF f2 k(4)] by (intro conjI exI [of _ "Suc k"]) auto
  qed
qed

text \<open>The candidates left after preempting \<open>n\<close> of the newest are the oldest ones.\<close>

lemma surviving_candidates:
  assumes "distinct xs" and "k \<le> length xs" and "set xs \<subseteq> T"
  shows "set (take (length xs - k) xs) \<subseteq> T - set (take k (rev xs))"
proof -
  have "set (take (length xs - k) xs) \<inter> set (drop (length xs - k) xs) = {}"
    using assms(1) by (intro set_take_disj_set_drop_if_distinct) simp_all
  moreover have "take k (rev xs) = rev (drop (length xs - k) xs)" by (simp add: take_rev)
  ultimately show ?thesis using assms(3) set_take_subset [of "length xs - k" xs] by auto
qed

definition tg_progress ::
  "request_id set \<Rightarrow> nat \<Rightarrow> ('m, 'l, 's, 'w) constructor \<Rightarrow> replica_batch \<Rightarrow> ('m, 'l, 's, 'w) constructor \<Rightarrow> bool" where
  "tg_progress act r s b' s' \<longleftrightarrow> inv act s' \<and> frame r s s' \<and> distinct (batch b') \<and>
     set (batch b') \<subseteq> set (tg_reqs (replicas s' ! r))"

lemma tg_progress_trans: "frame r s s1 \<Longrightarrow> tg_progress act r s1 b' s' \<Longrightarrow> tg_progress act r s b' s'"
  using frame_trans by (auto simp: tg_progress_def)

text \<open>
  One iteration: the batch stays or grows by the candidate, it stays within the token-generation
  queue, and so do the candidates that are left.
\<close>

lemma try_tg_request_own:
  assumes E: "env_kv E = K" and inv: "inv act s" and r: "r < length (replicas s)"
    and d: "distinct (batch b @ i # rest)" and sub: "set (batch b @ i # rest) \<subseteq> set (tg_reqs (replicas s ! r))"
    and run: "try_tg_request E r i rest b s = Inr (go_on, b1, s1)"
  shows "inv act s1 \<and> frame r s s1 \<and> (batch b1 = batch b \<or> batch b1 = batch b @ [i]) \<and>
    set (batch b1) \<subseteq> set (tg_reqs (replicas s1 ! r)) \<and>
    (\<forall>n. go_on = Some n \<longrightarrow> set (take (length rest - n) rest) \<subseteq> set (tg_reqs (replicas s1 ! r)))"
proof (cases "is_lora (ctx_of i s) (lora s) \<and> \<not> is_active_lora (ctx_of i s) (lora s)")
  case True
  with run sub have p: "preempt_request E i r s = Inr s1" and o: "go_on = Some 0" "b1 = b"
    by (auto simp: try_tg_request_def bind_r_eq_Inr)
  have "i \<in> set (tg_reqs (replicas s ! r))" using sub by simp
  note P = preempt_generating [OF inv E this p]
  have "set (batch b) \<subseteq> set (tg_reqs (replicas s1 ! r)) \<and> set rest \<subseteq> set (tg_reqs (replicas s1 ! r))"
    using P d sub by auto
  then show ?thesis using P o by simp
next
  case False
  with run sub obtain st s0 where bs: "budget_status_of TG i b s = Inr (st, s0)"
    by (auto simp: try_tg_request_def bind_r_eq_Inr)
  have B: "inv act s0" "frame r s s0" "replicas s0 = replicas s"
    using budget_status_own [OF inv bs] frame_queues [of s s0 r] by (simp_all add: same_queues_def)
  show ?thesis
  proof (cases "st = BUDGET_EXHAUSTED")
    case True
    then have "b1 = b \<and> s1 = s0 \<and> go_on = None" using False run sub bs by (auto simp: try_tg_request_def)
    then show ?thesis using B sub by simp
  next
    case go: False
    with False run sub bs obtain n s2 where al2: "alloc_or_preempt E i r (batch b = []) (rev rest) s0 = Inr (n, s2)"
      and after: "(case n of None \<Rightarrow> Inr (None, b, s2) | Some n \<Rightarrow> bind_r (add_to_batch TG i b s2) (\<lambda>b.
              Inr (if st = BUDGET_REACHED then None else Some n, b, s2))) = Inr (go_on, b1, s1)"
      by (auto simp: try_tg_request_def bind_r_eq_Inr)
    have s2: "s2 = s1" using after by (auto simp: bind_r_eq_Inr split: option.splits)
    note al = al2 [unfolded s2]
    have o: "n = None \<and> go_on = None \<and> b1 = b \<or>
        (\<exists>k. n = Some k \<and> (go_on = None \<or> go_on = Some k) \<and> add_to_batch TG i b s1 = Inr b1)"
      using after s2 by (cases n) (auto simp: bind_r_eq_Inr split: if_splits)
    have pre: "r < length (replicas s0)" "distinct (rev rest)" "set (rev rest) \<subseteq> set (tg_reqs (replicas s0 ! r))"
      using r d sub B(3) by simp_all
    obtain k where k: "k \<le> length rest" "n = None \<or> n = Some k" "inv act s1" "frame r s0 s1"
        "set (tg_reqs (replicas s1 ! r)) = set (tg_reqs (replicas s ! r)) - set (take k (rev rest))"
      using alloc_or_preempt_own [OF E B(1) pre al] B(3) by auto
    have gone: "set (take k (rev rest)) \<subseteq> set rest" using set_take_subset [of k "rev rest"] by simp
    then have keep: "set (batch b) \<subseteq> set (tg_reqs (replicas s1 ! r))" "i \<in> set (tg_reqs (replicas s1 ! r))"
      using d sub k(5) by auto
    have left: "set (take (length rest - k) rest) \<subseteq> set (tg_reqs (replicas s1 ! r))"
      using surviving_candidates [of rest k "set (tg_reqs (replicas s ! r))"] d sub k(1,5) by simp
    have "batch b1 = batch b \<or> batch b1 = batch b @ [i]"
      using o d by (auto simp: add_to_batch_def bind_r_eq_Inr od_put_def)
    moreover have "set (batch b1) \<subseteq> set (tg_reqs (replicas s1 ! r))" using calculation keep by auto
    ultimately show ?thesis using k(2,3) o left frame_trans [OF B(2) k(4)] by blast
  qed
qed

lemma add_tg_loop_own:
  assumes E: "env_kv E = K"
  shows "inv act s \<Longrightarrow> r < length (replicas s) \<Longrightarrow> distinct (batch b @ cands) \<Longrightarrow>
    set (batch b @ cands) \<subseteq> set (tg_reqs (replicas s ! r)) \<Longrightarrow>
    add_tg_loop E r cands b s = Inr (b', s') \<Longrightarrow> tg_progress act r s b' s'"
proof (induction "length cands" arbitrary: cands b s rule: less_induct)
  case less
  show ?case
  proof (cases "cands = [] \<or> \<not> int (length (batch b)) < max_batch_size (scheduler_config s)")
    case True
    then have "b' = b \<and> s' = s" using less.prems(5) by (cases cands) auto
    then show ?thesis using less.prems by (simp add: tg_progress_def)
  next
    case False
    then obtain i rest where c: "cands = i # rest" by (cases cands) auto
    note H = less.prems [unfolded c]
    obtain go_on b1 s1 where t: "try_tg_request E r i rest b s = Inr (go_on, b1, s1)"
      and go: "(case go_on of None \<Rightarrow> Inr (b1, s1) | Some n \<Rightarrow> add_tg_loop E r (take (length rest - n) rest) b1 s1) = Inr (b', s')"
      using False H(5) by (auto simp: c bind_r_eq_Inr)
    have R: "inv act s1" "frame r s s1" "batch b1 = batch b \<or> batch b1 = batch b @ [i]"
        "set (batch b1) \<subseteq> set (tg_reqs (replicas s1 ! r))"
        "\<forall>n. go_on = Some n \<longrightarrow> set (take (length rest - n) rest) \<subseteq> set (tg_reqs (replicas s1 ! r))"
      using try_tg_request_own [OF E H(1-4) t] by blast+
    have d: "distinct (batch b1 @ take n rest)" for n
      using R(3) H(3) set_take_subset [of n rest] by (elim disjE) auto
    have l1: "r < length (replicas s1)" using frame_length [OF R(2)] H(2) by simp
    have "tg_progress act r s1 b' s'"
    proof (cases go_on)
      case None
      then have "b' = b1 \<and> s' = s1" using go by simp
      then show ?thesis using R(1,4) d [of 0] by (simp add: tg_progress_def)
    next
      case (Some n)
      then have l: "add_tg_loop E r (take (length rest - n) rest) b1 s1 = Inr (b', s')" using go by simp
      show ?thesis using less.hyps [OF _ R(1) l1 d _ l] R(4,5) Some by (simp add: c)
    qed
    then show ?thesis by (rule tg_progress_trans [OF R(2)])
  qed
qed

section \<open>The batch of one replica\<close>

text \<open>
  Every request of the batch is bound to the replica, occurs once, and is either active or still in
  the token-generation queue; the active set grows only by requests of the batch.
\<close>

definition batch_progress ::
  "request_id set \<Rightarrow> request_id set \<Rightarrow> nat \<Rightarrow> ('m, 'l, 's, 'w) constructor \<Rightarrow> request_id list \<Rightarrow> ('m, 'l, 's, 'w) constructor \<Rightarrow> bool" where
  "batch_progress act act' r s ids s' \<longleftrightarrow> inv act' s' \<and> frame r s s' \<and> act \<subseteq> act' \<and> act' \<subseteq> act \<union> set ids \<and> distinct ids \<and>
     set ids \<subseteq> (act' - act) \<union> set (tg_reqs (replicas s' ! r)) \<and> (\<forall>i \<in> set ids. map_of (bound_requests s') i = Some r)"

lemma tg_progress_batch:
  assumes t: "tg_progress act r s b s'" and r: "r < length (replicas s)"
  shows "batch_progress act act r s (batch b) s'"
proof -
  have inv: "inv act s'" and f: "frame r s s'" and sub: "set (batch b) \<subseteq> set (tg_reqs (replicas s' ! r))"
    using t by (simp_all add: tg_progress_def)
  have "map_of (bound_requests s') i = Some r" if "i \<in> set (batch b)" for i
    using places_queue_bound [OF own_places [OF inv], of r i] that sub frame_length [OF f] r by (auto simp: queue_ids_def)
  then show ?thesis using t by (auto simp: tg_progress_def batch_progress_def)
qed

lemma ce_progress_batch:
  assumes c: "ce_progress act r b s b' s'" and r: "r < length (replicas s)"
    and d: "distinct (batch b)" and sub: "set (batch b) \<subseteq> set (tg_reqs (replicas s ! r))" and inv: "inv act s"
  shows "\<exists>act'. batch_progress act act' r s (batch b') s'"
proof -
  obtain new where n: "batch b' = batch b @ new" "distinct new" "set new \<inter> act = {}" "inv (act \<union> set new) s'"
      "frame r s s'" "tg_reqs (replicas s' ! r) = tg_reqs (replicas s ! r)"
      "\<forall>i \<in> set new. map_of (bound_requests s) i = Some r"
    using c unfolding ce_progress_def by blast
  have r': "r < length (replicas s')" using frame_length [OF n(5)] r by simp
  have tg: "set (tg_reqs (replicas s' ! r)) \<subseteq> set (queue_ids (replicas s' ! r))" by (auto simp: queue_ids_def)
  have "set new \<inter> set (queue_ids (replicas s' ! r)) = {}"
    using places_not_in_queue [OF own_places [OF n(4)] _ r'] by blast
  then have disj: "set (batch b) \<inter> set new = {}" using sub n(6) tg by auto
  have "map_of (bound_requests s') i = Some r" if "i \<in> set (batch b)" for i
    using places_queue_bound [OF own_places [OF n(4)] r', of i] that sub n(6) tg by auto
  then have "batch_progress act (act \<union> set new) r s (batch b') s'"
    using n d sub disj frame_bound [OF n(5)] by (auto simp: batch_progress_def)
  then show ?thesis by blast
qed

lemma add_tg_requests_own:
  assumes inv: "inv act s" and E: "env_kv E = K" and r: "r < length (replicas s)" and b: "batch b = []"
    and run: "add_tg_requests E b r s = Inr (b', s')"
  shows "tg_progress act r s b' s'"
proof -
  have l: "add_tg_loop E r (tg_reqs (replicas s ! r)) b s = Inr (b', s')"
    using run r by (simp add: add_tg_requests_def replica_at_def)
  have "distinct (tg_reqs (replicas s ! r))" using queue_distinct [OF own_places [OF inv] r] by (simp add: queue_ids_def)
  then show ?thesis using add_tg_loop_own [OF E inv r _ _ l] b by simp
qed

lemma construct_replica_own:
  assumes inv: "inv act s" and E: "env_kv E = K" and r: "r < length (replicas s)"
    and run: "construct_replica_batch E r p s = Inr (b', s')"
  shows "\<exists>act'. batch_progress act act' r s (batch b') s'"
proof -
  obtain b where b: "batch b = []" and cases: "b' = b \<and> s' = s \<or> add_ce_requests E b r s = Inr (b', s') \<or>
     add_tg_requests E b r s = Inr (b', s') \<or>
     (\<exists>b1 s1. add_ce_requests E b r s = Inr (b1, s1) \<and> batch b1 = [] \<and> add_tg_requests E b1 r s1 = Inr (b', s')) \<or>
     (\<exists>b1 s1. add_tg_requests E b r s = Inr (b1, s1) \<and> add_ce_requests E b1 r s1 = Inr (b', s'))"
    by (rule construct_replica_runs [OF run])
  have ce: "ce_progress act r b s b1 s1" if "add_ce_requests E b r s = Inr (b1, s1)" for b1 s1
    by (rule add_ce_requests_own [OF inv E r _ that]) (simp add: b)
  have tg: "tg_progress act r s b1 s1" if "add_tg_requests E b r s = Inr (b1, s1)" for b1 s1
    by (rule add_tg_requests_own [OF inv E r b that])
  from cases show ?thesis
  proof (elim disjE exE conjE)
    assume "b' = b" "s' = s"
    then show ?thesis using inv b by (intro exI [of _ act]) (simp add: batch_progress_def)
  next
    assume "add_ce_requests E b r s = Inr (b', s')"
    then show ?thesis using ce_progress_batch [OF ce r _ _ inv] b by simp
  next
    assume "add_tg_requests E b r s = Inr (b', s')"
    then show ?thesis using tg_progress_batch [OF tg r] by blast
  next
    fix b1 s1
    assume c: "add_ce_requests E b r s = Inr (b1, s1)" and e: "batch b1 = []"
      and t: "add_tg_requests E b1 r s1 = Inr (b', s')"
    have C: "inv act s1" "frame r s s1" using ce [OF c] e b by (auto simp: ce_progress_def)
    have r1: "r < length (replicas s1)" using frame_length [OF C(2)] r by simp
    from tg_progress_trans [OF C(2) add_tg_requests_own [OF C(1) E r1 e t]]
    show ?thesis using tg_progress_batch [OF _ r] by blast
  next
    fix b1 s1
    assume t: "add_tg_requests E b r s = Inr (b1, s1)" and c: "add_ce_requests E b1 r s1 = Inr (b', s')"
    have T: "inv act s1" "frame r s s1" "distinct (batch b1)" "set (batch b1) \<subseteq> set (tg_reqs (replicas s1 ! r))"
      using tg [OF t] by (simp_all add: tg_progress_def)
    have r1: "r < length (replicas s1)" using frame_length [OF T(2)] r by simp
    have "ce_progress act r b1 s1 b' s'" using T(4) by (intro add_ce_requests_own [OF T(1) E r1 _ c]) blast
    from ce_progress_batch [OF this r1 T(3,4,1)] obtain act' where "batch_progress act act' r s1 (batch b') s'" by blast
    then show ?thesis using frame_trans [OF T(2)] by (auto simp: batch_progress_def)
  qed
qed

end

end
