(* ===== verification/Admission.thy ===== *)
theory Admission
  imports Batch_Loops
begin

text \<open>
  The ownership invariant through everything that moves requests in and out of the queues of the
  batch constructor: entering, the grammar gate, the planner, completed loads, leaving, and the
  return of a batch after it ran.
\<close>

section \<open>Moves of the invariant\<close>

text \<open>Only the two pools, the gate and bookkeeping change.\<close>

lemma places_pools:
  assumes p: "places_ok act s" and e: "scheduler_config s' = scheduler_config s" "replicas s' = replicas s"
    "onloading_reqs s' = onloading_reqs s" "bound_requests s' = bound_requests s" "has_padder s' = has_padder s"
    "prev_dp_padding s' = prev_dp_padding s" "current_dp_padding s' = current_dp_padding s"
    and ids: "\<And>i. rid (store s' i) = i" and disj: "bound_ids s \<inter> pooled_ids s' = {}"
    and pools: "dom (map_of (ce_pending s')) \<inter> dom (map_of (grammar_pending s')) = {}"
    and gt: "grammar_pending s' \<noteq> [] \<longrightarrow> gate s' \<noteq> None"
  shows "places_ok act s'"
proof -
  have q: "queued s' = queued s" using e by (intro queued_cong)
  have b: "bound_ids s' = bound_ids s" using e by (simp add: bound_ids_def)
  have i: "\<forall>i. rid (store s' i) = i" using ids by blast
  show ?thesis
    unfolding places_ok_def q b e using p [unfolded places_ok_def] i disj pools gt
    by (elim conjE, intro conjI) assumption+
qed

lemma places_disjoint:
  assumes "places_ok act s"
  shows "bound_ids s \<inter> pooled_ids s = {}" and "dom (map_of (ce_pending s)) \<inter> dom (map_of (grammar_pending s)) = {}"
    and "grammar_pending s \<noteq> [] \<longrightarrow> gate s \<noteq> None"
proof -
  note D = assms [unfolded places_ok_def]
  show "bound_ids s \<inter> pooled_ids s = {}" using D by (elim conjE)
  show "dom (map_of (ce_pending s)) \<inter> dom (map_of (grammar_pending s)) = {}" using D by (elim conjE)
  show "grammar_pending s \<noteq> [] \<longrightarrow> gate s \<noteq> None" using D by (elim conjE)
qed

text \<open>A new request is bound: it is active until it is put in a queue.\<close>

lemma places_bind:
  assumes p: "places_ok act s" and i: "i \<notin> managed s" and r: "r < length (replicas s)"
  shows "places_ok (insert i act) (s\<lparr>bound_requests := AList.update i r (bound_requests s), request_id_to_lora_name := n\<rparr>)"
proof -
  let ?s = "s\<lparr>bound_requests := AList.update i r (bound_requests s), request_id_to_lora_name := n\<rparr>"
  note D = p [unfolded places_ok_def]
  have nb: "i \<notin> bound_ids s" "i \<notin> pooled_ids s" using i by (simp_all add: managed_def)
  have m: "map_of (bound_requests ?s) = (map_of (bound_requests s))(i \<mapsto> r)" by (simp add: update_conv')
  have b: "bound_ids ?s = insert i (bound_ids s)" unfolding bound_ids_def m by simp
  have q: "queued ?s = mset_set (bound_ids ?s - insert i act)"
    using places_queued [OF p] nb by (simp add: b queued_def)
  have a: "insert i act \<subseteq> bound_ids ?s" using places_act_bound [OF p] b by auto
  have old: "map_of (bound_requests ?s) j = map_of (bound_requests s) j" if "j \<noteq> i" for j using m that by simp
  have bd: "j \<noteq> i" if "map_of (bound_requests s) j = Some k" for j k using that nb by (auto simp: bound_ids_def)
  have "\<forall>k < length (replicas s). \<forall>j \<in> set (queue_ids (replicas s ! k)). map_of (bound_requests ?s) j = Some k"
    using places_queue_bound [OF p] bd old by metis
  moreover have "\<forall>e \<in> set (onloading_reqs s). map_of (bound_requests ?s) (fst e) = Some (on_replica (snd e))"
    using places_onloading_bound [OF p] bd old by metis
  moreover have "\<forall>j k. map_of (bound_requests ?s) j = Some k \<longrightarrow> k < length (replicas s)"
    using places_bound_range [OF p] r m by auto
  moreover have "bound_ids ?s \<inter> pooled_ids ?s = {}"
    using places_disjoint(1) [OF p] nb b by (simp add: pooled_ids_def)
  moreover have f: "ctx_num_replicas ?s = ctx_num_replicas s" "replicas ?s = replicas s" "store ?s = store s" "gate ?s = gate s"
    "onloading_reqs ?s = onloading_reqs s" "ce_pending ?s = ce_pending s" "grammar_pending ?s = grammar_pending s"
    "has_padder ?s = has_padder s" "prev_dp_padding ?s = prev_dp_padding s" "current_dp_padding ?s = current_dp_padding s"
    by simp_all
  ultimately show ?thesis
    unfolding places_ok_def f using D q a by (elim conjE, intro conjI) assumption+
qed

text \<open>An active request is forgotten.\<close>

lemma places_unbind:
  assumes p: "places_ok (insert i act) s" and i: "i \<notin> act"
  shows "places_ok act (s\<lparr>bound_requests := AList.delete i (bound_requests s)\<rparr>)"
proof -
  let ?s = "s\<lparr>bound_requests := AList.delete i (bound_requests s)\<rparr>"
  note D = p [unfolded places_ok_def]
  have m: "map_of (bound_requests ?s) = (map_of (bound_requests s))(i := None)" by (simp add: delete_conv')
  have b: "bound_ids ?s = bound_ids s - {i}" unfolding bound_ids_def m by auto
  have "bound_ids s - insert i act = bound_ids s - {i} - act" by auto
  then have q: "queued ?s = mset_set (bound_ids ?s - act)"
    using places_queued [OF p] by (simp add: b queued_def)
  have a: "act \<subseteq> bound_ids ?s" using places_act_bound [OF p] b i by auto
  have "\<forall>k < length (replicas s). \<forall>j \<in> set (queue_ids (replicas s ! k)). map_of (bound_requests ?s) j = Some k"
    using places_queue_bound [OF p] places_not_in_queue [OF p insertI1] m by (metis fun_upd_other)
  moreover have "\<forall>e \<in> set (onloading_reqs s). map_of (bound_requests ?s) (fst e) = Some (on_replica (snd e))"
    using places_onloading_bound [OF p] places_not_onloading [OF p insertI1] m by (metis fun_upd_other imageI)
  moreover have "\<forall>j k. map_of (bound_requests ?s) j = Some k \<longrightarrow> k < length (replicas s)"
    using places_bound_range [OF p] m by (auto split: if_splits)
  moreover have "bound_ids ?s \<inter> pooled_ids ?s = {}"
    using places_disjoint(1) [OF p] b by (auto simp: pooled_ids_def)
  moreover have f: "ctx_num_replicas ?s = ctx_num_replicas s" "replicas ?s = replicas s" "store ?s = store s" "gate ?s = gate s"
    "onloading_reqs ?s = onloading_reqs s" "ce_pending ?s = ce_pending s" "grammar_pending ?s = grammar_pending s"
    "has_padder ?s = has_padder s" "prev_dp_padding ?s = prev_dp_padding s" "current_dp_padding ?s = current_dp_padding s"
    by simp_all
  ultimately show ?thesis
    unfolding places_ok_def f using D q a by (elim conjE, intro conjI) assumption+
qed

text \<open>A request that was set aside becomes active again.\<close>

lemma onloading_distinct:
  assumes "places_ok act s"
  shows "distinct (map fst (onloading_reqs s))"
proof (rule distinct_count_le)
  fix i
  have "count_list (map fst (onloading_reqs s)) i \<le> count (queued s) i"
    unfolding queued_def count_mset [symmetric] by simp
  also have "\<dots> \<le> 1" using places_queued [OF assms] by (simp add: count_mset_set')
  finally show "count_list (map fst (onloading_reqs s)) i \<le> 1" .
qed

lemma places_take_aside:
  assumes p: "places_ok act s" and o1: "map_of (onloading_reqs s) i = Some o1"
  shows "places_ok (insert i act) (s\<lparr>onloading_reqs := AList.delete i (onloading_reqs s)\<rparr>)"
    and "i \<notin> act" and "map_of (bound_requests s) i = Some (on_replica o1)"
proof -
  let ?s = "s\<lparr>onloading_reqs := AList.delete i (onloading_reqs s)\<rparr>"
  note D = p [unfolded places_ok_def]
  have mem: "(i, o1) \<in> set (onloading_reqs s)" by (rule map_of_SomeD [OF o1])
  then have iq: "i \<in># queued s" by (force simp: queued_def)
  then have ib: "i \<in> bound_ids s - act" using places_queued [OF p] by simp
  then show "i \<notin> act" by simp
  show "map_of (bound_requests s) i = Some (on_replica o1)" using places_onloading_bound [OF p mem] by simp
  have "mset (map fst (onloading_reqs s)) = add_mset i (mset (map fst (AList.delete i (onloading_reqs s))))"
  proof -
    have "map fst (AList.delete i (onloading_reqs s)) = removeAll i (map fst (onloading_reqs s))"
      by (simp add: delete_keys)
    moreover have "i \<in> set (map fst (onloading_reqs s))" using mem by force
    ultimately show ?thesis
      using onloading_distinct [OF p] by (simp add: distinct_remove1_removeAll [symmetric])
  qed
  then have "add_mset i (queued ?s) = queued s" by (simp add: queued_def)
  also have "\<dots> = add_mset i (mset_set (bound_ids s - insert i act))"
    using mset_set_take [OF finite_bound ib] places_queued [OF p] by simp
  finally have q: "queued ?s = mset_set (bound_ids ?s - insert i act)" by (simp add: bound_ids_def)
  have a: "insert i act \<subseteq> bound_ids ?s" using places_act_bound [OF p] ib by (auto simp: bound_ids_def)
  have on: "\<forall>e \<in> set (onloading_reqs ?s). map_of (bound_requests s) (fst e) = Some (on_replica (snd e))"
    using places_onloading_bound [OF p] by (auto simp: AList.delete_eq)
  have f: "ctx_num_replicas ?s = ctx_num_replicas s" "replicas ?s = replicas s" "store ?s = store s" "gate ?s = gate s"
    "bound_requests ?s = bound_requests s" "ce_pending ?s = ce_pending s" "grammar_pending ?s = grammar_pending s"
    "has_padder ?s = has_padder s" "prev_dp_padding ?s = prev_dp_padding s" "current_dp_padding ?s = current_dp_padding s"
    "bound_ids ?s = bound_ids s" "pooled_ids ?s = pooled_ids s"
    by (simp_all add: bound_ids_def pooled_ids_def)
  show "places_ok (insert i act) ?s"
    unfolding places_ok_def f using D q [unfolded f] a [unfolded f] on by (elim conjE, intro conjI) assumption+
qed

section \<open>Entering\<close>

text \<open>Operations on requests outside the KV cache keep it as it is.\<close>

lemma own_places_kv:
  assumes "own_inv ok owner nrep act s" and "places_ok act' s'" and "kv s' = kv s"
    and "length (replicas s') = length (replicas s)"
    and "\<And>i r. map_of (bound_requests s) i = Some r \<Longrightarrow> map_of (bound_requests s') i = Some r"
  shows "own_inv ok owner nrep act' s'"
  using assms by (auto simp: own_inv_def kv_good_def)

lemma bind_request_own:
  assumes inv: "own_inv ok owner nrep act s" and i: "i \<notin> managed s" and run: "bind_request i r s = Inr s'"
  shows "own_inv ok owner nrep act s' \<and> bound_requests s' = AList.update i r (bound_requests s) \<and>
    ce_pending s' = ce_pending s \<and> grammar_pending s' = grammar_pending s"
proof -
  let ?n = "AList.update i (if is_lora (ctx_of i s) (lora s) then Some (model_name (ctx_of i s)) else None)
                 (request_id_to_lora_name s)"
  let ?s = "s\<lparr>bound_requests := AList.update i r (bound_requests s), request_id_to_lora_name := ?n\<rparr>"
  have r: "r < length (replicas s)" using run by (auto simp: bind_request_def replica_at_def result_Inr)
  obtain f where s': "s' = upd_replica r f ?s"
    and f: "f = (\<lambda>q. q\<lparr>ce_reqs := od_put i (ce_reqs q)\<rparr>) \<or> f = (\<lambda>q. q\<lparr>tg_reqs := od_put i (tg_reqs q)\<rparr>)"
    using run r by (auto simp: bind_request_def replica_at_def Let_def split: if_splits)
  have p1: "places_ok (insert i act) ?s" by (rule places_bind [OF own_places [OF inv] i r])
  have "i \<notin> set (queue_ids (replicas ?s ! r))" using places_not_in_queue [OF p1 insertI1] r by simp
  then have m: "mset (queue_ids (f (replicas ?s ! r))) = add_mset i (mset (queue_ids (replicas ?s ! r)))"
    using f by (auto simp: queue_ids_def od_put_def)
  have bi: "map_of (bound_requests ?s) i = Some r" by (simp add: update_conv')
  have "i \<notin> act" using i places_act_bound [OF own_places [OF inv]] by (auto simp: managed_def)
  then have p2: "places_ok act s'"
    unfolding s' using places_give [where f = f, OF p1 _ insertI1 bi m] r by simp
  have "map_of (bound_requests s') j = Some k" if "map_of (bound_requests s) j = Some k" for j k
    using that i by (auto simp: s' update_conv' managed_def bound_ids_def)
  then show ?thesis using own_places_kv [OF inv p2] by (simp add: s')
qed

lemma bind_managed:
  assumes "bound_requests s' = AList.update i r (bound_requests s)" and "ce_pending s' = ce_pending s"
    and "grammar_pending s' = grammar_pending s"
  shows "managed s' = insert i (managed s)"
  using assms by (auto simp: managed_def bound_ids_def pooled_ids_def update_conv')

lemma admit_request_own:
  assumes inv: "own_inv ok owner nrep act s" and i: "i \<notin> managed s" and run: "admit_request E i replica_idx s = Inr s'"
  shows "own_inv ok owner nrep act s' \<and> managed s' = insert i (managed s)"
proof (cases "dp_ce_balance_enabled s \<and> replica_idx = None \<and> generated_len s i = 0")
  case True
  with run obtain w where s': "s' = s\<lparr>ce_pending := AList.update i \<lparr>pc_weights = w\<rparr> (ce_pending s),
               ce_arrival := AList.update i (env_now E) (ce_arrival s)\<rparr>"
    by (auto simp: admit_request_def bind_r_eq_Inr)
  have p: "places_ok act s" by (rule own_places [OF inv])
  have pool: "pooled_ids s' = insert i (pooled_ids s)" by (auto simp: s' pooled_ids_def update_conv')
  have "places_ok act s'"
  proof (rule places_pools [OF p])
    show "bound_ids s \<inter> pooled_ids s' = {}" using places_disjoint(1) [OF p] i by (auto simp: pool managed_def)
    show "dom (map_of (ce_pending s')) \<inter> dom (map_of (grammar_pending s')) = {}"
      using places_disjoint(2) [OF p] i by (auto simp: s' update_conv' managed_def pooled_ids_def)
  qed (simp_all add: s' places_ids [OF p] places_disjoint(3) [OF p])
  then have "own_inv ok owner nrep act s'" by (rule own_places_kv [OF inv]) (simp_all add: s')
  moreover have "managed s' = insert i (managed s)" using pool by (auto simp: managed_def s' bound_ids_def)
  ultimately show ?thesis by blast
next
  case False
  with run obtain r where "bind_request i r s = Inr s'"
    by (auto simp: admit_request_def bind_r_eq_Inr)
  from bind_request_own [OF inv i this] show ?thesis using bind_managed by blast
qed

lemma own_gate:
  assumes inv: "own_inv ok owner nrep act s" and c: "rid c = i"
  shows "own_inv ok owner nrep act (put_ctx i c (s\<lparr>gate := Some g\<rparr>))" "managed (put_ctx i c (s\<lparr>gate := Some g\<rparr>)) = managed s"
proof -
  let ?s = "put_ctx i c (s\<lparr>gate := Some g\<rparr>)"
  have p: "places_ok act s" by (rule own_places [OF inv])
  have "places_ok act ?s"
  proof (rule places_pools [OF p])
    show "rid (store ?s j) = j" for j using places_ids [OF p] c by (simp add: put_ctx_def)
    show "bound_ids s \<inter> pooled_ids ?s = {}"
      using places_disjoint(1) [OF p] by (simp add: put_ctx_def pooled_ids_def)
  qed (simp_all add: put_ctx_def places_disjoint(2) [OF p])
  then show "own_inv ok owner nrep act ?s" by (rule own_places_kv [OF inv]) (simp_all add: put_ctx_def)
  show "managed ?s = managed s" by (simp add: put_ctx_def managed_def bound_ids_def pooled_ids_def)
qed

lemma own_fail:
  assumes inv: "own_inv ok owner nrep act s"
  shows "own_inv ok owner nrep act (fail_grammar_request i e s)" "managed (fail_grammar_request i e s) = managed s"
proof -
  have p: "places_ok act s" by (rule own_places [OF inv])
  have "places_ok act (fail_grammar_request i e s)"
  proof (rule places_pools [OF p])
    show "bound_ids s \<inter> pooled_ids (fail_grammar_request i e s) = {}"
      using places_disjoint(1) [OF p] by (simp add: fail_grammar_request_def pipeline_release_def pooled_ids_def Let_def)
  qed (simp_all add: fail_grammar_request_def pipeline_release_def Let_def places_ids [OF p] places_disjoint [OF p])
  then show "own_inv ok owner nrep act (fail_grammar_request i e s)"
    by (rule own_places_kv [OF inv]) (simp_all add: fail_grammar_request_def pipeline_release_def Let_def)
  show "managed (fail_grammar_request i e s) = managed s"
    by (simp add: fail_grammar_request_def pipeline_release_def Let_def managed_def bound_ids_def pooled_ids_def)
qed

lemma settle_grammar_own:
  assumes inv: "own_inv ok owner nrep act s" and i: "i \<notin> managed s" and run: "settle_grammar E i replica_idx g s = Inr s'"
  shows "own_inv ok owner nrep act s' \<and> managed s' \<subseteq> insert i (managed s)"
proof -
  obtain err c g' where inst: "gate_install_ready (env_backend E) (store s i) g = Inr (err, c, g')"
    and rest: "(case err of Some e \<Rightarrow> Inr (fail_grammar_request i e (put_ctx i c (s\<lparr>gate := Some g'\<rparr>)))
       | None \<Rightarrow> admit_request E i replica_idx (put_ctx i c (s\<lparr>gate := Some g'\<rparr>))) = Inr s'"
    using run by (auto simp: settle_grammar_def Let_def bind_r_eq_Inr)
  have c: "rid c = i" using gate_install_keeps(1) [OF inst] places_ids [OF own_places [OF inv]] by simp
  note G = own_gate [OF inv c, of g']
  show ?thesis
  proof (cases err)
    case None
    then show ?thesis using admit_request_own [OF G(1)] G(2) i rest by auto
  next
    case (Some e)
    then show ?thesis using own_fail [OF G(1)] G(2) rest by auto
  qed
qed

lemma enqueue_own:
  assumes inv: "own_inv ok owner nrep act s" and i: "i \<notin> managed s" and run: "enqueue_new_request E i replica_idx s = Inr s'"
  shows "own_inv ok owner nrep act s' \<and> managed s' \<subseteq> insert i (managed s)"
proof (cases "\<exists>g. gate s = Some g \<and> generated_len s i = 0 \<and> \<not> gate_is_ready (store s i) (gate_submit (store s i) g)")
  case True
  then obtain g where s': "s' = s\<lparr>gate := Some g, grammar_pending := AList.update i replica_idx (grammar_pending s)\<rparr>"
    using run by (auto simp: enqueue_new_request_def Let_def)
  have p: "places_ok act s" by (rule own_places [OF inv])
  have pool: "pooled_ids s' = insert i (pooled_ids s)" by (auto simp: s' pooled_ids_def update_conv')
  have "places_ok act s'"
  proof (rule places_pools [OF p])
    show "bound_ids s \<inter> pooled_ids s' = {}" using places_disjoint(1) [OF p] i by (auto simp: pool managed_def)
    show "dom (map_of (ce_pending s')) \<inter> dom (map_of (grammar_pending s')) = {}"
      using places_disjoint(2) [OF p] i by (auto simp: s' update_conv' managed_def pooled_ids_def)
  qed (simp_all add: s' places_ids [OF p])
  then have "own_inv ok owner nrep act s'" by (rule own_places_kv [OF inv]) (simp_all add: s')
  moreover have "managed s' = insert i (managed s)" using pool by (auto simp: managed_def s' bound_ids_def)
  ultimately show ?thesis by blast
next
  case False
  then consider "admit_request E i replica_idx s = Inr s'" | g where "settle_grammar E i replica_idx g s = Inr s'"
    using run by (auto simp: enqueue_new_request_def Let_def split: option.splits if_splits)
  then show ?thesis
    using admit_request_own [OF inv i] settle_grammar_own [OF inv i] by cases auto
qed

section \<open>Out of the pools\<close>

lemma own_leave_grammar_pool:
  assumes inv: "own_inv ok owner nrep act s" and i: "map_of (grammar_pending s) i \<noteq> None"
  shows "own_inv ok owner nrep act (s\<lparr>grammar_pending := AList.delete i (grammar_pending s)\<rparr>) \<and>
    managed (s\<lparr>grammar_pending := AList.delete i (grammar_pending s)\<rparr>) = managed s - {i} \<and> i \<in> managed s"
proof -
  let ?s = "s\<lparr>grammar_pending := AList.delete i (grammar_pending s)\<rparr>"
  have p: "places_ok act s" by (rule own_places [OF inv])
  have sub: "dom (map_of (grammar_pending ?s)) \<subseteq> dom (map_of (grammar_pending s))" by (auto simp: delete_conv' split: if_splits)
  have "places_ok act ?s"
  proof (rule places_pools [OF p])
    have "pooled_ids ?s \<subseteq> pooled_ids s" using sub unfolding pooled_ids_def by (simp add: subset_iff)
    then show "bound_ids s \<inter> pooled_ids ?s = {}" using places_disjoint(1) [OF p] by blast
    show "dom (map_of (ce_pending ?s)) \<inter> dom (map_of (grammar_pending ?s)) = {}" using places_disjoint(2) [OF p] sub by simp blast
    show "grammar_pending ?s \<noteq> [] \<longrightarrow> gate ?s \<noteq> None"
      using places_disjoint(3) [OF p] by (auto simp: AList.delete_eq)
  qed (simp_all add: places_ids [OF p])
  then have "own_inv ok owner nrep act ?s" by (rule own_places_kv [OF inv]) simp_all
  moreover have "i \<notin> bound_ids s" "i \<notin> dom (map_of (ce_pending s))" "i \<in> managed s"
    using i places_disjoint(1,2) [OF p] by (auto simp: pooled_ids_def managed_def)
  ultimately show ?thesis by (auto simp: managed_def bound_ids_def pooled_ids_def delete_conv' split: if_splits)
qed

lemma own_leave_ce_pool:
  assumes inv: "own_inv ok owner nrep act s" and i: "map_of (ce_pending s) i \<noteq> None"
  shows "own_inv ok owner nrep act (s\<lparr>ce_pending := AList.delete i (ce_pending s)\<rparr>) \<and>
    managed (s\<lparr>ce_pending := AList.delete i (ce_pending s)\<rparr>) = managed s - {i} \<and> i \<in> managed s"
proof -
  let ?s = "s\<lparr>ce_pending := AList.delete i (ce_pending s)\<rparr>"
  have p: "places_ok act s" by (rule own_places [OF inv])
  have sub: "dom (map_of (ce_pending ?s)) \<subseteq> dom (map_of (ce_pending s))" by (auto simp: delete_conv' split: if_splits)
  have "places_ok act ?s"
  proof (rule places_pools [OF p])
    have "pooled_ids ?s \<subseteq> pooled_ids s" using sub unfolding pooled_ids_def by (simp add: subset_iff)
    then show "bound_ids s \<inter> pooled_ids ?s = {}" using places_disjoint(1) [OF p] by blast
    show "dom (map_of (ce_pending ?s)) \<inter> dom (map_of (grammar_pending ?s)) = {}" using places_disjoint(2) [OF p] sub by simp blast
  qed (simp_all add: places_ids [OF p] places_disjoint(3) [OF p])
  then have "own_inv ok owner nrep act ?s" by (rule own_places_kv [OF inv]) simp_all
  moreover have "i \<notin> bound_ids s" "i \<notin> dom (map_of (grammar_pending s))" "i \<in> managed s"
    using i places_disjoint(1,2) [OF p] by (auto simp: pooled_ids_def managed_def)
  ultimately show ?thesis by (auto simp: managed_def bound_ids_def pooled_ids_def delete_conv' split: if_splits)
qed

lemma promote_own:
  assumes inv: "own_inv ok owner nrep act s" and run: "promote_grammar_ready_requests E s = Inr s'"
  shows "own_inv ok owner nrep act s' \<and> managed s' \<subseteq> managed s"
proof (cases "gate s")
  case None
  then show ?thesis using inv run by (simp add: promote_grammar_ready_requests_def)
next
  case (Some g)
  let ?step = "\<lambda>s i. case (map_of (grammar_pending s) i, gate s) of
              (Some replica_idx, Some g) \<Rightarrow>
                settle_grammar E i replica_idx g (s\<lparr>grammar_pending := AList.delete i (grammar_pending s)\<rparr>)
            | _ \<Rightarrow> Inl KeyError"
  have run': "fold_r ?step s (filter (\<lambda>i. gate_is_ready (store s i) g) (map fst (grammar_pending s))) = Inr s'"
    using run Some by (simp add: promote_grammar_ready_requests_def Let_def)
  show ?thesis
  proof (rule fold_r_invariant [OF run'])
    fix t i t'
    assume I: "own_inv ok owner nrep act t \<and> managed t \<subseteq> managed s" and st: "?step t i = Inr t'"
    then obtain ri g where m: "map_of (grammar_pending t) i = Some ri"
      and st': "settle_grammar E i ri g (t\<lparr>grammar_pending := AList.delete i (grammar_pending t)\<rparr>) = Inr t'"
      by (auto split: option.splits)
    have L: "own_inv ok owner nrep act (t\<lparr>grammar_pending := AList.delete i (grammar_pending t)\<rparr>)"
        "managed (t\<lparr>grammar_pending := AList.delete i (grammar_pending t)\<rparr>) = managed t - {i}" "i \<in> managed t"
      using own_leave_grammar_pool [of ok owner nrep act t i] I m by simp_all
    then show "own_inv ok owner nrep act t' \<and> managed t' \<subseteq> managed s"
      using settle_grammar_own [OF L(1) _ st'] I by auto
  qed (use inv in simp)
qed

text \<open>A pooled request is bound: the set of managed requests is the same.\<close>

lemma bind_from_pool_own:
  assumes inv: "own_inv ok owner nrep act s" and i: "map_of (ce_pending s) i \<noteq> None"
    and run: "bind_request i r (s\<lparr>ce_pending := AList.delete i (ce_pending s)\<rparr>) = Inr s'"
  shows "own_inv ok owner nrep act s' \<and> managed s' = managed s"
proof -
  let ?s = "s\<lparr>ce_pending := AList.delete i (ce_pending s)\<rparr>"
  have L: "own_inv ok owner nrep act ?s" "managed ?s = managed s - {i}" "i \<in> managed s"
    using own_leave_ce_pool [OF inv i] by blast+
  have B: "own_inv ok owner nrep act s'" "bound_requests s' = AList.update i r (bound_requests ?s)"
      "ce_pending s' = ce_pending ?s" "grammar_pending s' = grammar_pending ?s"
    using bind_request_own [OF L(1) _ run] L(2) by simp_all
  have "managed s' = insert i (managed ?s)" by (rule bind_managed [OF B(2-4)])
  then show ?thesis using B(1) L(2,3) by auto
qed

lemma own_plan_fields:
  assumes inv: "own_inv ok owner nrep act s"
  shows "own_inv ok owner nrep act (s\<lparr>ce_deferred_replicas := d\<rparr>)" "managed (s\<lparr>ce_deferred_replicas := d\<rparr>) = managed s"
    and "own_inv ok owner nrep act (s\<lparr>ce_step_quota := q\<rparr>)" "managed (s\<lparr>ce_step_quota := q\<rparr>) = managed s"
proof -
  have p: "places_ok act s" by (rule own_places [OF inv])
  show "own_inv ok owner nrep act (s\<lparr>ce_deferred_replicas := d\<rparr>)" "own_inv ok owner nrep act (s\<lparr>ce_step_quota := q\<rparr>)"
    by (rule own_places_kv [OF inv], rule places_pools [OF p];
        simp add: places_ids [OF p] places_disjoint [OF p] pooled_ids_def [abs_def] places_disjoint(1) [OF p, unfolded pooled_ids_def])+
qed (simp_all add: managed_def bound_ids_def pooled_ids_def)

lemma plan_ce_step_cases:
  assumes "plan_ce_step E s = Inr s'" and "s0 = s\<lparr>ce_deferred_replicas := [], ce_step_quota := None\<rparr>"
  shows "s' = s0 \<and> (\<not> dp_ce_balance_enabled s0 \<or> ce_pending s0 = []) \<or>
    (\<exists>p q t d sl binds. fold_r bind_expired_one (p, s0) (filter (expired E s0) (map fst (ce_pending s0))) = Inr (q, t) \<and>
       commit_plan E (pl_floor q) (deferrable_tails E s0) d sl binds t = Inr s')"
  using assms(1) unfolding plan_ce_step_def Let_def assms(2) [symmetric]
  by (auto simp: bind_r_eq_Inr split_beta split: if_splits)

lemma bind_expired_own:
  assumes "own_inv ok owner nrep act (snd st)" and "bind_expired_one st i = Inr st'"
  shows "own_inv ok owner nrep act (snd st') \<and> managed (snd st') = managed (snd st)"
proof -
  from assms(2) have "map_of (ce_pending (snd st)) i \<noteq> None \<and>
      (\<exists>r. bind_request i r ((snd st)\<lparr>ce_pending := AList.delete i (ce_pending (snd st))\<rparr>) = Inr (snd st'))"
    by (auto simp: bind_expired_one_def Let_def bind_r_eq_Inr split: prod.splits option.splits)
  then show ?thesis using bind_from_pool_own assms(1) by metis
qed

lemma bind_pooled_own:
  assumes "own_inv ok owner nrep act t" and "bind_pooled t e = Inr t'"
  shows "own_inv ok owner nrep act t' \<and> managed t' = managed t"
proof -
  from assms(2) have "map_of (ce_pending t) (fst e) \<noteq> None \<and>
      bind_request (fst e) (snd e) (t\<lparr>ce_pending := AList.delete (fst e) (ce_pending t)\<rparr>) = Inr t'"
    by (auto simp: bind_pooled_def raise_if_eq_Inr split: prod.splits)
  then show ?thesis using bind_from_pool_own assms(1) by metis
qed

lemma commit_plan_own:
  assumes inv: "own_inv ok owner nrep act t" and run: "commit_plan E fl tails d sl binds t = Inr t'"
  shows "own_inv ok owner nrep act t' \<and> managed t' = managed t"
proof -
  let ?I = "\<lambda>u. own_inv ok owner nrep act u \<and> managed u = managed t"
  have fold: "?I u" if "fold_r bind_pooled t binds = Inr u" for u
    by (rule fold_r_invariant [OF that]) (use inv in simp, metis bind_pooled_own)
  from run consider "t' = t\<lparr>ce_deferred_replicas := map snd tails\<rparr>"
    | u where "fold_r bind_pooled t binds = Inr u" "t' = u\<lparr>ce_deferred_replicas := d\<rparr>"
    | u q where "fold_r bind_pooled t binds = Inr u" "t' = u\<lparr>ce_deferred_replicas := d, ce_step_quota := q\<rparr>"
    by (auto simp: commit_plan_def Let_def bind_r_eq_Inr split: if_splits)
  then show ?thesis
  proof cases
    case 1
    then show ?thesis using own_plan_fields [OF inv] by simp
  next
    case (2 u)
    then show ?thesis using own_plan_fields [of ok owner nrep act u] fold [OF 2(1)] by simp
  next
    case (3 u q)
    then show ?thesis
      using own_plan_fields [of ok owner nrep act u] own_plan_fields [of ok owner nrep act "u\<lparr>ce_deferred_replicas := d\<rparr>"]
        fold [OF 3(1)]
      by simp
  qed
qed

lemma plan_ce_step_own:
  assumes inv: "own_inv ok owner nrep act s" and run: "plan_ce_step E s = Inr s'"
  shows "own_inv ok owner nrep act s' \<and> managed s' = managed s"
proof -
  let ?I = "\<lambda>t. own_inv ok owner nrep act t \<and> managed t = managed s"
  define s0 where "s0 = s\<lparr>ce_deferred_replicas := [], ce_step_quota := None\<rparr>"
  have "?I (s\<lparr>ce_deferred_replicas := []\<rparr>)" using own_plan_fields [OF inv] by simp
  from own_plan_fields(3,4) [OF this [THEN conjunct1]] this
  have I0: "?I s0" by (simp add: s0_def)
  from plan_ce_step_cases [OF run s0_def] consider "s' = s0"
    | p xs t fl tails d sl binds where "fold_r bind_expired_one (p, s0) xs = Inr t"
        "commit_plan E fl tails d sl binds (snd t) = Inr s'"
    by (metis snd_conv)
  then show ?thesis
  proof cases
    case 2
    have "?I (snd t)"
      by (rule fold_r_invariant [OF 2(1), of "\<lambda>st. ?I (snd st)"]) (use I0 in simp, metis bind_expired_own)
    then show ?thesis using commit_plan_own [OF conjunct1 2(2)] by metis
  qed (use I0 in simp)
qed

section \<open>Completed loads\<close>

lemma readmit_own:
  assumes inv: "own_inv ok owner nrep act s" and run: "readmit_completed_onloads E s = Inr s'"
  shows "own_inv ok owner nrep act s' \<and> managed s' = managed s"
proof (rule fold_r_invariant [OF run [unfolded readmit_completed_onloads_def]])
  fix t i t'
  assume I: "own_inv ok owner nrep act t \<and> managed t = managed s"
    and st: "(case map_of (onloading_reqs t) i of None \<Rightarrow> Inl KeyError
       | Some o1 \<Rightarrow>
           let s = t\<lparr>onloading_reqs := AList.delete i (onloading_reqs t)\<rparr> in
           bind_r (replica_at (on_replica o1) s) (\<lambda>_.
             Inr (upd_replica (on_replica o1) (\<lambda>q. q\<lparr>ce_reqs := od_front i (ce_reqs q)\<rparr>) s))) = Inr t'"
  let ?f = "\<lambda>q. q\<lparr>ce_reqs := od_front i (ce_reqs q)\<rparr>"
  let ?t = "t\<lparr>onloading_reqs := AList.delete i (onloading_reqs t)\<rparr>"
  obtain o1 where o1: "map_of (onloading_reqs t) i = Some o1"
    and r: "on_replica o1 < length (replicas t)" and t': "t' = upd_replica (on_replica o1) ?f ?t"
    using st by (auto simp: Let_def replica_at_def result_Inr split: option.splits)
  note T = places_take_aside [OF own_places [OF I [THEN conjunct1]] o1]
  have r': "on_replica o1 < length (replicas ?t)" using r by simp
  have "i \<notin> set (queue_ids (replicas ?t ! on_replica o1))" by (rule places_not_in_queue [OF T(1) insertI1 r'])
  then have m: "mset (queue_ids (?f (replicas ?t ! on_replica o1))) = add_mset i (mset (queue_ids (replicas ?t ! on_replica o1)))"
    by (simp add: queue_ids_def od_front_def)
  have b: "map_of (bound_requests ?t) i = Some (on_replica o1)" using T(3) by simp
  have "places_ok act t'"
    unfolding t' using places_give [where f = ?f, OF T(1) r' insertI1 b m] T(2) by simp
  then have "own_inv ok owner nrep act t'"
    by (rule own_places_kv [OF I [THEN conjunct1]]) (simp_all add: t')
  moreover have "managed t' = managed t" by (simp add: t' managed_def bound_ids_def pooled_ids_def upd_replica_def)
  ultimately show "own_inv ok owner nrep act t' \<and> managed t' = managed s" using I by simp
qed (use inv in simp)

section \<open>Leaving\<close>

lemma drop_request_mset:
  assumes "distinct (queue_ids q)"
  shows "mset (queue_ids q) = (if i \<in> set (queue_ids q) then add_mset i (mset (queue_ids (drop_request i q)))
    else mset (queue_ids (drop_request i q)))"
  using assms
  by (auto simp: drop_request_def queue_ids_def distinct_remove1_removeAll [symmetric] removeAll_id
      simp del: remove1_append)

text \<open>After the request is taken from wherever it waits, it is active.\<close>

lemma take_anywhere:
  assumes p: "places_ok act s" and b: "map_of (bound_requests s) i = Some r" and i: "i \<notin> act"
  shows "places_ok (insert i act)
    (upd_replica r (drop_request i) (s\<lparr>ce_arrival := a, onloading_reqs := AList.delete i (onloading_reqs s)\<rparr>))"
proof -
  let ?s = "s\<lparr>ce_arrival := a, onloading_reqs := AList.delete i (onloading_reqs s)\<rparr>"
  have r: "r < length (replicas s)" by (rule places_bound_range [OF p b])
  have arr: "places_ok X (t\<lparr>ce_arrival := a\<rparr>)" if "places_ok X t" for X and t :: "('a, 'b, 'c, 'd) constructor"
  proof (rule places_pools [OF that])
    have "pooled_ids (t\<lparr>ce_arrival := a\<rparr>) = pooled_ids t" by (simp add: pooled_ids_def)
    then show "bound_ids t \<inter> pooled_ids (t\<lparr>ce_arrival := a\<rparr>) = {}" using places_disjoint(1) [OF that] by simp
  qed (simp_all add: places_ids [OF that] places_disjoint(2,3) [OF that])
  show ?thesis
  proof (cases "map_of (onloading_reqs s) i")
    case (Some o1)
    have p1: "places_ok (insert i act) ?s"
      using places_take_aside(1) [OF arr [OF p], of i o1] Some by simp
    have r1: "r < length (replicas ?s)" using r by simp
    have "i \<notin> set (queue_ids (replicas ?s ! r))" by (rule places_not_in_queue [OF p1 insertI1 r1])
    then have "mset (queue_ids (drop_request i (replicas ?s ! r))) = mset (queue_ids (replicas ?s ! r))"
      using drop_request_mset [OF queue_distinct [OF p1 r1], of i] by simp
    then show ?thesis by (rule places_same [OF p1 r1])
  next
    case None
    then have "AList.delete i (onloading_reqs s) = onloading_reqs s" by (simp add: delete_idem map_of_eq_None_iff)
    then have e: "?s = s\<lparr>ce_arrival := a\<rparr>" by (cases s) simp
    have p1: "places_ok act ?s" unfolding e by (rule arr [OF p])
    have r1: "r < length (replicas ?s)" using r by simp
    have "i \<in> bound_ids s - act" using b i by (auto simp: bound_ids_def)
    then have "i \<in># queued s" using places_queued [OF p] by simp
    moreover have "i \<notin> fst ` set (onloading_reqs s)" using None by (simp add: map_of_eq_None_iff)
    ultimately obtain q where "q \<in> set (replicas s)" "i \<in> set (queue_ids q)"
      by (auto simp: queued_def set_mset_sum_list)
    then obtain k where k: "k < length (replicas s)" "i \<in> set (queue_ids (replicas s ! k))"
      by (auto simp: in_set_conv_nth)
    then have "k = r" using places_queue_bound [OF p k] b by simp
    then have iq: "i \<in> set (queue_ids (replicas ?s ! r))" using k by simp
    then have "mset (queue_ids (replicas ?s ! r)) = add_mset i (mset (queue_ids (drop_request i (replicas ?s ! r))))"
      using drop_request_mset [OF queue_distinct [OF p1 r1], of i] by simp
    then show ?thesis by (rule places_take(1) [OF p1 r1 iq])
  qed
qed

text \<open>Forgetting the adapter changes no queue.\<close>

lemma forget_lora_simps [simp]:
  "kv (forget_lora i r s) = kv s" "bound_requests (forget_lora i r s) = bound_requests s"
  "ce_pending (forget_lora i r s) = ce_pending s" "grammar_pending (forget_lora i r s) = grammar_pending s"
  "length (replicas (forget_lora i r s)) = length (replicas s)" "gate (forget_lora i r s) = gate s"
  by (simp_all add: forget_lora_def Let_def split: option.split)

lemma forget_lora_places:
  assumes p: "places_ok act s" and r: "r < length (replicas s)"
  shows "places_ok act (forget_lora i r s)"
proof -
  let ?s = "s\<lparr>request_id_to_lora_name := AList.delete i (request_id_to_lora_name s)\<rparr>"
  have p1: "places_ok act ?s"
  proof (rule places_pools [OF p])
    have "pooled_ids ?s = pooled_ids s" by (simp add: pooled_ids_def)
    then show "bound_ids s \<inter> pooled_ids ?s = {}" using places_disjoint(1) [OF p] by simp
  qed (simp_all add: places_ids [OF p] places_disjoint(2,3) [OF p])
  have "places_ok act (upd_replica r (\<lambda>q. q\<lparr>active_loras := active_loras q - {name}\<rparr>) ?s)" for name
    using r by (intro places_same [OF p1]) (simp_all add: queue_ids_def)
  then show ?thesis using p1 by (simp add: forget_lora_def Let_def split: option.split)
qed

context kv_cache_contract
begin

lemma release_bound_own:
  assumes inv: "inv act s" and E: "env_kv E = K" and b: "map_of (bound_requests s) i = Some r" and i: "i \<notin> act"
  shows "\<exists>s'. release_bound E i r (s\<lparr>ce_arrival := a, onloading_reqs := AList.delete i (onloading_reqs s)\<rparr>) = Inr s' \<and>
    inv act s' \<and> managed s' = managed s - {i} \<and> owner (kv s') = (owner (kv s))(i := None)"
proof -
  let ?s = "s\<lparr>ce_arrival := a, onloading_reqs := AList.delete i (onloading_reqs s)\<rparr>"
  have p: "places_ok act s" by (rule own_places [OF inv])
  have r: "r < length (replicas ?s)" using places_bound_range [OF p b] by simp
  define t where "t = forget_lora i r (upd_replica r (drop_request i) ?s)"
  have t: "kv t = kv ?s" "bound_requests t = bound_requests ?s" "ce_pending t = ce_pending ?s"
      "grammar_pending t = grammar_pending ?s" "length (replicas t) = length (replicas ?s)" "gate t = gate ?s"
    by (simp_all add: t_def)
  have pt: "places_ok (insert i act) t"
    unfolding t_def using r by (intro forget_lora_places [OF take_anywhere [OF p b i]]) simp
  then have it: "inv (insert i act) t" using own_places_kv [OF inv pt] t by simp
  obtain k where k: "release_if_claimed E i t = Inr (t\<lparr>kv := k\<rparr>)" "inv (insert i act) (t\<lparr>kv := k\<rparr>)"
      "owner k = (owner (kv t))(i := None)"
    using release_if_claimed_own [OF it E] by blast
  define u where "u = (case gate t of None \<Rightarrow> pipeline_release i (t\<lparr>kv := k\<rparr>)
      | Some g \<Rightarrow> (pipeline_release i (t\<lparr>kv := k\<rparr>))\<lparr>gate := Some (gate_release i g)\<rparr>)"
  have u: "scheduler_config u = scheduler_config t" "replicas u = replicas t" "onloading_reqs u = onloading_reqs t"
    "bound_requests u = bound_requests t" "has_padder u = has_padder t" "prev_dp_padding u = prev_dp_padding t"
    "current_dp_padding u = current_dp_padding t" "store u = store t" "ce_pending u = ce_pending t"
    "grammar_pending u = grammar_pending t" "gate u = None \<longleftrightarrow> gate t = None" "kv u = k"
    by (simp_all add: u_def pipeline_release_def split: option.split)
  have pu: "places_ok (insert i act) u"
  proof (rule places_pools [OF pt])
    have "pooled_ids u = pooled_ids t" using u by (simp add: pooled_ids_def)
    then show "bound_ids t \<inter> pooled_ids u = {}" using places_disjoint(1) [OF pt] by simp
  qed (use u places_ids [OF pt] places_disjoint(2,3) [OF pt] in simp_all)
  define s' where "s' = u\<lparr>bound_requests := AList.delete i (bound_requests u)\<rparr>"
  have run: "release_bound E i r ?s = Inr s'"
    using r k(1) [unfolded t_def]
    by (simp add: release_bound_def replica_at_def s'_def u_def t_def Let_def pipeline_release_def split: option.split)
  have "places_ok act s'" unfolding s'_def by (rule places_unbind [OF pu i])
  moreover have "kv_good ok owner nrep s'"
    using own_kv_good [OF k(2)] k(3) u t by (auto simp: kv_good_def s'_def delete_conv' split: if_splits)
  ultimately have "inv act s'" by (simp add: own_inv_def)
  moreover have "managed s' = managed s - {i}"
  proof -
    have "i \<notin> pooled_ids s" using places_disjoint(1) [OF p] b by (auto simp: bound_ids_def)
    then show ?thesis using u t by (auto simp: managed_def bound_ids_def pooled_ids_def s'_def delete_conv' split: if_splits)
  qed
  moreover have "owner (kv s') = (owner (kv s))(i := None)" using k(3) u t by (simp add: s'_def)
  ultimately show ?thesis using run by blast
qed

text \<open>Releasing a managed request that is not in flight cannot fail, and nothing of it is left.\<close>

lemma own_same_fields:
  fixes t u :: "('m, 'l, 's, 'w) constructor"
  assumes t: "inv act t" and u: "scheduler_config u = scheduler_config t" "replicas u = replicas t"
      "onloading_reqs u = onloading_reqs t" "bound_requests u = bound_requests t" "has_padder u = has_padder t"
      "prev_dp_padding u = prev_dp_padding t" "current_dp_padding u = current_dp_padding t" "store u = store t"
      "ce_pending u = ce_pending t" "grammar_pending u = grammar_pending t" "gate u = None \<longleftrightarrow> gate t = None" "kv u = kv t"
  shows "inv act u \<and> managed u = managed t"
proof -
  have pt: "places_ok act t" by (rule own_places [OF t])
  have po: "pooled_ids u = pooled_ids t" using u by (simp add: pooled_ids_def)
  have "places_ok act u"
    by (rule places_pools [OF pt]) (use u po places_ids [OF pt] places_disjoint [OF pt] in simp_all)
  then have "inv act u" using u by (intro own_places_kv [OF t]) simp_all
  then show ?thesis using po u by (simp add: managed_def bound_ids_def)
qed

lemma release_request_own:
  assumes inv: "inv act s" and E: "env_kv E = K" and m: "i \<in> managed s" and i: "i \<notin> act"
  shows "\<exists>s'. release_request E i s = Inr s' \<and> inv act s' \<and> managed s' = managed s - {i} \<and> owner (kv s') i = None"
proof -
  have p: "places_ok act s" by (rule own_places [OF inv])
  have c: "contains i s" using contains_managed [OF p] m by simp
  have none: "owner (kv s) i = None" if "i \<notin> bound_ids s"
    using that own_kv_good [OF inv] by (auto simp: kv_good_def bound_ids_def)
  consider (grammar) "map_of (grammar_pending s) i \<noteq> None"
    | (pool) "map_of (grammar_pending s) i = None" "map_of (ce_pending s) i \<noteq> None"
    | (bound) r where "map_of (grammar_pending s) i = None" "map_of (ce_pending s) i = None" "map_of (bound_requests s) i = Some r"
    using m by (auto simp: managed_def bound_ids_def pooled_ids_def)
  then show ?thesis
  proof cases
    case grammar
    let ?t = "s\<lparr>grammar_pending := AList.delete i (grammar_pending s)\<rparr>"
    have L: "inv act ?t" "managed ?t = managed s - {i}" using own_leave_grammar_pool [OF inv grammar] by blast+
    have "grammar_pending s \<noteq> []" using grammar by auto
    then obtain g where g: "gate s = Some g" using places_disjoint(3) [OF p] by blast
    let ?u = "pipeline_release i (?t\<lparr>gate := Some (gate_release i g)\<rparr>)"
    have "inv act ?u \<and> managed ?u = managed ?t"
      by (rule own_same_fields [OF L(1)]) (simp_all add: pipeline_release_def g)
    moreover have "kv ?u = kv s" by (simp add: pipeline_release_def)
    moreover have "i \<notin> bound_ids s" using grammar places_disjoint(1) [OF p] by (auto simp: pooled_ids_def)
    moreover have "release_request E i s = Inr ?u" using grammar c g by (simp add: release_request_def)
    ultimately show ?thesis using L(2) none by auto
  next
    case pool
    let ?t = "s\<lparr>ce_pending := AList.delete i (ce_pending s)\<rparr>"
    have L: "inv act ?t" "managed ?t = managed s - {i}" using own_leave_ce_pool [OF inv pool(2)] by blast+
    let ?u = "pipeline_release i (s\<lparr>ce_pending := AList.delete i (ce_pending s), ce_arrival := AList.delete i (ce_arrival s)\<rparr>)"
    have "inv act ?u \<and> managed ?u = managed ?t"
      by (rule own_same_fields [OF L(1)]) (simp_all add: pipeline_release_def)
    moreover have "kv ?u = kv s" by (simp add: pipeline_release_def)
    moreover have "i \<notin> bound_ids s" using pool places_disjoint(1) [OF p] by (auto simp: pooled_ids_def)
    moreover have "release_request E i s = Inr ?u" using pool c by (simp add: release_request_def)
    ultimately show ?thesis using L(2) none by auto
  next
    case (bound r)
    then show ?thesis
      using release_bound_own [OF inv E bound(3) i, of "AList.delete i (ce_arrival s)"] c
      by (auto simp: release_request_def Let_def)
  qed
qed

end

section \<open>After the batch\<close>

text \<open>The requests of a batch return to the token-generation queue of their replica.\<close>

lemma advance_fold_own:
  assumes "own_inv ok owner nrep act s" and "r < length (replicas s)"
    and "set ids \<subseteq> act \<union> set (tg_reqs (replicas s ! r))" and "\<forall>i \<in> set ids. map_of (bound_requests s) i = Some r"
    and "s' = foldl (\<lambda>s i. if contains i s
                  then upd_replica r (\<lambda>q. q\<lparr>tg_reqs := od_put i (tg_reqs q)\<rparr>) s else s) s ids"
  shows "own_inv ok owner nrep (act - set ids) s' \<and> frame r s s' \<and> set ids \<subseteq> set (tg_reqs (replicas s' ! r))
    \<and> set (tg_reqs (replicas s ! r)) \<subseteq> set (tg_reqs (replicas s' ! r))"
  using assms
proof (induction ids arbitrary: act s)
  case (Cons i ids)
  let ?f = "\<lambda>q. q\<lparr>tg_reqs := od_put i (tg_reqs q)\<rparr>"
  let ?s = "upd_replica r ?f s"
  note p = own_places [OF Cons.prems(1)] and r = Cons.prems(2)
  have b: "map_of (bound_requests s) i = Some r" using Cons.prems(4) by simp
  have c: "contains i s" using contains_managed [OF p] b by (auto simp: managed_def bound_ids_def)
  have s': "s' = foldl (\<lambda>s i. if contains i s
                  then upd_replica r (\<lambda>q. q\<lparr>tg_reqs := od_put i (tg_reqs q)\<rparr>) s else s) ?s ids"
    using Cons.prems(5) c by simp
  have "places_ok (act - {i}) ?s"
  proof (cases "i \<in> set (tg_reqs (replicas s ! r))")
    case True
    then have "i \<notin> act" using places_not_in_queue [OF p _ r, of i] by (auto simp: queue_ids_def)
    then show ?thesis using True by (auto intro!: places_same [OF p r] simp: od_put_def queue_ids_def)
  next
    case False
    then have ia: "i \<in> act" using Cons.prems(3) by auto
    have "mset (queue_ids (?f (replicas s ! r))) = add_mset i (mset (queue_ids (replicas s ! r)))"
      using False by (simp add: od_put_def queue_ids_def)
    then show ?thesis by (rule places_give [where f = ?f, OF p r ia b])
  qed
  then have i1: "own_inv ok owner nrep (act - {i}) ?s" by (rule own_upd [OF own_kv_good [OF Cons.prems(1)]])
  have tg: "set (tg_reqs (replicas ?s ! r)) = insert i (set (tg_reqs (replicas s ! r)))"
    using r by (auto simp: replicas_upd_replica od_put_def)
  have "own_inv ok owner nrep (act - {i} - set ids) s' \<and> frame r ?s s' \<and> set ids \<subseteq> set (tg_reqs (replicas s' ! r)) \<and>
      set (tg_reqs (replicas ?s ! r)) \<subseteq> set (tg_reqs (replicas s' ! r))"
    using Cons.prems(2,3,4) tg by (intro Cons.IH [OF i1 _ _ _ s']) auto
  then show ?case using tg frame_trans [OF frame_upd] by (auto simp: Diff_insert2 [symmetric])
qed simp

lemma advance_replica_own:
  assumes inv: "own_inv ok owner nrep act s" and r: "r < length (replicas s)"
    and sub: "set ids \<subseteq> act \<union> set (tg_reqs (replicas s ! r))" and b: "\<forall>i \<in> set ids. map_of (bound_requests s) i = Some r"
  shows "own_inv ok owner nrep (act - set ids) (advance_replica r ids s) \<and> frame r s (advance_replica r ids s)"
proof (cases "ids = []")
  case True
  then show ?thesis using inv by (simp add: advance_replica_def)
next
  case False
  define s1 where "s1 = foldl (\<lambda>s i. if contains i s
                  then upd_replica r (\<lambda>q. q\<lparr>tg_reqs := od_put i (tg_reqs q)\<rparr>) s else s) s ids"
  have F: "own_inv ok owner nrep (act - set ids) s1" "frame r s s1" "set ids \<subseteq> set (tg_reqs (replicas s1 ! r))"
    using advance_fold_own [OF inv r sub b s1_def] by simp_all
  let ?l = "last ids"
  let ?f = "\<lambda>q. q\<lparr>tg_reqs := od_del ?l (tg_reqs q), ce_reqs := od_front ?l (ce_reqs q)\<rparr>"
  have r1: "r < length (replicas s1)" using frame_length [OF F(2)] r by simp
  have d: "distinct (queue_ids (replicas s1 ! r))" by (rule queue_distinct [OF own_places [OF F(1)] r1])
  have l: "?l \<in> set (tg_reqs (replicas s1 ! r))" using F(3) False by auto
  have "mset (tg_reqs (replicas s1 ! r)) = add_mset ?l (mset (removeAll ?l (tg_reqs (replicas s1 ! r))))"
    using l d by (simp add: queue_ids_def distinct_remove1_removeAll [symmetric])
  moreover have "?l \<notin> set (ce_reqs (replicas s1 ! r))" using l d by (auto simp: queue_ids_def)
  ultimately have m: "mset (queue_ids (?f (replicas s1 ! r))) = mset (queue_ids (replicas s1 ! r))"
    by (simp add: queue_ids_def od_front_def)
  have "own_inv ok owner nrep (act - set ids) (upd_replica r ?f s1)"
    by (rule own_upd [OF own_kv_good [OF F(1)]]) (rule places_same [where f = ?f, OF own_places [OF F(1)] r1 m])
  then show ?thesis
    using F frame_trans [OF F(2) frame_upd] False by (simp add: advance_replica_def Let_def s1_def [symmetric])
qed

end
