(* ===== verification/Scheduler_Invariant.thy ===== *)
theory Scheduler_Invariant
  imports Admission
begin

text \<open>
  The ownership invariant over a whole iteration of the scheduler, and over every state the serving
  loop can reach: requests arrive, are cancelled, grammars finish compiling, and iterations run, in
  any order. The pipeline is any that keeps the contexts' identities and the cache's owners.
\<close>

section \<open>The batches of all replicas\<close>

text \<open>
  \<open>act\<close> are the requests popped for these batches: every request of a batch is bound to the batch's
  replica and is popped or still in its token-generation queue.
\<close>

definition batches_ok :: "request_id set \<Rightarrow> request_id list list \<Rightarrow> ('m, 'l, 's, 'w) constructor \<Rightarrow> bool" where
  "batches_ok act bs s \<longleftrightarrow> length bs = length (replicas s) \<and> act \<subseteq> set (concat bs) \<and>
     (\<forall>r < length bs. distinct (bs ! r) \<and> set (bs ! r) \<subseteq> act \<union> set (tg_reqs (replicas s ! r)) \<and>
        (\<forall>i \<in> set (bs ! r). map_of (bound_requests s) i = Some r))"

text \<open>What forming the batches of the replicas \<open>rs\<close> leaves.\<close>

definition replicas_progress ::
  "request_id set \<Rightarrow> nat list \<Rightarrow> ('m, 'l, 's, 'w) constructor \<Rightarrow> request_id list list \<Rightarrow> ('m, 'l, 's, 'w) constructor \<Rightarrow> bool" where
  "replicas_progress act' rs s bs s' \<longleftrightarrow> length bs = length rs \<and> same_static s s' \<and>
     (\<forall>k. k \<notin> set rs \<longrightarrow> tg_reqs (replicas s' ! k) = tg_reqs (replicas s ! k)) \<and>
     (\<forall>(r, ids) \<in> set (zip rs bs). distinct ids \<and> set ids \<subseteq> act' \<union> set (tg_reqs (replicas s' ! r)) \<and>
        (\<forall>i \<in> set ids. map_of (bound_requests s') i = Some r))"

context kv_cache_contract
begin

lemma construct_replicas_own:
  assumes E: "env_kv E = K"
  shows "inv act s \<Longrightarrow> \<forall>r \<in> set rs. r < length (replicas s) \<Longrightarrow> distinct rs \<Longrightarrow>
    construct_replicas E ov rs s = Inr (bs, s') \<Longrightarrow>
    \<exists>act'. inv act' s' \<and> act \<subseteq> act' \<and> act' \<subseteq> act \<union> set (concat bs) \<and> replicas_progress act' rs s bs s'"
proof (induction rs arbitrary: act s bs)
  case Nil
  then show ?case by (auto simp: replicas_progress_def)
next
  case (Cons r rs)
  from Cons.prems(4) obtain b s1 bs1 where c: "construct_replica_batch E r ov s = Inr (b, s1)"
    and rest: "construct_replicas E ov rs s1 = Inr (bs1, s')" and bs: "bs = batch b # bs1"
    by (auto simp: bind_r_eq_Inr)
  have r: "r < length (replicas s)" using Cons.prems(2) by simp
  obtain act1 where B: "inv act1 s1" "frame r s s1" "act \<subseteq> act1" "act1 \<subseteq> act \<union> set (batch b)" "distinct (batch b)"
      "set (batch b) \<subseteq> (act1 - act) \<union> set (tg_reqs (replicas s1 ! r))" "\<forall>i \<in> set (batch b). map_of (bound_requests s1) i = Some r"
    using construct_replica_own [OF Cons.prems(1) E r c] unfolding batch_progress_def by blast
  have "\<forall>r \<in> set rs. r < length (replicas s1)" using Cons.prems(2) frame_length [OF B(2)] by simp
  then obtain act' where A: "inv act' s'" "act1 \<subseteq> act'" "act' \<subseteq> act1 \<union> set (concat bs1)" "replicas_progress act' rs s1 bs1 s'"
    using Cons.IH [OF B(1) _ _ rest] Cons.prems(3) by auto
  have st: "same_static s s'" and tg: "\<forall>k. k \<notin> set rs \<longrightarrow> tg_reqs (replicas s' ! k) = tg_reqs (replicas s1 ! k)"
    using A(4) B(2) same_static_trans by (auto simp: replicas_progress_def frame_def)
  have bd: "bound_requests s' = bound_requests s1" using A(4) by (simp add: replicas_progress_def same_static_def)
  have "replicas_progress act' (r # rs) s bs s'"
    unfolding replicas_progress_def
  proof (intro conjI)
    show "length bs = length (r # rs)" using A(4) by (simp add: bs replicas_progress_def)
    show "same_static s s'" by (rule st)
    show "\<forall>k. k \<notin> set (r # rs) \<longrightarrow> tg_reqs (replicas s' ! k) = tg_reqs (replicas s ! k)"
      using tg B(2) by (simp add: frame_def)
    have "set (batch b) \<subseteq> act' \<union> set (tg_reqs (replicas s' ! r))" using B(6) A(2) tg Cons.prems(3) by auto
    then show "\<forall>(r, ids) \<in> set (zip (r # rs) bs). distinct ids \<and> set ids \<subseteq> act' \<union> set (tg_reqs (replicas s' ! r)) \<and>
        (\<forall>i \<in> set ids. map_of (bound_requests s') i = Some r)"
      using A(4) B(5,7) bd by (auto simp: bs replicas_progress_def)
  qed
  then show ?case using A B(3,4) by (intro exI [of _ act']) (auto simp: bs)
qed

lemma construct_batch_own:
  assumes inv: "inv {} s" and E: "env_kv E = K" and run: "construct_batch E s = Inr (bs, s')"
  shows "\<exists>act. inv act s' \<and> batches_ok act bs s' \<and> managed s' \<subseteq> managed s"
proof -
  obtain s1 s2 s3 ov bs4 s4 where r1: "readmit_completed_onloads E s = Inr s1" and r2: "promote_grammar_ready_requests E s1 = Inr s2"
    and r3: "plan_ce_step E s2 = Inr s3" and r4: "construct_replicas E ov [0..<ctx_num_replicas s3] s3 = Inr (bs4, s4)"
    and rest: "(if has_padder s4 then
       bind_r (pad_batch E bs4 s4) (\<lambda>(batches, dummies, s). Inr (batches, s\<lparr>current_dp_padding := dummies\<rparr>))
     else Inr (bs4, s4)) = Inr (bs, s')"
    using run unfolding construct_batch_def by (auto simp only: bind_r_eq_Inr prod.case)
  note I1 = readmit_own [OF inv r1]
  note I2 = promote_own [OF I1 [THEN conjunct1] r2]
  note I3 = plan_ce_step_own [OF I2 [THEN conjunct1] r3]
  have n: "ctx_num_replicas s3 = length (replicas s3)"
    using own_places [OF I3 [THEN conjunct1]] unfolding places_ok_def by (elim conjE)
  have "\<forall>r \<in> set [0..<ctx_num_replicas s3]. r < length (replicas s3)" using n by simp
  from construct_replicas_own [OF E I3 [THEN conjunct1] this distinct_upt r4]
  obtain act where A: "inv act s4" "act \<subseteq> set (concat bs4)"
      "replicas_progress act [0..<ctx_num_replicas s3] s3 bs4 s4"
    by auto
  have "\<not> has_padder s4"
    using own_places [OF A(1)] unfolding places_ok_def by (elim conjE)
  then have s4: "s4 = s'" "bs4 = bs" using rest by simp_all
  have len: "length bs = length (replicas s')" "length bs = ctx_num_replicas s3"
    using A(3) n by (simp_all add: s4 replicas_progress_def same_static_def)
  have el: "(r, bs ! r) \<in> set (zip [0..<ctx_num_replicas s3] bs)" if "r < length bs" for r
    using that len(2) by (force simp: set_zip)
  have "batches_ok act bs s'"
    using A(2,3) len(1) el by (fastforce simp: batches_ok_def replicas_progress_def s4)
  moreover have "managed s' = managed s3"
    using A(3) same_static_ids [of s3 s'] by (simp add: replicas_progress_def s4)
  ultimately show ?thesis using A(1) I1 I2 I3 by (auto simp: s4)
qed

text \<open>Advancing puts every request of the batches back: nothing is in flight afterwards.\<close>

lemma advance_fold_replicas:
  assumes "inv act s" and "r0 + length bs = length (replicas s)"
    and "\<forall>k < length bs. set (bs ! k) \<subseteq> act \<union> set (tg_reqs (replicas s ! (r0 + k))) \<and>
      (\<forall>i \<in> set (bs ! k). map_of (bound_requests s) i = Some (r0 + k))"
  shows "inv (act - set (concat bs)) (foldl (\<lambda>s (r, b). advance_replica r b s) s (enumerate r0 bs)) \<and>
    same_static s (foldl (\<lambda>s (r, b). advance_replica r b s) s (enumerate r0 bs))"
  using assms
proof (induction bs arbitrary: act s r0)
  case (Cons b bs)
  let ?s = "advance_replica r0 b s"
  have r: "r0 < length (replicas s)" using Cons.prems(2) by simp
  have b: "set b \<subseteq> act \<union> set (tg_reqs (replicas s ! r0))" "\<forall>i \<in> set b. map_of (bound_requests s) i = Some r0"
    using Cons.prems(3) [rule_format, of 0] by simp_all
  have A: "inv (act - set b) ?s" "frame r0 s ?s" using advance_replica_own [OF Cons.prems(1) r b] by simp_all
  have tail: "\<forall>k < length bs. set (bs ! k) \<subseteq> act - set b \<union> set (tg_reqs (replicas ?s ! (Suc r0 + k))) \<and>
      (\<forall>i \<in> set (bs ! k). map_of (bound_requests ?s) i = Some (Suc r0 + k))"
  proof (intro allI impI)
    fix k
    assume "k < length bs"
    then have k: "set (bs ! k) \<subseteq> act \<union> set (tg_reqs (replicas s ! (Suc r0 + k)))"
        "\<forall>i \<in> set (bs ! k). map_of (bound_requests s) i = Some (Suc r0 + k)"
      using Cons.prems(3) [rule_format, of "Suc k"] by simp_all
    have "set (bs ! k) \<inter> set b = {}" using k(2) b(2) by fastforce
    then show "set (bs ! k) \<subseteq> act - set b \<union> set (tg_reqs (replicas ?s ! (Suc r0 + k))) \<and>
      (\<forall>i \<in> set (bs ! k). map_of (bound_requests ?s) i = Some (Suc r0 + k))"
      using k A(2) frame_bound [OF A(2)] by (auto simp: frame_def)
  qed
  have "Suc r0 + length bs = length (replicas ?s)" using Cons.prems(2) frame_length [OF A(2)] by simp
  from Cons.IH [OF A(1) this tail] show ?case
    using A(2) same_static_trans by (auto simp: frame_def Diff_Un [symmetric] Un_Diff set_diff_eq Diff_Diff_Int Diff_eq Int_assoc)
qed simp

lemma advance_requests_own:
  assumes inv: "inv act s" and b: "batches_ok act bs s" and run: "advance_requests E bs s = Inr s'"
  shows "inv {} s' \<and> managed s' = managed s"
proof -
  note D = own_places [OF inv, unfolded places_ok_def]
  have none: "prev_dp_padding s = None" using D by (elim conjE)
  have none': "current_dp_padding s = None" using D by (elim conjE)
  have "release_data_parallel_padding E s = Inr s"
    using none none' by (cases s) (simp add: release_data_parallel_padding_def)
  then have s': "s' = foldl (\<lambda>s (r, b). advance_replica r b s) s (enumerate 0 bs)"
    using run by (auto simp: advance_requests_def raise_if_eq_Inr)
  have "0 + length bs = length (replicas s)" using b by (simp add: batches_ok_def)
  from advance_fold_replicas [OF inv this] b
  have I: "inv (act - set (concat bs)) s'" and st: "same_static s s'" by (auto simp: s' batches_ok_def)
  have "act - set (concat bs) = {}" using b by (auto simp: batches_ok_def)
  from I [unfolded this] show ?thesis using same_static_ids [OF st] by simp
qed

end

section \<open>One iteration\<close>

text \<open>
  What is asked of the pipeline: executing a batch may change the tokens of contexts and the contents
  of KV blocks, but claims and releases no request, and a context keeps its request id.
\<close>

definition pipeline_keeps ::
  "('s \<Rightarrow> bool) \<Rightarrow> ('s \<Rightarrow> request_id \<Rightarrow> nat option) \<Rightarrow> ('s \<Rightarrow> nat) \<Rightarrow> ('m, 'l, 's) pipeline_env \<Rightarrow> bool" where
  "pipeline_keeps ok owner nrep X \<longleftrightarrow> (\<forall>inputs st k out st' k'. execute X inputs st k = Inr (out, st', k') \<longrightarrow>
     ok k \<longrightarrow> (\<forall>i. rid (st i) = i) \<longrightarrow>
     ok k' \<and> owner k' = owner k \<and> nrep k' = nrep k \<and> (\<forall>i. rid (st' i) = i))"

definition sched_inv ::
  "('s \<Rightarrow> bool) \<Rightarrow> ('s \<Rightarrow> request_id \<Rightarrow> nat option) \<Rightarrow> ('s \<Rightarrow> nat) \<Rightarrow> ('m, 'l, 's, 'w) scheduler \<Rightarrow> bool" where
  "sched_inv ok owner nrep S \<longleftrightarrow> own_inv ok owner nrep {} (batch_constructor S) \<and>
     distinct (request_queue S) \<and> set (request_queue S) \<inter> managed (batch_constructor S) = {}"

lemma drain_queue_parts: "drain_queue q n = (a, b) \<Longrightarrow> a @ b = q"
  by (cases n) auto

lemma retrieve_own:
  assumes S: "sched_inv ok owner nrep S" and run: "retrieve_pending_requests E S = Inr S'"
  shows "sched_inv ok owner nrep S'"
proof -
  have "S' = S \<or> (\<exists>n s. fold_r (\<lambda>s i. enqueue_new_request E i None s) (batch_constructor S)
        (fst (drain_queue (request_queue S) n)) = Inr s \<and>
      S' = S\<lparr>batch_constructor := s, request_queue := snd (drain_queue (request_queue S) n)\<rparr>)"
    using run unfolding retrieve_pending_requests_def Let_def split_beta
    by (simp only: bind_r_eq_Inr sum.inject split: if_splits) blast+
  then consider "S' = S" | items rest s n where "drain_queue (request_queue S) n = (items, rest)"
      "fold_r (\<lambda>s i. enqueue_new_request E i None s) (batch_constructor S) items = Inr s"
      "S' = S\<lparr>batch_constructor := s, request_queue := rest\<rparr>"
    by (metis prod.collapse)
  then show ?thesis
  proof cases
    case 2
    have q: "request_queue S = items @ rest" using drain_queue_parts [OF 2(1)] by simp
    have "own_inv ok owner nrep {} s \<and> managed s \<subseteq> set items \<union> managed (batch_constructor S)"
      if "own_inv ok owner nrep {} t" "distinct xs" "set xs \<inter> managed t = {}"
        "managed t \<subseteq> set items \<union> managed (batch_constructor S)" "set xs \<subseteq> set items"
        "fold_r (\<lambda>s i. enqueue_new_request E i None s) t xs = Inr s" for t xs
      using that
    proof (induction xs arbitrary: t)
      case (Cons i xs)
      from Cons.prems(6) obtain t1 where e: "enqueue_new_request E i None t = Inr t1"
        and r: "fold_r (\<lambda>s i. enqueue_new_request E i None s) t1 xs = Inr s"
        by (auto simp: bind_r_eq_Inr)
      have "own_inv ok owner nrep {} t1 \<and> managed t1 \<subseteq> insert i (managed t)"
        using Cons.prems(3) by (intro enqueue_own [OF Cons.prems(1) _ e]) simp
      then show ?case using Cons.prems(2-5) by (intro Cons.IH [OF _ _ _ _ _ r]) auto
    qed simp
    from this [OF _ _ _ _ _ 2(2)] have "own_inv ok owner nrep {} s \<and> managed s \<subseteq> set items \<union> managed (batch_constructor S)"
      using S q by (auto simp: sched_inv_def)
    then show ?thesis using S q 2(3) by (auto simp: sched_inv_def)
  qed (use S in simp)
qed

context kv_cache_contract
begin

abbreviation sinv :: "('m, 'l, 's, 'w) scheduler \<Rightarrow> bool" where
  "sinv \<equiv> sched_inv ok owner nrep"

lemma release_if_done:
  assumes "inv {} s" and "env_kv E = K" and "release_request E i s = Inr s'"
  shows "inv {} s' \<and> managed s' \<subseteq> managed s"
proof -
  have "contains i s" using assms(3) by (auto simp: release_request_def raise_if_eq_Inr)
  then have "i \<in> managed s" using contains_managed [OF own_places [OF assms(1)]] by simp
  from release_request_own [OF assms(1,2) this] assms(3) show ?thesis by auto
qed

text \<open>Only the constructor and the queues matter to the invariant.\<close>

lemma sinv_intro:
  assumes "sinv S" and "inv {} (batch_constructor S')" and "managed (batch_constructor S') \<subseteq> managed (batch_constructor S)"
    and "request_queue S' = request_queue S"
  shows "sinv S'"
  using assms by (auto simp: sched_inv_def)

lemma execute_own:
  assumes inv: "inv act s" and b: "batches_ok act bs s" and X: "pipeline_keeps ok owner nrep X"
    and run: "execute X bs (store s) (kv s) = Inr (out, st, k)"
  shows "inv act (s\<lparr>store := st, kv := k\<rparr>) \<and> batches_ok act bs (s\<lparr>store := st, kv := k\<rparr>) \<and>
    managed (s\<lparr>store := st, kv := k\<rparr>) = managed s"
proof -
  let ?s = "s\<lparr>store := st, kv := k\<rparr>"
  have p: "places_ok act s" by (rule own_places [OF inv])
  have g: "kv_good ok owner nrep s" by (rule own_kv_good [OF inv])
  have k: "ok k" "owner k = owner (kv s)" "nrep k = nrep (kv s)" "\<And>i. rid (st i) = i"
    using X [unfolded pipeline_keeps_def] run g places_ids [OF p] by (auto simp: kv_good_def)
  have "places_ok act ?s"
    by (rule places_frame [OF p]) (use k(4) in \<open>simp_all add: same_static_def same_queues_def\<close>)
  then have "inv act ?s" using g k by (simp add: own_inv_def kv_good_def)
  then show ?thesis using b by (simp add: batches_ok_def managed_def bound_ids_def pooled_ids_def)
qed

lemma schedule_own:
  assumes inv: "inv act (batch_constructor S)" and E: "env_kv E = K" and X: "pipeline_keeps ok owner nrep X"
    and b: "batches_ok act bs (batch_constructor S)" and run: "schedule E X bs S = Inr S'"
  shows "inv {} (batch_constructor S') \<and> managed (batch_constructor S') \<subseteq> managed (batch_constructor S) \<and>
    request_queue S' = request_queue S"
proof -
  let ?s = "batch_constructor S"
  obtain out st k s1 s2 resp where ex: "execute X bs (store ?s) (kv ?s) = Inr (out, st, k)"
    and ad: "advance_requests E bs (?s\<lparr>store := st, kv := k\<rparr>) = Inr s1"
    and rel: "fold_r (\<lambda>s (i, done). if done then release_request E i s else Inr s) s1 resp = Inr s2"
    and S': "batch_constructor S' = s2" "request_queue S' = request_queue S"
    using run by (auto simp: schedule_def Let_def bind_r_eq_Inr)
  have E1: "inv act (?s\<lparr>store := st, kv := k\<rparr>)" "batches_ok act bs (?s\<lparr>store := st, kv := k\<rparr>)"
      "managed (?s\<lparr>store := st, kv := k\<rparr>) = managed ?s"
    using execute_own [OF inv b X ex] by blast+
  note A = advance_requests_own [OF E1(1,2) ad]
  have "inv {} s2 \<and> managed s2 \<subseteq> managed s1"
  proof (rule fold_r_invariant [OF rel])
    fix t x t'
    assume "inv {} t \<and> managed t \<subseteq> managed s1" and "(case x of (i, done) \<Rightarrow> if done then release_request E i t else Inr t) = Inr t'"
    then show "inv {} t' \<and> managed t' \<subseteq> managed s1"
      using release_if_done [of t E "fst x" t'] E by (auto split: prod.splits if_splits)
  qed (use A in simp)
  then show ?thesis using A E1(3) S' by auto
qed

lemma cancel_own:
  assumes S: "sinv S" and E: "env_kv E = K" and run: "cancel_requests E S = Inr S'"
  shows "sinv S'"
proof (rule fold_r_invariant [OF run [unfolded cancel_requests_def Let_def]])
  show "sinv (S\<lparr>cancel_queue := []\<rparr>)" using S by (simp add: sched_inv_def)
  fix T i T'
  assume T: "sinv T" and st: "(if contains i (batch_constructor T)
        then bind_r (release_request E i (batch_constructor T))
          (\<lambda>s. Inr (respond i ResultCancelled (T\<lparr>batch_constructor := s\<rparr>)))
        else Inr T) = Inr T'"
  show "sinv T'"
  proof (cases "contains i (batch_constructor T)")
    case True
    with st obtain s where s: "release_request E i (batch_constructor T) = Inr s"
      and T': "T' = respond i ResultCancelled (T\<lparr>batch_constructor := s\<rparr>)"
      by (auto simp: bind_r_eq_Inr)
    have "inv {} s \<and> managed s \<subseteq> managed (batch_constructor T)"
      using T by (intro release_if_done [OF _ E s]) (simp add: sched_inv_def)
    then show ?thesis by (intro sinv_intro [OF T]) (simp_all add: T' respond_def)
  qed (use T st in simp)
qed

lemma respond_all:
  "batch_constructor (foldl (\<lambda>S (i, err). respond i (ResultFailed err) S) S xs) = batch_constructor S"
  "request_queue (foldl (\<lambda>S (i, err). respond i (ResultFailed err) S) S xs) = request_queue S"
  by (induction xs arbitrary: S) (auto simp: respond_def)

lemma run_iteration_own:
  assumes S: "sinv S" and E: "env_kv E = K" and X: "pipeline_keeps ok owner nrep X"
    and run: "run_iteration E X S = Inr (pr, S')"
  shows "sinv S'"
proof -
  obtain S1 bs s where r1: "retrieve_pending_requests E S = Inr S1"
    and r2: "construct_batch E (batch_constructor S1) = Inr (bs, s)"
    and rest: "(let S = foldl (\<lambda>S (i, err). respond i (ResultFailed err) S)
          (S1\<lparr>batch_constructor := s\<lparr>grammar_failed := []\<rparr>\<rparr>) (grammar_failed s)
     in if \<not> (concat bs \<noteq> [] \<or> support_empty_batches S \<or> has_pending_outputs X) then Inr (NO_PROGRESS, S)
        else bind_r (schedule E X bs S) (\<lambda>S. bind_r (cancel_requests E S) (\<lambda>S. Inr (MADE_PROGRESS, S)))) = Inr (pr, S')"
    using run by (auto simp: run_iteration_def take_grammar_failed_def bind_r_eq_Inr)
  define S2 where "S2 = foldl (\<lambda>S (i, err). respond i (ResultFailed err) S)
          (S1\<lparr>batch_constructor := s\<lparr>grammar_failed := []\<rparr>\<rparr>) (grammar_failed s)"
  have S1: "sinv S1" by (rule retrieve_own [OF S r1])
  obtain act where A: "inv act s" "batches_ok act bs s" "managed s \<subseteq> managed (batch_constructor S1)"
    using construct_batch_own [OF _ E r2] S1 by (auto simp: sched_inv_def)
  let ?s = "s\<lparr>grammar_failed := []\<rparr>"
  have p: "places_ok act s" by (rule own_places [OF A(1)])
  have "places_ok act ?s"
  proof (rule places_pools [OF p])
    have "pooled_ids ?s = pooled_ids s" by (simp add: pooled_ids_def)
    then show "bound_ids s \<inter> pooled_ids ?s = {}" using places_disjoint(1) [OF p] by simp
  qed (simp_all add: places_ids [OF p] places_disjoint(2,3) [OF p])
  then have si: "inv act ?s" by (rule own_places_kv [OF A(1)]) simp_all
  have bs: "batches_ok act bs ?s" using A(2) by (simp add: batches_ok_def)
  have ms: "managed ?s = managed s" by (simp add: managed_def bound_ids_def pooled_ids_def)
  have S2: "batch_constructor S2 = ?s" "request_queue S2 = request_queue S1" by (simp_all add: S2_def respond_all)
  show ?thesis
  proof (cases "concat bs \<noteq> [] \<or> support_empty_batches S2 \<or> has_pending_outputs X")
    case True
    have "bind_r (schedule E X bs S2) (\<lambda>S. bind_r (cancel_requests E S) (\<lambda>S. Inr (MADE_PROGRESS, S))) = Inr (pr, S')"
      using rest True unfolding Let_def S2_def [symmetric] by argo
    then obtain S3 where sc: "schedule E X bs S2 = Inr S3" and ca: "cancel_requests E S3 = Inr S'"
      by (auto simp: bind_r_eq_Inr)
    have "sinv S3"
      using schedule_own [OF _ E X _ sc] si bs S2 A(3) ms by (intro sinv_intro [OF S1]) auto
    then show ?thesis by (rule cancel_own [OF _ E ca])
  next
    case False
    then have S': "S' = S2" and e: "concat bs = []" using rest by (auto simp: Let_def S2_def [symmetric])
    have "act \<subseteq> set (concat bs)" using A(2) by (simp only: batches_ok_def)
    then have "act = {}" unfolding e by simp
    then show ?thesis using si S2 A(3) ms by (intro sinv_intro [OF S1]) (simp_all add: S')
  qed
qed

end

end
