(* ===== verification/Serving_Example.thy ===== *)
theory Serving_Example
  imports Scheduler Cache_Properties
begin

text \<open>
  Small concrete systems on which the properties of the batch constructor and the scheduler are
  exercised: one replica that serves a request, and two replicas with context-encoding balance.
\<close>

section \<open>One replica\<close>

text \<open>One replica with four pages of two tokens; every context has a prompt of three tokens; no request ever finishes.\<close>

definition run_config :: scheduler_config where
  "run_config = \<lparr>max_batch_size = 2, target_tokens_per_batch_ce = 8, max_seq_len = None, max_batch_total_tokens = None,
     enable_chunked_prefill = False, chunked_prefill_min_chunk_size = 0, enable_in_flight_batching = False,
     data_parallel_degree = 1, dp_ce_balance_timeout_ms = -1, dp_ce_balance_threshold = 0,
     dp_ce_balance_enable_dynamic_chunk_size = False\<rparr>"

definition run_store :: "request_id \<Rightarrow> (unit, unit) any_context" where
  "run_store i = TextCtx (TextContext_default i 100 (example_buffer\<lparr>array := [1, 2, 3],
     processing_range := \<lparr>r_start = 0, r_end = 3\<rparr>, prompt_length := 3, current_length := 3\<rparr>))"

definition run_env :: "(unit, unit, unit cache_manager) sched_env" where
  "run_env = \<lparr>env_kv = paged_kv toy_prims NullConnector,
     env_backend = \<lparr>backend_name = [], create_matcher = (\<lambda>_. Inr ()), compile_json_schema = Inr\<rparr>,
     env_consume = (\<lambda>m ts. (int (length ts), m)), env_junk = (\<lambda>_. 0), env_fresh = (\<lambda>n. of_nat n + 100), env_now = 0\<rparr>"

definition run_pipeline :: "(unit, unit, unit cache_manager) pipeline_env" where
  "run_pipeline = \<lparr>execute = (\<lambda>inputs st k. Inr (map (\<lambda>i. (i, False)) (concat inputs), st, k)), has_pending_outputs = False\<rparr>"

definition run_start :: "(unit, unit, unit cache_manager, unit) scheduler result" where
  "run_start = bind_r (PagedKVCacheManager_init example_params 1 4 8 False False ()) (\<lambda>cache.
     bind_r (TextBatchConstructor_init run_config PER_REPLICA 1 None run_store cache None None None) (\<lambda>s.
       Inr \<lparr>batch_constructor = s, request_queue = [], cancel_queue = [], response_queue = [],
         max_pending_requests = None, support_empty_batches = False, batch_counter = 0\<rparr>))"

definition run_submitted :: "(unit, unit, unit cache_manager, unit) scheduler result" where
  "run_submitted = bind_r run_start (\<lambda>S. Inr (S\<lparr>batch_constructor := put_ctx 1 (run_store 1) (batch_constructor S),
     request_queue := request_queue S @ [1]\<rparr>))"

definition run_done :: "(scheduler_progress \<times> (unit, unit, unit cache_manager, unit) scheduler) result" where
  "run_done = bind_r run_submitted (run_iteration run_env run_pipeline)"

text \<open>The constructor after the request entered the queue of its replica.\<close>

definition run_enqueued :: "(unit, unit, unit cache_manager, unit) constructor result" where
  "run_enqueued = bind_r run_start (\<lambda>S. enqueue_new_request run_env 1 None (batch_constructor S))"

section \<open>Two replicas\<close>

definition pair_config :: scheduler_config where
  "pair_config = run_config\<lparr>data_parallel_degree := 2, dp_ce_balance_timeout_ms := 100, dp_ce_balance_threshold := 1\<rparr>"

definition pair_start :: "(unit, unit, unit cache_manager, unit) constructor result" where
  "pair_start = bind_r (PagedKVCacheManager_init (example_params\<lparr>params_data_parallel_degree := 2\<rparr>) 2 4 8 False False ()) (\<lambda>cache.
     TextBatchConstructor_init pair_config PER_REPLICA 1 None run_store cache None None None)"

text \<open>One request in the pool, entered at time 0.\<close>

definition pair_pooled :: "(unit, unit, unit cache_manager, unit) constructor result" where
  "pair_pooled = bind_r pair_start (enqueue_new_request run_env 1 None)"

text \<open>A second later.\<close>

definition late_env :: "(unit, unit, unit cache_manager) sched_env" where
  "late_env = run_env\<lparr>env_now := 1\<rparr>"

text \<open>The first replica generates for one request and could encode another, the second has nothing.\<close>

definition pair_uneven :: "(unit, unit, unit cache_manager, unit) constructor result" where
  "pair_uneven = bind_r pair_start (\<lambda>s. Inr (s\<lparr>replicas :=
     [ReplicaRequests_init\<lparr>ce_reqs := [1], tg_reqs := [2]\<rparr>, ReplicaRequests_init],
     bound_requests := [(1, 0), (2, 0)], ce_arrival := [(1, 0)]\<rparr>))"

lemma run_batch:
  "case bind_r run_enqueued (\<lambda>s. bind_r (construct_batch run_env s) (\<lambda>(bs, _). Inr (s, bs))) of Inl _ \<Rightarrow> False
   | Inr (s, bs) \<Rightarrow> bs = [[1]] \<and> scheduler_config s = run_config"
  by code_simp

lemma run_admission:
  "case bind_r run_enqueued (\<lambda>s. bind_r (add_ce_requests run_env \<lparr>batch = [], token_budget = new_token_budget None run_env s\<rparr> 0 s)
     (\<lambda>(b, s'). Inr (s, b, s'))) of Inl _ \<Rightarrow> False
   | Inr (s, b, s') \<Rightarrow> batch b = [1] \<and> scheduler_config s = run_config \<and> tg_reqs (replicas s ! 0) = []"
  by code_simp

lemma pair_plan:
  "case bind_r pair_pooled (\<lambda>s. bind_r (plan_ce_step run_env s) (\<lambda>s'. Inr (s, s'))) of Inl _ \<Rightarrow> False
   | Inr (s, s') \<Rightarrow> map fst (ce_pending s) = [1] \<and> dp_ce_balance_enabled s \<and> scheduler_config s = pair_config \<and>
       replicas s = [ReplicaRequests_init, ReplicaRequests_init]"
  by code_simp

lemma pair_late:
  "case bind_r pair_pooled (\<lambda>s. bind_r (plan_ce_step late_env s) (\<lambda>s'. Inr (s, s'))) of Inl _ \<Rightarrow> False
   | Inr (s, s') \<Rightarrow> map fst (ce_pending s) = [1] \<and> dp_ce_balance_enabled s \<and> expired late_env s 1"
  by code_simp

lemma pair_holds:
  "case bind_r pair_uneven (\<lambda>s. bind_r (plan_ce_step run_env s) (\<lambda>s'. Inr (s, s'))) of Inl _ \<Rightarrow> False
   | Inr (s, s') \<Rightarrow> ce_deferred_replicas s' = [0] \<and> map tg_reqs (replicas s) = [[2], []]"
  by code_simp

end
