(* ===== verification/Batch_Properties.thy ===== *)
theory Batch_Properties
  imports Admission Serving_Example
begin

text \<open>
  Properties of the batches that are formed, whatever the state of the queues: their size, the room
  they leave for token generation, when running out of KV blocks is fatal, and what the planner of
  context encoding guarantees.
\<close>

section \<open>The configuration is never changed\<close>

named_theorems config_simps \<open>operations that keep the configuration\<close>

lemma config_return [config_simps]:
  "return_to_request_queue E i r s = Inr s' \<Longrightarrow> scheduler_config s' = scheduler_config s"
  by (auto simp: return_to_request_queue_def release_if_claimed_def result_Inr Let_def put_ctx_def pipeline_release_def
      split: if_splits)

lemma config_preempt [config_simps]: "preempt_request E i r s = Inr s' \<Longrightarrow> scheduler_config s' = scheduler_config s"
  by (auto simp: preempt_request_def bind_r_eq_Inr dest: config_return)

lemma config_claim [config_simps]: "claim_and_alloc E i r s = Inr (out, s') \<Longrightarrow> scheduler_config s' = scheduler_config s"
  by (auto simp: claim_and_alloc_def bind_r_eq_Inr put_ctx_def split: if_splits)

lemma config_budget [config_simps]: "budget_status_of rt i b s = Inr (st, s') \<Longrightarrow> scheduler_config s' = scheduler_config s"
  by (auto simp: budget_status_of_def bind_r_eq_Inr put_ctx_def)

lemma config_lora [config_simps]:
  "add_active_lora i r s = Inr s' \<Longrightarrow> scheduler_config s' = scheduler_config s"
  "can_allocate_lora_request i r s = Inr (yes, s') \<Longrightarrow> scheduler_config s' = scheduler_config s"
  by (auto simp: add_active_lora_def can_allocate_lora_request_def bind_r_eq_Inr split: option.splits if_splits)

text \<open>The branches of the body of the context-encoding loop.\<close>

lemma fit_ce_runs:
  assumes "fit_ce_budget E r i b s = Inr (ex, b', s')"
  shows "\<exists>st s1. budget_status_of CE i b s = Inr (st, s1) \<and>
    (return_to_request_queue E i r s1 = Inr s' \<and> b' = b \<or> add_active_lora i r s1 = Inr s' \<and> (add_to_batch CE i b s1 = Inr b' \<or> add_to_batch CE i b s' = Inr b'))"
proof -
  obtain st s1 where "budget_status_of CE i b s = Inr (st, s1)"
    using assms by (auto simp: fit_ce_budget_def bind_r_eq_Inr)
  with assms show ?thesis by (cases st) (auto simp: fit_ce_budget_def bind_r_eq_Inr)
qed

lemma place_ce_runs:
  assumes "place_ce_request E r i b s = Inr (ex, b', s')"
  shows "\<exists>out s1. claim_and_alloc E i r s = Inr (out, s1) \<and> (return_to_request_queue E i r s1 = Inr s' \<and> b' = b \<or>
    b' = b \<and> (\<exists>x. s' = s1\<lparr>onloading_reqs := x\<rparr>) \<or> fit_ce_budget E r i b s1 = Inr (ex, b', s'))"
proof -
  obtain out s1 where "claim_and_alloc E i r s = Inr (out, s1)"
    using assms by (auto simp: place_ce_request_def bind_r_eq_Inr)
  with assms show ?thesis by (cases out) (auto simp: place_ce_request_def bind_r_eq_Inr split: if_splits)
qed

lemma config_fit [config_simps]: "fit_ce_budget E r i b s = Inr (ex, b', s') \<Longrightarrow> scheduler_config s' = scheduler_config s"
  using fit_ce_runs [of E r i b s ex b' s'] by (metis config_lora(1) config_return config_budget)

lemma config_place [config_simps]: "place_ce_request E r i b s = Inr (ex, b', s') \<Longrightarrow> scheduler_config s' = scheduler_config s"
proof (drule place_ce_runs, elim exE conjE disjE)
  fix out s1 x
  assume "claim_and_alloc E i r s = Inr (out, s1)" and "s' = s1\<lparr>onloading_reqs := x\<rparr>"
  then show ?thesis using config_claim [of E i r s out s1] by simp
qed (metis config_claim config_return, metis config_claim config_fit)

lemma config_try_ce [config_simps]: "try_ce_request E r i b s = Inr (ex, b', s') \<Longrightarrow> scheduler_config s' = scheduler_config s"
  by (auto simp: try_ce_request_def bind_r_eq_Inr config_simps split: if_splits)

lemma config_alloc_or_preempt [config_simps]:
  "alloc_or_preempt E i r be newest s = Inr (n, s') \<Longrightarrow> scheduler_config s' = scheduler_config s"
proof (induction newest arbitrary: s n)
  case Nil
  then obtain out c k where al: "kv_alloc (env_kv E) (store s i) (kv s) = Inr (out, c, k)"
    by (auto simp: alloc_or_preempt.simps [of E i r be "[]"] bind_r_eq_Inr)
  show ?case
    using Nil by (cases out) (auto simp: alloc_or_preempt.simps [of E i r be "[]"] al bind_r_eq_Inr Let_def put_ctx_def split: if_splits)
next
  case (Cons j older)
  note eq = alloc_or_preempt.simps [of E i r be "j # older"]
  obtain out c k where al: "kv_alloc (env_kv E) (store s i) (kv s) = Inr (out, c, k)"
    using Cons.prems by (auto simp: eq bind_r_eq_Inr)
  show ?case
    using Cons.prems by (cases out) (auto simp: eq al bind_r_eq_Inr Let_def put_ctx_def dest!: Cons.IH config_preempt)
qed

lemma config_try_tg [config_simps]: "try_tg_request E r i rest b s = Inr (g, b', s') \<Longrightarrow> scheduler_config s' = scheduler_config s"
proof (cases "is_lora (ctx_of i s) (lora s) \<and> \<not> is_active_lora (ctx_of i s) (lora s)")
  case False
  assume run: "try_tg_request E r i rest b s = Inr (g, b', s')"
  with False obtain st s1 where bs: "budget_status_of TG i b s = Inr (st, s1)"
    by (auto simp: try_tg_request_def result_Inr)
  show ?thesis
  proof (cases "st = BUDGET_EXHAUSTED")
    case True
    then show ?thesis using run False bs config_budget [OF bs] by (auto simp: try_tg_request_def result_Inr)
  next
    case go: False
    with run False bs obtain n where "alloc_or_preempt E i r (batch b = []) (rev rest) s1 = Inr (n, s')"
      by (auto simp: try_tg_request_def result_Inr split: option.splits)
    from config_alloc_or_preempt [OF this] show ?thesis using config_budget [OF bs] by simp
  qed
qed (auto simp: try_tg_request_def result_Inr config_simps)

section \<open>The size of a batch\<close>

lemma add_to_batch_length:
  "add_to_batch rt i b s = Inr b' \<Longrightarrow> length (batch b') \<le> Suc (length (batch b)) \<and> length (batch b) \<le> length (batch b')"
  by (auto simp: add_to_batch_def bind_r_eq_Inr od_put_def)

lemma try_ce_length:
  "try_ce_request E r i b s = Inr (ex, b', s') \<Longrightarrow> length (batch b') \<le> Suc (length (batch b)) \<and> length (batch b) \<le> length (batch b')"
  by (auto simp: try_ce_request_def bind_r_eq_Inr dest!: place_ce_runs fit_ce_runs add_to_batch_length split: if_splits)

lemma try_tg_length:
  "try_tg_request E r i rest b s = Inr (g, b', s') \<Longrightarrow> length (batch b') \<le> Suc (length (batch b)) \<and> length (batch b) \<le> length (batch b')"
  by (auto simp: try_tg_request_def result_Inr dest: add_to_batch_length split: if_splits option.splits)

lemma add_ce_loop_size:
  "add_ce_loop E r start queue b s = Inr (x, b', s') \<Longrightarrow> int (length (batch b)) \<le> max_batch_size (scheduler_config s) \<Longrightarrow>
   int (length (batch b')) \<le> max_batch_size (scheduler_config s) \<and> scheduler_config s' = scheduler_config s"
proof (induction queue arbitrary: b s)
  case (Cons i queue)
  show ?case
  proof (cases "int (length (batch b)) < max_batch_size (scheduler_config s) \<and>
      int (length (batch b)) + int (length (tg_reqs (replicas s ! r))) - start < max_batch_size (scheduler_config s)")
    case True
    with Cons.prems(1) obtain ex b1 s1 where t: "try_ce_request E r i b (upd_replica r (\<lambda>q. q\<lparr>ce_reqs := queue\<rparr>) s) = Inr (ex, b1, s1)"
      and rest: "(case ex of None \<Rightarrow> add_ce_loop E r start queue b1 s1 | Some x \<Rightarrow> Inr (x, b1, s1)) = Inr (x, b', s')"
      by (auto simp: bind_r_eq_Inr)
    have c: "scheduler_config s1 = scheduler_config s" using config_try_ce [OF t] by simp
    have l: "int (length (batch b1)) \<le> max_batch_size (scheduler_config s)" using try_ce_length [OF t] True by auto
    show ?thesis using rest Cons.IH [of b1 s1] c l by (auto split: option.splits)
  qed (use Cons.prems in auto)
qed simp

lemma add_ce_size:
  assumes "add_ce_requests E b r s = Inr (b', s')" and "int (length (batch b)) \<le> max_batch_size (scheduler_config s)"
  shows "int (length (batch b')) \<le> max_batch_size (scheduler_config s) \<and> scheduler_config s' = scheduler_config s"
proof (cases "r \<in> set (ce_deferred_replicas s)")
  case False
  then obtain q :: replica_requests and x s1 where l: "add_ce_loop E r (int (length (batch b))) (ce_reqs q) b s = Inr (x, b', s1)"
    and s': "s' = (case x of Returned \<Rightarrow> s1 | Finished \<Rightarrow> upd_replica r update_deferred_lora_requests s1)"
    using assms(1) by (auto simp: add_ce_requests_def bind_r_eq_Inr)
  from add_ce_loop_size [OF l assms(2)] show ?thesis by (cases x) (simp_all add: s')
qed (use assms in \<open>simp add: add_ce_requests_def\<close>)

lemma add_tg_loop_size:
  "add_tg_loop E r cands b s = Inr (b', s') \<Longrightarrow> int (length (batch b)) \<le> max_batch_size (scheduler_config s) \<Longrightarrow>
   int (length (batch b')) \<le> max_batch_size (scheduler_config s) \<and> scheduler_config s' = scheduler_config s"
proof (induction "length cands" arbitrary: cands b s rule: less_induct)
  case less
  show ?case
  proof (cases "cands = [] \<or> \<not> int (length (batch b)) < max_batch_size (scheduler_config s)")
    case True
    then show ?thesis using less.prems by (cases cands) auto
  next
    case False
    then obtain i rest where c: "cands = i # rest" by (cases cands) auto
    with False less.prems(1) obtain g b1 s1 where t: "try_tg_request E r i rest b s = Inr (g, b1, s1)"
      and go: "(case g of None \<Rightarrow> Inr (b1, s1) | Some n \<Rightarrow> add_tg_loop E r (take (length rest - n) rest) b1 s1) = Inr (b', s')"
      by (auto simp: bind_r_eq_Inr)
    have "int (length (batch b1)) \<le> max_batch_size (scheduler_config s1)" and k: "scheduler_config s1 = scheduler_config s"
      using try_tg_length [OF t] config_try_tg [OF t] False by auto
    then show ?thesis
      using go less.hyps [of "take (length rest - the g) rest" b1 s1] by (auto simp: c split: option.splits)
  qed
qed

lemma add_tg_size:
  assumes "add_tg_requests E b r s = Inr (b', s')" and "int (length (batch b)) \<le> max_batch_size (scheduler_config s)"
  shows "int (length (batch b')) \<le> max_batch_size (scheduler_config s) \<and> scheduler_config s' = scheduler_config s"
proof -
  obtain q :: replica_requests where "add_tg_loop E r (tg_reqs q) b s = Inr (b', s')" using assms(1) by (auto simp: add_tg_requests_def bind_r_eq_Inr)
  from add_tg_loop_size [OF this assms(2)] show ?thesis .
qed

lemma construct_replica_size:
  assumes "construct_replica_batch E r p s = Inr (b, s')" and "0 \<le> max_batch_size (scheduler_config s)"
  shows "int (length (batch b)) \<le> max_batch_size (scheduler_config s) \<and> scheduler_config s' = scheduler_config s"
proof -
  obtain b0 where b0: "batch b0 = []" and
    cases: "b = b0 \<and> s' = s \<or> add_ce_requests E b0 r s = Inr (b, s') \<or> add_tg_requests E b0 r s = Inr (b, s') \<or>
     (\<exists>b1 s1. add_ce_requests E b0 r s = Inr (b1, s1) \<and> batch b1 = [] \<and> add_tg_requests E b1 r s1 = Inr (b, s')) \<or>
     (\<exists>b1 s1. add_tg_requests E b0 r s = Inr (b1, s1) \<and> add_ce_requests E b1 r s1 = Inr (b, s'))"
    by (rule construct_replica_runs [OF assms(1)])
  have z: "int (length (batch b0)) \<le> max_batch_size (scheduler_config s)" using b0 assms(2) by simp
  from cases show ?thesis
  proof (elim disjE exE conjE)
    fix b1 s1
    assume c: "add_ce_requests E b0 r s = Inr (b1, s1)" and "batch b1 = []" and t: "add_tg_requests E b1 r s1 = Inr (b, s')"
    then show ?thesis using add_ce_size [OF c z] add_tg_size [OF t] assms(2) by simp
  next
    fix b1 s1
    assume t: "add_tg_requests E b0 r s = Inr (b1, s1)" and c: "add_ce_requests E b1 r s1 = Inr (b, s')"
    then show ?thesis using add_tg_size [OF t z] add_ce_size [OF c] by simp
  qed (use z in simp, erule add_ce_size [OF _ z], erule add_tg_size [OF _ z])
qed

lemma construct_replicas_size:
  "construct_replicas E ov rs s = Inr (bs, s') \<Longrightarrow> 0 \<le> max_batch_size (scheduler_config s) \<Longrightarrow>
   (\<forall>b \<in> set bs. int (length b) \<le> max_batch_size (scheduler_config s)) \<and> scheduler_config s' = scheduler_config s"
proof (induction rs arbitrary: s bs)
  case (Cons r rs)
  from Cons.prems(1) obtain b s1 bs1 where c: "construct_replica_batch E r ov s = Inr (b, s1)"
    and rest: "construct_replicas E ov rs s1 = Inr (bs1, s')" and bs: "bs = batch b # bs1"
    by (auto simp: bind_r_eq_Inr)
  note C = construct_replica_size [OF c Cons.prems(2)]
  then show ?case using Cons.IH [OF rest] Cons.prems(2) bs by simp
qed simp

text \<open>The operations before the batches are formed.\<close>

lemma config_bind: "bind_request i r s = Inr s' \<Longrightarrow> scheduler_config s' = scheduler_config s"
  by (auto simp: bind_request_def bind_r_eq_Inr Let_def)

lemma config_admit: "admit_request E i x s = Inr s' \<Longrightarrow> scheduler_config s' = scheduler_config s"
  by (auto simp: admit_request_def bind_r_eq_Inr dest: config_bind split: if_splits)

lemma config_settle:
  assumes "settle_grammar E i x g s = Inr s'"
  shows "scheduler_config s' = scheduler_config s"
proof -
  obtain err c g' where "(case err of Some e \<Rightarrow> Inr (fail_grammar_request i e (put_ctx i c (s\<lparr>gate := Some g'\<rparr>)))
       | None \<Rightarrow> admit_request E i x (put_ctx i c (s\<lparr>gate := Some g'\<rparr>))) = Inr s'"
    using assms by (auto simp: settle_grammar_def Let_def bind_r_eq_Inr)
  then show ?thesis
    by (cases err) (auto dest: config_admit simp: fail_grammar_request_def pipeline_release_def put_ctx_def Let_def)
qed

lemma config_promote:
  assumes "promote_grammar_ready_requests E s = Inr s'"
  shows "scheduler_config s' = scheduler_config s"
proof (cases "gate s")
  case (Some g)
  let ?step = "\<lambda>s i. case (map_of (grammar_pending s) i, gate s) of
              (Some replica_idx, Some g) \<Rightarrow>
                settle_grammar E i replica_idx g (s\<lparr>grammar_pending := AList.delete i (grammar_pending s)\<rparr>)
            | _ \<Rightarrow> Inl KeyError"
  have run: "fold_r ?step s (filter (\<lambda>i. gate_is_ready (store s i) g) (map fst (grammar_pending s))) = Inr s'"
    using assms Some by (simp add: promote_grammar_ready_requests_def Let_def)
  show ?thesis
    by (rule fold_r_invariant [OF run, of "\<lambda>t. scheduler_config t = scheduler_config s"])
      (auto dest!: config_settle split: option.splits)
qed (use assms in \<open>simp add: promote_grammar_ready_requests_def\<close>)

lemma config_readmit:
  assumes "readmit_completed_onloads E s = Inr s'"
  shows "scheduler_config s' = scheduler_config s"
  by (rule fold_r_invariant [OF assms [unfolded readmit_completed_onloads_def], of "\<lambda>t. scheduler_config t = scheduler_config s"])
    (auto simp: bind_r_eq_Inr Let_def split: option.splits)

lemma commit_plan_cases:
  assumes "commit_plan E fl tails d sl binds s = Inr s'"
  shows "s' = s\<lparr>ce_deferred_replicas := map snd tails\<rparr> \<or>
    (\<exists>t q. fold_r bind_pooled s binds = Inr t \<and>
       (s' = t\<lparr>ce_deferred_replicas := d\<rparr> \<or> s' = t\<lparr>ce_deferred_replicas := d, ce_step_quota := q\<rparr>))"
  using assms by (auto simp: commit_plan_def Let_def bind_r_eq_Inr split: if_splits)

lemma config_commit:
  assumes "commit_plan E fl tails d sl binds s = Inr s'"
  shows "scheduler_config s' = scheduler_config s"
proof -
  have "scheduler_config t = scheduler_config s" if "fold_r bind_pooled s binds = Inr t" for t
    by (rule fold_r_invariant [OF that, of "\<lambda>t. scheduler_config t = scheduler_config s"])
      (auto simp: bind_pooled_def raise_if_eq_Inr dest!: config_bind split: prod.splits)
  then show ?thesis using commit_plan_cases [OF assms] by force
qed

lemma config_bind_expired: "bind_expired_one st i = Inr st' \<Longrightarrow> scheduler_config (snd st') = scheduler_config (snd st)"
  by (cases st) (auto simp: bind_expired_one_def Let_def bind_r_eq_Inr dest!: config_bind split: option.splits)

lemma config_plan:
  assumes "plan_ce_step E s = Inr s'"
  shows "scheduler_config s' = scheduler_config s"
proof -
  define s0 where "s0 = s\<lparr>ce_deferred_replicas := [], ce_step_quota := None\<rparr>"
  from plan_ce_step_cases [OF assms s0_def] consider "s' = s0"
    | p q t d sl binds where "fold_r bind_expired_one (p, s0) (filter (expired E s0) (map fst (ce_pending s0))) = Inr (q, t)"
       "commit_plan E (pl_floor q) (deferrable_tails E s0) d sl binds t = Inr s'"
    by blast
  then show ?thesis
  proof cases
    case 2
    have "scheduler_config (snd (q, t)) = scheduler_config s0"
      by (rule fold_r_invariant [OF 2(1), of "\<lambda>st. scheduler_config (snd st) = scheduler_config s0"])
        (auto dest!: config_bind_expired)
    then show ?thesis using config_commit [OF 2(2)] by (simp add: s0_def)
  qed (simp add: s0_def)
qed

text \<open>Padding brings every replica to the size of the largest batch.\<close>

lemma alloc_dummies_length: "alloc_dummies E r k n s = Inr (ids, s') \<Longrightarrow> length ids = n"
  by (induction n arbitrary: k s ids) (auto simp: bind_r_eq_Inr Let_def)

lemma pad_replicas_size:
  "pad_replicas E m rank k bs s = Inr (padded, ds, s') \<Longrightarrow>
   length padded = length bs \<and> (\<forall>j < length bs. length (padded ! j) = max m (length (bs ! j)))"
proof (induction bs arbitrary: rank k s padded ds)
  case (Cons b bs)
  then obtain d s1 p' ds' where al: "alloc_dummies E rank k (m - length b) s = Inr (d, s1)"
    and rest: "pad_replicas E m (Suc rank) (k + length d) bs s1 = Inr (p', ds', s')" and p: "padded = (b @ d) # p'"
    by (auto simp: bind_r_eq_Inr)
  show ?case
    using Cons.IH [OF rest] alloc_dummies_length [OF al] by (auto simp: p nth_Cons split: nat.splits)
qed simp

lemma foldl_max_bound: "(\<forall>x \<in> set xs. x \<le> (n :: nat)) \<Longrightarrow> a \<le> n \<Longrightarrow> foldl max a xs \<le> n"
  by (induction xs arbitrary: a) auto

lemma pad_batch_size:
  assumes "pad_batch E bs s = Inr (padded, ds, s')" and "\<forall>b \<in> set bs. length b \<le> n"
  shows "\<forall>b \<in> set padded. length b \<le> n"
proof (cases "padded = bs")
  case False
  then obtain ds2 where pr: "pad_replicas E (foldl max 0 (map length bs)) 0 0 bs s = Inr (padded, ds2, s')"
    using assms(1) by (auto simp: pad_batch_def Let_def bind_r_eq_Inr split: if_splits)
  have "foldl max 0 (map length bs) \<le> n" using assms(2) by (intro foldl_max_bound) auto
  then show ?thesis
    using pad_replicas_size [OF pr] assms(2) by (force simp: in_set_conv_nth)
qed (use assms in simp)

text \<open>
  C5. No batch is larger than the configured maximum: when a batch is constructed, with or without
  in-flight batching, preemption and data-parallel padding, every replica gets at most
  \<open>max_batch_size\<close> requests.
\<close>
theorem batches_within_size:
  assumes "construct_batch E s = Inr (bs, s')" and "SchedulerConfig_post_init (scheduler_config s) = Inr ()"
  shows "\<forall>b \<in> set bs. int (length b) \<le> max_batch_size (scheduler_config s)"
proof -
  obtain s1 s2 s3 ov bs4 s4 where r1: "readmit_completed_onloads E s = Inr s1" and r2: "promote_grammar_ready_requests E s1 = Inr s2"
    and r3: "plan_ce_step E s2 = Inr s3" and r4: "construct_replicas E ov [0..<ctx_num_replicas s3] s3 = Inr (bs4, s4)"
    and rest: "(if has_padder s4 then
       bind_r (pad_batch E bs4 s4) (\<lambda>(batches, dummies, s). Inr (batches, s\<lparr>current_dp_padding := dummies\<rparr>))
     else Inr (bs4, s4)) = Inr (bs, s')"
    using assms(1) unfolding construct_batch_def by (auto simp only: bind_r_eq_Inr prod.case)
  have pos: "0 < max_batch_size (scheduler_config s)"
    using assms(2) by (simp add: SchedulerConfig_post_init_def raise_if_eq_Inr)
  have cfg: "scheduler_config s3 = scheduler_config s"
    using config_readmit [OF r1] config_promote [OF r2] config_plan [OF r3] by simp
  have b4: "\<forall>b \<in> set bs4. length b \<le> nat (max_batch_size (scheduler_config s))"
    using construct_replicas_size [OF r4] pos cfg by auto
  have "\<forall>b \<in> set bs. length b \<le> nat (max_batch_size (scheduler_config s))"
  proof (cases "has_padder s4")
    case True
    with rest obtain ds t where "pad_batch E bs4 s4 = Inr (bs, ds, t)" by (auto simp: bind_r_eq_Inr)
    from pad_batch_size [OF this b4] show ?thesis .
  qed (use rest b4 in simp)
  then show ?thesis using pos by auto
qed

theorem batches_within_size_witness:
  "\<exists>s bs s'. run_enqueued = Inr s \<and> construct_batch run_env s = Inr (bs, s') \<and> bs = [[1]] \<and>
     (\<forall>b \<in> set bs. int (length b) \<le> max_batch_size run_config)"
proof -
  obtain s bs s' where r: "run_enqueued = Inr s" "construct_batch run_env s = Inr (bs, s')" "bs = [[1]]"
      "scheduler_config s = run_config"
    using run_batch by (auto simp: bind_r_def split: sum.splits prod.splits)
  have "SchedulerConfig_post_init (scheduler_config s) = Inr ()"
    by (simp add: r(4) SchedulerConfig_post_init_def run_config_def)
  from batches_within_size [OF r(2) this] show ?thesis using r by auto
qed

section \<open>Room for token generation\<close>

abbreviation generating :: "nat \<Rightarrow> ('m, 'l, 's, 'w) constructor \<Rightarrow> int" where
  "generating r s \<equiv> int (length (tg_reqs (replicas s ! r)))"

lemma upd_replica_at: "replicas (upd_replica r f s) ! r = (if r < length (replicas s) then f (replicas s ! r) else replicas s ! r)"
  by (cases "r < length (replicas s)") (simp_all add: upd_replica_def list_update_beyond)

lemma generating_return: "return_to_request_queue E i r s = Inr s' \<Longrightarrow> generating r s' \<le> generating r s"
  by (auto simp: return_to_request_queue_def release_if_claimed_def result_Inr Let_def put_ctx_def pipeline_release_def
      upd_replica_at split: if_splits)

lemma generating_simple:
  "claim_and_alloc E i r s = Inr (out, s') \<Longrightarrow> generating r s' = generating r s"
  "budget_status_of rt i b s = Inr (st, s') \<Longrightarrow> generating r s' = generating r s"
  "add_active_lora i r s = Inr s' \<Longrightarrow> generating r s' = generating r s"
  "can_allocate_lora_request i r s = Inr (yes, s') \<Longrightarrow> generating r s' = generating r s"
  by (auto simp: claim_and_alloc_def budget_status_of_def add_active_lora_def can_allocate_lora_request_def bind_r_eq_Inr
      put_ctx_def upd_replica_at split: if_splits option.splits)

lemma generating_fit: "fit_ce_budget E r i b s = Inr (ex, b', s') \<Longrightarrow> generating r s' \<le> generating r s"
  using fit_ce_runs [of E r i b s ex b' s'] by (metis generating_return generating_simple(2,3) order_refl)

lemma generating_place:
  assumes "place_ce_request E r i b s = Inr (ex, b', s')"
  shows "generating r s' \<le> generating r s"
proof -
  obtain out s1 where c: "claim_and_alloc E i r s = Inr (out, s1)"
    and d: "return_to_request_queue E i r s1 = Inr s' \<and> b' = b \<or>
      b' = b \<and> (\<exists>x. s' = s1\<lparr>onloading_reqs := x\<rparr>) \<or> fit_ce_budget E r i b s1 = Inr (ex, b', s')"
    using place_ce_runs [OF assms] by blast
  have "generating r s' \<le> generating r s1"
    using d generating_return [of E i r s1 s'] generating_fit [of E r i b s1 ex b' s'] by auto
  then show ?thesis using generating_simple(1) [OF c] by simp
qed

lemma generating_try:
  assumes "try_ce_request E r i b s = Inr (ex, b', s')"
  shows "generating r s' \<le> generating r s"
proof -
  obtain yes s1 where c: "can_allocate_lora_request i r s = Inr (yes, s1)"
    using assms by (auto simp: try_ce_request_def bind_r_eq_Inr)
  have "s' = s1 \<or> return_to_request_queue E i r s1 = Inr s' \<or> place_ce_request E r i b s1 = Inr (ex, b', s')"
    using assms c by (auto simp: try_ce_request_def bind_r_eq_Inr split: if_splits)
  then show ?thesis
    using generating_simple(4) [OF c] generating_return [of E i r s1 s'] generating_place [of E r i b s1 ex b' s'] by auto
qed

lemma add_ce_loop_room:
  "add_ce_loop E r start queue b s = Inr (x, b', s') \<Longrightarrow>
   int (length (batch b')) - start + generating r s' \<le>
     max (max_batch_size (scheduler_config s)) (int (length (batch b)) - start + generating r s)"
proof (induction queue arbitrary: b s)
  case (Cons i queue)
  let ?n = "max_batch_size (scheduler_config s)"
  show ?case
  proof (cases "int (length (batch b)) < ?n \<and> int (length (batch b)) + generating r s - start < ?n")
    case True
    with Cons.prems obtain ex b1 s1 where t: "try_ce_request E r i b (upd_replica r (\<lambda>q. q\<lparr>ce_reqs := queue\<rparr>) s) = Inr (ex, b1, s1)"
      and rest: "(case ex of None \<Rightarrow> add_ce_loop E r start queue b1 s1 | Some x \<Rightarrow> Inr (x, b1, s1)) = Inr (x, b', s')"
      by (auto simp: bind_r_eq_Inr)
    have c: "scheduler_config s1 = scheduler_config s" using config_try_ce [OF t] by simp
    have "generating r s1 \<le> generating r s" using generating_try [OF t] by (simp add: upd_replica_at split: if_splits)
    then have l: "int (length (batch b1)) - start + generating r s1 \<le> ?n" using try_ce_length [OF t] True by linarith
    show ?thesis using rest Cons.IH [of b1 s1] c l by (auto split: option.splits)
  qed (use Cons.prems in auto)
qed simp

lemma update_deferred_generating: "tg_reqs (update_deferred_lora_requests q) = tg_reqs q"
proof -
  have "tg_reqs (foldl (\<lambda>q i. q\<lparr>ce_reqs := od_front i (ce_reqs q)\<rparr>) q ds) = tg_reqs q" for ds and q :: replica_requests
    by (induction ds arbitrary: q) simp_all
  then show ?thesis by (simp add: update_deferred_lora_requests_def)
qed

text \<open>
  C16. Admitting context encoding leaves room for token generation: the requests it adds to the
  batch and the requests already generating on the replica together fit one token-generation batch
  of \<open>max_batch_size\<close>, unless the replica was over that size before, when none is added.
\<close>
theorem admission_leaves_room:
  assumes "add_ce_requests E b r s = Inr (b', s')"
  shows "int (length (batch b')) - int (length (batch b)) + int (length (tg_reqs (replicas s' ! r))) \<le>
    max (max_batch_size (scheduler_config s)) (int (length (tg_reqs (replicas s ! r))))"
proof (cases "r \<in> set (ce_deferred_replicas s)")
  case False
  then obtain q :: replica_requests and x s1 where
      l: "add_ce_loop E r (int (length (batch b))) (ce_reqs q) b s = Inr (x, b', s1)"
    and s': "s' = (case x of Returned \<Rightarrow> s1 | Finished \<Rightarrow> upd_replica r update_deferred_lora_requests s1)"
    using assms by (auto simp: add_ce_requests_def bind_r_eq_Inr)
  have "generating r s' = generating r s1" by (cases x) (simp_all add: s' upd_replica_at update_deferred_generating)
  then show ?thesis using add_ce_loop_room [OF l] by simp
qed (use assms in \<open>simp add: add_ce_requests_def\<close>)

theorem admission_leaves_room_witness:
  "\<exists>s b'. run_enqueued = Inr s \<and> batch b' = [1] \<and>
     (\<exists>s'. add_ce_requests run_env \<lparr>batch = [], token_budget = new_token_budget None run_env s\<rparr> 0 s = Inr (b', s') \<and>
        int (length (batch b')) + int (length (tg_reqs (replicas s' ! 0))) \<le> 2)"
proof -
  obtain s b s' where r: "run_enqueued = Inr s"
      "add_ce_requests run_env \<lparr>batch = [], token_budget = new_token_budget None run_env s\<rparr> 0 s = Inr (b, s')"
      "batch b = [1]" "scheduler_config s = run_config" "tg_reqs (replicas s ! 0) = []"
    using run_admission by (auto simp: bind_r_def split: sum.splits prod.splits)
  from admission_leaves_room [OF r(2)] show ?thesis using r by (auto simp: run_config_def)
qed

section \<open>The planner\<close>

lemma plan_ce_step_runs:
  assumes "plan_ce_step E s = Inr s'" and "s0 = s\<lparr>ce_deferred_replicas := [], ce_step_quota := None\<rparr>"
    and "p = \<lparr>pl_floor = plan_floor E s0, pl_total_load = plan_total_load s0, pl_step_load = plan_floor E s0\<rparr>"
  shows "s' = s0 \<and> (\<not> dp_ce_balance_enabled s0 \<or> ce_pending s0 = []) \<or>
    (\<exists>q t. fold_r bind_expired_one (p, s0) (filter (expired E s0) (map fst (ce_pending s0))) = Inr (q, t) \<and>
       (let f = fill_tails (ce_target t) (pl_step_load q) (deferrable_tails E s0);
            g = plan_pool (ce_target t) (ctx_num_replicas t) (snd f) (fst f) (pl_total_load q) (ce_pending t)
        in commit_plan E (pl_floor q) (deferrable_tails E s0) (snd f) (fst g) (snd (snd g)) t = Inr s'))"
  using assms(1) unfolding plan_ce_step_def Let_def assms(2) [symmetric] assms(3) [symmetric]
  by (auto simp: bind_r_eq_Inr split_beta split: if_splits)

lemma expired_reset: "expired E (s\<lparr>ce_deferred_replicas := d, ce_step_quota := q\<rparr>) = expired E s"
  by (rule ext) (simp add: expired_def split: option.split)

lemma fill_tails_deferred: "set (snd (fill_tails target sl tails)) \<subseteq> snd ` set tails"
proof -
  have "set (snd (foldl (fill_tail target) st ts)) \<subseteq> set (snd st)" for st ts
  proof (induction ts arbitrary: st)
    case (Cons t ts)
    have "set (snd (fill_tail target st t)) \<subseteq> set (snd st)" by (auto simp: fill_tail_def Let_def split_beta)
    then show ?case using Cons.IH [of "fill_tail target st t"] by simp
  qed simp
  from this [of "(sl, map snd tails)" "rev (sort tails)"] show ?thesis by (simp add: fill_tails_def)
qed

lemma deferrable_tails_can:
  assumes "r \<in> snd ` set (deferrable_tails E s)"
  shows "r < length (replicas s) \<and> can_defer E s (replicas s ! r)"
  using assms by (auto simp: deferrable_tails_def in_set_enumerate_eq)



text \<open>Once a fold has established a property that every step keeps, it holds at the end.\<close>

lemma fold_r_establish:
  assumes "fold_r f s xs = Inr t" and "x \<in> set xs" and "\<And>s t. f s x = Inr t \<Longrightarrow> J t"
    and "\<And>s y t. J s \<Longrightarrow> f s y = Inr t \<Longrightarrow> J t"
  shows "J t"
  using assms(1,2)
proof (induction xs arbitrary: s)
  case (Cons y ys)
  then obtain s1 where s1: "f s y = Inr s1" "fold_r f s1 ys = Inr t" by (auto simp: bind_r_eq_Inr)
  show ?case
  proof (cases "x = y")
    case True
    with s1(1) assms(3) have "J s1" by simp
    from fold_r_invariant [OF s1(2), of J] this assms(4) show ?thesis by blast
  qed (use Cons s1 in simp)
qed simp

text \<open>Bound and no longer pooled.\<close>

definition taken :: "request_id \<Rightarrow> ('m, 'l, 's, 'w) constructor \<Rightarrow> bool" where
  "taken i s \<longleftrightarrow> map_of (bound_requests s) i \<noteq> None \<and> map_of (ce_pending s) i = None"

lemma bind_takes:
  assumes "bind_request i r (s\<lparr>ce_pending := AList.delete i (ce_pending s)\<rparr>) = Inr s'"
  shows "taken i s'" and "taken j s \<Longrightarrow> taken j s'"
  using assms by (auto simp: bind_request_def bind_r_eq_Inr Let_def taken_def update_conv' delete_conv' split: if_splits)

lemma bind_expired_one_takes:
  assumes "bind_expired_one st i = Inr st'"
  shows "taken i (snd st')" and "taken j (snd st) \<Longrightarrow> taken j (snd st')"
proof -
  obtain r where r: "bind_request i r ((snd st)\<lparr>ce_pending := AList.delete i (ce_pending (snd st))\<rparr>) = Inr (snd st')"
    using assms by (cases st) (auto simp: bind_expired_one_def Let_def bind_r_eq_Inr split: option.splits)
  show "taken i (snd st')" and "taken j (snd st) \<Longrightarrow> taken j (snd st')" using bind_takes [OF r] by blast+
qed

lemma bind_pooled_takes:
  assumes "bind_pooled s e = Inr s'"
  shows "taken (fst e) s'" and "taken j s \<Longrightarrow> taken j s'"
proof -
  have r: "bind_request (fst e) (snd e) (s\<lparr>ce_pending := AList.delete (fst e) (ce_pending s)\<rparr>) = Inr s'"
    using assms by (auto simp: bind_pooled_def raise_if_eq_Inr split: prod.splits)
  show "taken (fst e) s'" and "taken j s \<Longrightarrow> taken j s'" using bind_takes [OF r] by blast+
qed

lemma commit_keeps_taken:
  assumes "commit_plan E fl tails d sl binds s = Inr s'" and "taken j s"
  shows "taken j s'"
proof -
  have "taken j t" if "fold_r bind_pooled s binds = Inr t" for t
    using fold_r_invariant [OF that, of "taken j"] assms(2) bind_pooled_takes(2) by blast
  with commit_plan_cases [OF assms(1)] assms(2) show ?thesis by (auto simp: taken_def)
qed

lemma expired_taken:
  assumes "plan_ce_step E s = Inr s'" and "dp_ce_balance_enabled s" and "i \<in> fst ` set (ce_pending s)" and "expired E s i"
  shows "taken i s'"
proof -
  define s0 where "s0 = s\<lparr>ce_deferred_replicas := [], ce_step_quota := None\<rparr>"
  have s0: "dp_ce_balance_enabled s0" "ce_pending s0 = ce_pending s" "expired E s0 i"
    using assms(2,4) by (simp_all add: s0_def dp_ce_balance_enabled_def expired_reset)
  have "ce_pending s0 \<noteq> []" using assms(3) s0(2) by auto
  with plan_ce_step_cases [OF assms(1) s0_def] s0(1) obtain p q t d sl binds where
      f: "fold_r bind_expired_one (p, s0) (filter (expired E s0) (map fst (ce_pending s0))) = Inr (q, t)"
      and c: "commit_plan E (pl_floor q) (deferrable_tails E s0) d sl binds t = Inr s'"
    by blast
  have "i \<in> set (filter (expired E s0) (map fst (ce_pending s0)))" using assms(3) s0 by simp
  then have "taken i (snd (q, t))"
    using bind_expired_one_takes by (intro fold_r_establish [OF f, of i "\<lambda>st. taken i (snd st)"]) blast+
  then show ?thesis using commit_keeps_taken [OF c, of i] by simp
qed

text \<open>
  C17. A pooled request does not wait past the balance timeout: when the planner runs with balancing
  enabled, every pooled request whose timeout has expired is bound to a replica and leaves the pool
  in that step, whatever the balance of the fleet.
\<close>
theorem expired_requests_are_bound:
  assumes "plan_ce_step E s = Inr s'" and "dp_ce_balance_enabled s" and "i \<in> fst ` set (ce_pending s)" and "expired E s i"
  shows "map_of (bound_requests s') i \<noteq> None \<and> map_of (ce_pending s') i = None"
  using expired_taken [OF assms] by (simp add: taken_def)

theorem expired_requests_are_bound_witness:
  "\<exists>s s'. pair_pooled = Inr s \<and> plan_ce_step late_env s = Inr s' \<and> map_of (bound_requests s') 1 \<noteq> None"
proof -
  obtain s s' where r: "pair_pooled = Inr s" "plan_ce_step late_env s = Inr s'" "map fst (ce_pending s) = [1]"
      "dp_ce_balance_enabled s" "expired late_env s 1"
    using pair_late by (auto simp: bind_r_def split: sum.splits)
  have "1 \<in> fst ` set (ce_pending s)" using arg_cong [OF r(3), of set] by simp
  from expired_requests_are_bound [OF r(2,4) this r(5)] show ?thesis using r by auto
qed

text \<open>An idle fleet: every load is zero, so the first candidate improves the step.\<close>

lemma list_max_zero: "\<forall>x \<in> set xs. x = 0 \<Longrightarrow> list_max xs = 0"
proof -
  have "foldl max 0 xs = 0" if "\<forall>x \<in> set xs. x = 0" for xs :: "int list" using that by (induction xs) auto
  then show "\<forall>x \<in> set xs. x = 0 \<Longrightarrow> list_max xs = 0" by (cases xs) (auto simp: list_max_def)
qed

lemma pool_binds_grow: "\<exists>more. snd (snd (foldl (pool_candidate target n d) st items)) = snd (snd st) @ more"
proof (induction items arbitrary: st)
  case (Cons item items)
  have "\<exists>more. snd (snd (pool_candidate target n d st item)) = snd (snd st) @ more"
    by (auto simp: pool_candidate_def Let_def split_beta split: sum.splits)
  then show ?case using Cons.IH [of "pool_candidate target n d st item"] by auto
qed simp

lemma min_by_total: "xs \<noteq> [] \<Longrightarrow> \<exists>x. min_by key xs = Inr x"
  by (cases xs) auto

lemma idle_pool_binds:
  assumes "\<forall>x \<in> set loads. x = 0" and "n \<le> length loads" and "0 < n" and "0 < target" and "pool \<noteq> []"
  shows "\<exists>i r. (i, r) \<in> set (snd (snd (plan_pool target n [] loads tot pool))) \<and> i \<in> fst ` set pool"
proof -
  obtain item items where sorted: "sort_key (\<lambda>item. - list_min (pc_weights (snd item))) pool = item # items"
    using assms(5) by (cases "sort_key (\<lambda>item. - list_min (pc_weights (snd item))) pool") (auto dest: arg_cong [of _ _ set])
  have "item \<in> set pool" using arg_cong [OF sorted, of set] by simp
  have z: "loads ! r = 0" if "r < n" for r using assms(1,2) that by simp
  have "filter (\<lambda>r. r \<notin> set [] \<and> loads ! r < target) [0..<n] = [0..<n]"
    using z assms(4) by (simp add: filter_id_conv)
  then obtain r where m: "min_by (\<lambda>r. tot ! r + pc_weights (snd item) ! r) (filter (\<lambda>r. r \<notin> set [] \<and> loads ! r < target) [0..<n]) = Inr r"
    using min_by_total [of "[0..<n]"] assms(3) by auto
  have "snd (snd (pool_candidate target n [] (loads, tot, []) item)) = [(fst item, r)]"
    using m list_max_zero [OF assms(1)] by (simp add: pool_candidate_def Let_def improves_def split_beta)
  then have "(fst item, r) \<in> set (snd (snd (plan_pool target n [] loads tot pool)))"
    using pool_binds_grow [of target n "[]" "pool_candidate target n [] (loads, tot, []) item" items]
    by (auto simp: plan_pool_def sorted)
  then show ?thesis using \<open>item \<in> set pool\<close> by blast
qed

text \<open>
  C18. An idle fleet takes work: when balancing is enabled, requests are pooled and no replica has a
  request to encode or to generate for, the planner binds at least one pooled request, however far
  the balance of the fleet is from the threshold.
\<close>
theorem idle_fleet_takes_pooled:
  assumes "plan_ce_step E s = Inr s'" and "dp_ce_balance_enabled s" and "ce_pending s \<noteq> []"
    and idle: "\<forall>q \<in> set (replicas s). ce_reqs q = [] \<and> tg_reqs q = []"
    and n: "ctx_num_replicas s = length (replicas s)" and target: "0 < target_tokens_per_batch_ce (scheduler_config s)"
  shows "\<exists>i \<in> fst ` set (ce_pending s). map_of (bound_requests s') i \<noteq> None \<and> map_of (ce_pending s') i = None"
proof -
  define s0 where "s0 = s\<lparr>ce_deferred_replicas := [], ce_step_quota := None\<rparr>"
  define p where "p = \<lparr>pl_floor = plan_floor E s0, pl_total_load = plan_total_load s0, pl_step_load = plan_floor E s0\<rparr>"
  let ?xs = "filter (expired E s0) (map fst (ce_pending s0))"
  have e: "dp_ce_balance_enabled s0" "ce_pending s0 = ce_pending s" "replicas s0 = replicas s" "scheduler_config s0 = scheduler_config s"
    using assms(2) by (simp_all add: s0_def dp_ce_balance_enabled_def)
  obtain q t where f: "fold_r bind_expired_one (p, s0) ?xs = Inr (q, t)"
    and c: "let f = fill_tails (ce_target t) (pl_step_load q) (deferrable_tails E s0);
            g = plan_pool (ce_target t) (ctx_num_replicas t) (snd f) (fst f) (pl_total_load q) (ce_pending t)
        in commit_plan E (pl_floor q) (deferrable_tails E s0) (snd f) (fst g) (snd (snd g)) t = Inr s'"
    using plan_ce_step_runs [OF assms(1) s0_def p_def] e assms(3) by auto
  show ?thesis
  proof (cases "?xs = []")
    case False
    then obtain i where i: "i \<in> fst ` set (ce_pending s)" "expired E s i"
      using e by (auto simp: filter_empty_conv s0_def expired_reset)
    from expired_taken [OF assms(1,2) i] i(1) show ?thesis by (auto simp: taken_def)
  next
    case True
    then have qt: "q = p" "t = s0" using f by simp_all
    have zero: "\<forall>x \<in> set (plan_floor E s0). x = 0" using idle e by (auto simp: plan_floor_def ce_tokens_def)
    have tails: "deferrable_tails E s0 = []"
      using idle e by (auto simp: deferrable_tails_def filter_empty_conv can_defer_def in_set_enumerate_eq)
    have fill: "fill_tails (ce_target s0) (plan_floor E s0) [] = (plan_floor E s0, [])" by (simp add: fill_tails_def)
    let ?g = "plan_pool (ce_target s0) (ctx_num_replicas s0) [] (plan_floor E s0) (plan_total_load s0) (ce_pending s0)"
    have "0 < ctx_num_replicas s0" using e(1) by (simp add: dp_ce_balance_enabled_def)
    then obtain i r where b: "(i, r) \<in> set (snd (snd ?g))" "i \<in> fst ` set (ce_pending s)"
      using idle_pool_binds [OF zero, of "ctx_num_replicas s0" "ce_target s0" "ce_pending s0" "plan_total_load s0"]
        n target e assms(3) by (auto simp: plan_floor_def)
    have cm: "commit_plan E (plan_floor E s0) [] [] (fst ?g) (snd (snd ?g)) s0 = Inr s'"
      using c by (simp add: Let_def qt tails fill p_def)
    have "\<forall>q \<in> set (replicas s0). tg_reqs q = []" and "\<not> (\<exists>x \<in> set (plan_floor E s0). x \<noteq> 0)"
      using idle e zero by auto
    then obtain t1 where t1: "fold_r bind_pooled s0 (snd (snd ?g)) = Inr t1"
      and s': "bound_requests s' = bound_requests t1" "ce_pending s' = ce_pending t1"
      using cm by (auto simp: commit_plan_def Let_def bind_r_eq_Inr split: if_splits)
    have "taken i t1"
    proof (rule fold_r_establish [OF t1 b(1), of "taken i"])
      show "taken i y" if "bind_pooled x (i, r) = Inr y" for x y using bind_pooled_takes(1) [OF that] by simp
      show "taken i y" if "taken i x" "bind_pooled x z = Inr y" for x y z by (rule bind_pooled_takes(2) [OF that(2,1)])
    qed
    then show ?thesis using s' b(2) by (auto simp: taken_def)
  qed
qed

theorem idle_fleet_takes_pooled_witness:
  "\<exists>s s'. pair_pooled = Inr s \<and> plan_ce_step run_env s = Inr s' \<and> map_of (bound_requests s') 1 \<noteq> None"
proof -
  obtain s s' where r: "pair_pooled = Inr s" "plan_ce_step run_env s = Inr s'" "map fst (ce_pending s) = [1]"
      "dp_ce_balance_enabled s" "scheduler_config s = pair_config" "replicas s = [ReplicaRequests_init, ReplicaRequests_init]"
    using pair_plan by (auto simp: bind_r_def split: sum.splits)
  have k: "fst ` set (ce_pending s) = {1}" "ce_pending s \<noteq> []" using arg_cong [OF r(3), of set] r(3) by auto
  have "\<exists>i \<in> fst ` set (ce_pending s). map_of (bound_requests s') i \<noteq> None \<and> map_of (ce_pending s') i = None"
    by (rule idle_fleet_takes_pooled [OF r(2,4) k(2)])
      (simp_all add: r(5,6) ReplicaRequests_init_def pair_config_def run_config_def)
  then show ?thesis using r k by auto
qed

end
