(* ===== verification/Scheduler_Properties.thy ===== *)
theory Scheduler_Properties
  imports Scheduler_Invariant Serving_Example
begin

text \<open>
  The serving loop as a transition relation, and what holds in every state it reaches from a fresh
  start with the paged KV cache.
\<close>

section \<open>Serving\<close>

text \<open>
  What can happen between and in iterations: the API process submits a request with a fresh id or
  cancels requests, a worker finishes compiling a grammar, the scheduler runs an iteration. The
  environment of an iteration (its clock, the ids of padding contexts) is arbitrary; its KV cache is not.
\<close>

inductive serves ::
  "('m, 'l, 's) kv_cache \<Rightarrow> (('m, 'l, 's) pipeline_env \<Rightarrow> bool) \<Rightarrow> ('m, 'l, 's, 'w) scheduler \<Rightarrow> ('m, 'l, 's, 'w) scheduler \<Rightarrow> bool"
  for K :: "('m, 'l, 's) kv_cache" and good :: "('m, 'l, 's) pipeline_env \<Rightarrow> bool" and S0 :: "('m, 'l, 's, 'w) scheduler" where
  start: "serves K good S0 S0"
| submit: "serves K good S0 S \<Longrightarrow> i \<notin> managed (batch_constructor S) \<Longrightarrow> i \<notin> set (request_queue S) \<Longrightarrow> rid c = i \<Longrightarrow>
    serves K good S0 (S\<lparr>batch_constructor := put_ctx i c (batch_constructor S), request_queue := request_queue S @ [i]\<rparr>)"
| cancel: "serves K good S0 S \<Longrightarrow> serves K good S0 (S\<lparr>cancel_queue := cancel_queue S @ [ids]\<rparr>)"
| compiled: "serves K good S0 S \<Longrightarrow> gate (batch_constructor S) = Some g \<Longrightarrow>
    serves K good S0 (S\<lparr>batch_constructor := (batch_constructor S)\<lparr>gate := Some (finish_job i g)\<rparr>\<rparr>)"
| iterate: "serves K good S0 S \<Longrightarrow> env_kv E = K \<Longrightarrow> good X \<Longrightarrow> run_iteration E X S = Inr (pr, S') \<Longrightarrow> serves K good S0 S'"

context kv_cache_contract
begin

lemma serves_inv:
  assumes "serves K (pipeline_keeps ok owner nrep) S0 S" and "sinv S0"
  shows "sinv S"
  using assms
proof (induction rule: serves.induct)
  case (submit S i c)
  let ?s = "put_ctx i c (batch_constructor S)"
  have S: "sinv S" by (rule submit.IH [OF submit.prems])
  have "inv {} ?s" using S submit.hyps(4) by (intro own_put_ctx) (simp_all add: sched_inv_def)
  moreover have "managed ?s = managed (batch_constructor S)" by (simp add: put_ctx_def managed_def bound_ids_def pooled_ids_def)
  ultimately show ?case using S submit.hyps(2,3) by (simp add: sched_inv_def)
next
  case (cancel S ids)
  then show ?case by (simp add: sched_inv_def)
next
  case (compiled S g i)
  let ?s = "(batch_constructor S)\<lparr>gate := Some (finish_job i g)\<rparr>"
  have S: "sinv S" by (rule compiled.IH [OF compiled.prems])
  have iS: "inv {} (batch_constructor S)" using S by (simp add: sched_inv_def)
  have p: "places_ok {} (batch_constructor S)" by (rule own_places [OF iS])
  have po: "pooled_ids ?s = pooled_ids (batch_constructor S)" by (simp add: pooled_ids_def)
  have "places_ok {} ?s"
  proof (rule places_pools [OF p])
    show "bound_ids (batch_constructor S) \<inter> pooled_ids ?s = {}" using places_disjoint(1) [OF p] po by simp
  qed (simp_all add: places_ids [OF p] places_disjoint(2) [OF p])
  then have "inv {} ?s" by (rule own_places_kv [OF iS]) simp_all
  moreover have "managed ?s = managed (batch_constructor S)" using po by (simp add: managed_def bound_ids_def)
  ultimately show ?case using S by (simp add: sched_inv_def)
next
  case (iterate S E X pr S')
  from run_iteration_own [OF iterate.IH [OF iterate.prems] iterate.hyps(2-4)] show ?case .
qed

lemma init_inv:
  assumes run: "TextBatchConstructor_init cfg strat pct inflight st cache lm gt None = Inr s" and "ok cache"
    and "\<And>i. owner cache i = None" and "nrep cache = data_parallel_degree cfg" and "\<And>i. rid (st i) = i"
  shows "inv {} s"
proof -
  have s: "replicas s = replicate (data_parallel_degree cfg) ReplicaRequests_init" "kv s = cache" "bound_requests s = []"
      "onloading_reqs s = []" "ce_pending s = []" "grammar_pending s = []" "store s = st" "scheduler_config s = cfg"
      "has_padder s = False" "prev_dp_padding s = None" "current_dp_padding s = None"
    using run by (auto simp: TextBatchConstructor_init_def raise_if_eq_Inr)
  have q: "queue_ids ReplicaRequests_init = []" by (simp add: queue_ids_def ReplicaRequests_init_def)
  have "sum_list (replicate n {#}) = {#}" for n by (induction n) simp_all
  then have "queued s = {#}" by (simp add: queued_def s q o_def)
  then have "places_ok {} s" using assms(5) by (simp add: places_ok_def s bound_ids_def pooled_ids_def q)
  then show ?thesis using assms by (simp add: own_inv_def kv_good_def s)
qed

end

section \<open>Reachable states\<close>

definition paged_start :: "('m, 'l, 'k cache_manager, 'w) scheduler \<Rightarrow> bool" where
  "paged_start S \<longleftrightarrow> request_queue S = [] \<and>
     (\<exists>cfg strat pct inflight st cache lm gt p d n b checks ol k.
        PagedKVCacheManager_init p d n b checks ol k = Inr cache \<and>
        params_data_parallel_degree p = data_parallel_degree cfg \<and> (\<forall>i. rid (st i) = i) \<and>
        TextBatchConstructor_init cfg strat pct inflight st cache lm gt None = Inr (batch_constructor S))"

definition paged_reachable ::
  "hash_prims \<Rightarrow> 'k kv_connector \<Rightarrow> ('m, 'l, 'k cache_manager, 'w) scheduler \<Rightarrow> bool" where
  "paged_reachable P C S \<longleftrightarrow>
     (\<exists>S0. paged_start S0 \<and> serves (paged_kv P C) (pipeline_keeps cm_ok cm_owner cm_replicas) S0 S)"

lemma cm_init_ok:
  assumes "PagedKVCacheManager_init p d n b checks ol k = Inr cm"
  shows "cm_ok cm" "cm_owner cm i = None" "cm_replicas cm = params_data_parallel_degree p"
proof -
  obtain bm where bm: "BlockManager_init n (page_size p) k (params_prefix_caching p) checks (params_data_parallel_degree p)
      (params_hash_algo p) (params_hash_seed p) (params_data_parallel_degree p > 1 \<and> params_prefix_caching p)
      (params_cross_replica_copy p) ol = Inr bm" and cm: "cm_bm cm = bm"
    using assms(1) by (auto simp: PagedKVCacheManager_init_def Let_def result_Inr)
  have "num_replicas bm = params_data_parallel_degree p" "req_to_replica bm = []"
    using bm by (auto simp: BlockManager_init_def raise_if_eq_Inr)
  then show "cm_ok cm" "cm_owner cm i = None" "cm_replicas cm = params_data_parallel_degree p"
    using BlockManager_init_inv [OF bm] cm by (simp_all add: cm_ok_def cm_owner_def)
qed

lemma paged_start_inv:
  assumes "paged_start S"
  shows "sched_inv cm_ok cm_owner cm_replicas S"
proof -
  obtain cfg strat pct inflight st cache lm gt p d n b checks ol k where
      c: "PagedKVCacheManager_init p d n b checks ol k = Inr cache" "params_data_parallel_degree p = data_parallel_degree cfg"
        "\<forall>i. rid (st i) = i"
      and s: "TextBatchConstructor_init cfg strat pct inflight st cache lm gt None = Inr (batch_constructor S)"
    using assms unfolding paged_start_def by blast
  have "own_inv cm_ok cm_owner cm_replicas {} (batch_constructor S)"
    using cm_init_ok [OF c(1)] c(2,3) by (intro paged.init_inv [OF s]) auto
  then show ?thesis using assms by (simp add: sched_inv_def paged_start_def)
qed

lemma paged_reachable_inv:
  assumes "paged_reachable P C S"
  shows "sched_inv cm_ok cm_owner cm_replicas S"
  using assms paged.serves_inv paged_start_inv unfolding paged_reachable_def by blast



section \<open>A run\<close>

lemma run_done_result:
  "case run_done of Inl _ \<Rightarrow> False
   | Inr (p, S) \<Rightarrow> p = MADE_PROGRESS \<and> map_of (bound_requests (batch_constructor S)) 1 = Some 0 \<and>
       cm_owner (kv (batch_constructor S)) 1 = Some 0 \<and> response_queue S = [(1, ResultResponse False)] \<and>
       map ce_reqs (replicas (batch_constructor S)) = [[1]]"
  by code_simp

lemma run_reachable:
  obtains S where "run_done = Inr (MADE_PROGRESS, S)" and "paged_reachable toy_prims NullConnector S"
    and "map_of (bound_requests (batch_constructor S)) 1 = Some 0" and "cm_owner (kv (batch_constructor S)) 1 = Some 0"
proof -
  obtain S where S: "run_done = Inr (MADE_PROGRESS, S)" "map_of (bound_requests (batch_constructor S)) 1 = Some 0"
      "cm_owner (kv (batch_constructor S)) 1 = Some 0"
    using run_done_result by (auto split: sum.splits prod.splits)
  from S(1) obtain S1 where S1: "run_submitted = Inr S1" "run_iteration run_env run_pipeline S1 = Inr (MADE_PROGRESS, S)"
    unfolding run_done_def bind_r_eq_Inr by blast
  from S1(1) obtain S0 where S0: "run_start = Inr S0"
      "S1 = S0\<lparr>batch_constructor := put_ctx 1 (run_store 1) (batch_constructor S0), request_queue := request_queue S0 @ [1]\<rparr>"
    unfolding run_submitted_def bind_r_eq_Inr by blast
  from S0(1) obtain cache where c: "PagedKVCacheManager_init example_params 1 4 8 False False () = Inr cache"
      "TextBatchConstructor_init run_config PER_REPLICA 1 None run_store cache None None None = Inr (batch_constructor S0)"
      "request_queue S0 = []"
    by (auto simp: run_start_def bind_r_eq_Inr)
  have "params_data_parallel_degree example_params = data_parallel_degree run_config"
    by (simp add: example_params_def run_config_def)
  moreover have "rid (run_store i) = i" for i by (simp add: run_store_def TextContext_default_def)
  ultimately have st: "paged_start S0" unfolding paged_start_def using c by blast
  have m0: "managed (batch_constructor S0) = {}"
    unfolding managed_def bound_ids_def pooled_ids_def
    by (simp add: c(2) [unfolded TextBatchConstructor_init_def, simplified, symmetric])
  let ?R = "serves (paged_kv toy_prims NullConnector) (pipeline_keeps cm_ok cm_owner cm_replicas) S0"
  have "?R S1"
    unfolding S0(2) using m0 c(3) by (intro serves.submit serves.start) (simp_all add: run_store_def TextContext_default_def)
  then have "?R S"
  proof (rule serves.iterate [OF _ _ _ S1(2)])
    show "pipeline_keeps cm_ok cm_owner cm_replicas run_pipeline" by (simp add: pipeline_keeps_def run_pipeline_def)
  qed (simp add: run_env_def)
  then show thesis using that [of S] S st unfolding paged_reachable_def by blast
qed



text \<open>
  A cancellation that arrives while its request is still in the request queue (the drain limit or
  the cap on pending requests held it back) has no effect and is gone: the request runs later.
\<close>

lemma early_cancel_is_lost:
  assumes "i \<in> set (request_queue S)" and "\<not> contains i (batch_constructor S)" and "cancel_queue S = [[i]]"
  shows "cancel_requests E S = Inr (S\<lparr>cancel_queue := []\<rparr>) \<and> i \<in> set (request_queue (S\<lparr>cancel_queue := []\<rparr>))"
  using assms by (simp add: cancel_requests_def get_cancelled_reqs_def)

end
