(* ===== verification/Spec2Isabelle.thy ===== *)
theory Spec2Isabelle
  imports Prelude Token_Buffer EOS_Tracking Free_Queue Block_Pool Token_Budget Grammar_State
    Text_Context Vision_Context Block_Hash KV_Connector Pool_References Block_Manager Block_Accounting
    Manager_Properties Manager_Reuse Manager_Commit LoRA_Manager Cache_Manager Cache_Contract
    Cache_Properties Grammar_Gate Batch_Constructor Batch_Building CE_Planner Scheduler Batch_Ownership
    Batch_Loops Admission Scheduler_Invariant Serving_Example Batch_Properties Scheduler_Properties
begin

text \<open>
  Verification of the serving core of MAX, the Python package \<open>max\<close> under
  \<open>src/max/python/max\<close>: everything between the API process, which puts requests in a queue, and
  the model pipeline, which runs a batch on the devices. File names below are relative to that
  directory.

  \<^bold>\<open>The system.\<close> A request is a \<^emph>\<open>context\<close>: a token buffer with its processing window, the
  end-of-sequence rules, the state of grammar enforcement, and for vision models the images. The
  \<^emph>\<open>scheduler\<close> runs an endless loop. One iteration drains the request queue into the \<^emph>\<open>batch
  constructor\<close>, which holds requests back until their grammar is compiled (the \<^emph>\<open>grammar gate\<close>)
  and, with data parallelism, in a pool until the \<^emph>\<open>planner\<close> binds them to a replica; forms a
  batch per replica under \<^emph>\<open>token budgets\<close>, the number of \<^emph>\<open>LoRA\<close> adapters and the pages of the
  \<^emph>\<open>paged KV cache\<close>, preempting requests when pages run out; executes the pipeline; and moves the
  requests to their next queue or releases them. The KV cache manager gives requests pages through
  the \<^emph>\<open>block manager\<close>, which shares full pages between requests with a common prefix (found by
  \<^emph>\<open>keys\<close> that hash the tokens), moves pages to and from external tiers through a \<^emph>\<open>connector\<close>, and
  takes pages from one \<^emph>\<open>block pool\<close> per replica, whose \<^emph>\<open>free queue\<close> evicts in
  least-recently-freed order.

  \<^bold>\<open>Theories, in the order of the imports.\<close>
  \<^item> \<open>Prelude\<close>: exceptions and the result type, its bind and folds, Python division and slices,
    dictionaries as association lists, and \<open>ceildiv\<close> (\<open>support/math.py\<close>).
  \<^item> \<open>Token_Buffer\<close> (\<open>pipelines/context/tokens.py\<close>): ranges and the token buffer. Its window stays
    inside the stored tokens, storage growth returns, chunked prefill partitions the window, and
    generated tokens are streamed exactly once.
  \<^item> \<open>EOS_Tracking\<close> (\<open>pipelines/context/eos_tracking.py\<close>, \<open>status.py\<close>): end-of-sequence and stop
    strings; the one-pass search equals its reference.
  \<^item> \<open>Grammar_State\<close>, \<open>Text_Context\<close>, \<open>Vision_Context\<close> (\<open>pipelines/context/context.py\<close>,
    \<open>outputs.py\<close>): grammar enforcement, the text context with the future tokens of overlapped
    execution, and the vision context. Overlapped execution commits the tokens in order, a finished
    status has its reason, preemption keeps the committed tokens, and the images of a window are the
    ones it touches.
  \<^item> \<open>Free_Queue\<close> (\<open>pipelines/kv_cache/paged_kv_cache/block_utils.py\<close>) and \<open>Block_Pool\<close>
    (\<open>block_pool.py\<close>): the intrusive linked list refines a sequence (locale \<open>lru_queue\<close>); the pool
    accounts for every block. \<open>Pool_References\<close> is the client's view of the pool as a reference
    counter (locale \<open>ref_counted\<close>).
  \<^item> \<open>Token_Budget\<close> (\<open>serve/scheduler/batch_constructor/token_budget.py\<close>): the active-token and the
    total-context budget and their collection, three instances of the locale
    \<open>token_budget_contract\<close>; admitted work never exceeds the capacity.
  \<^item> \<open>Block_Hash\<close> (\<open>block_utils.py\<close>, \<open>_core_mojo\<close>): prefix-cache keys; incremental keys equal keys
    from scratch, and hashing restores the tokens it overwrites with content hashes.
  \<^item> \<open>KV_Connector\<close> (\<open>pipelines/kv_cache/kv_connector.py\<close>): transfers and the protocol of a tier,
    with the null connector as an instance of the locale \<open>connector_protocol\<close>.
  \<^item> \<open>Block_Manager\<close> (\<open>block_manager.py\<close>) holds the operations; \<open>Block_Accounting\<close> their reference
    accounting, for every connector; \<open>Manager_Properties\<close>, \<open>Manager_Reuse\<close> and \<open>Manager_Commit\<close>
    what callers rely on: accounting over any run, release, allocation, prefix reuse, commit and the
    draining of transfers.
  \<^item> \<open>LoRA_Manager\<close> (\<open>pipelines/lora\<close>, \<open>serve/scheduler/lora_scheduler_utils.py\<close>): the slot cache
    refines a least-recently-used list; routing groups exactly the rows of each adapter.
  \<^item> \<open>Cache_Manager\<close> (\<open>cache_manager.py\<close>, \<open>cache_manager_interface.py\<close>): the KV cache manager and the
    interface the scheduler uses. \<open>Cache_Contract\<close> states that interface's laws (locale
    \<open>kv_cache_contract\<close>) and interprets them on the paged manager; \<open>Cache_Properties\<close> shows that
    allocation covers the next step and that the lookup table maps every position to its page.
  \<^item> \<open>Grammar_Gate\<close> (\<open>grammar_gate.py\<close>, \<open>pipelines/lib/pipeline_variants/utils.py\<close>): matchers built
    by worker threads; a worker finishing is the step \<open>finish_job\<close>.
  \<^item> \<open>Batch_Constructor\<close>, \<open>Batch_Building\<close>, \<open>CE_Planner\<close>
    (\<open>serve/scheduler/batch_constructor/text_batch_constructor.py\<close>, \<open>dp_padding.py\<close>, \<open>config.py\<close>):
    the state and the movement of requests, the two admission loops with preemption, and the planner
    that balances context encoding over the replicas.
  \<^item> \<open>Scheduler\<close> (\<open>serve/scheduler/text_generation_scheduler.py\<close>, \<open>serve/queue.py\<close>): one iteration.
  \<^item> \<open>Batch_Ownership\<close>, \<open>Batch_Loops\<close>, \<open>Admission\<close>, \<open>Scheduler_Invariant\<close>: the ownership invariant
    (where a request is, and whose pages the KV cache holds) and its preservation by every operation
    of the constructor and by an iteration, proved inside \<open>kv_cache_contract\<close>.
  \<^item> \<open>Batch_Properties\<close>, \<open>Scheduler_Properties\<close>: bounds on batches, guarantees of the planner, and
    what holds in every state of the serving loop (the relation \<open>serves\<close>: requests arrive, are
    cancelled, grammars finish and iterations run in any order). \<open>Serving_Example\<close> has the concrete
    systems on which they are exercised.

  \<^bold>\<open>How Python is modelled.\<close>
  \<^item> A call that may raise returns \<open>Inl\<close> of the exception. State changed before an exception is not
    observed, except where the caller catches it and goes on: running out of blocks in \<open>alloc\<close> is a
    value (\<open>OutOfBlocks\<close>) with the state it leaves, and the hash arrays are restored explicitly.
  \<^item> Python integers are \<open>int\<close>. Tokens and lengths stored in numpy arrays are taken to fit their
    type; where the code narrows a value (the 32-bit tokens of the keys, the signed 64-bit hashes)
    the narrowing is written out. Fresh memory (\<open>np.empty\<close>) is an arbitrary function.
  \<^item> Dictionaries are association lists in insertion order, sets whose order is not observed are HOL
    sets, objects with identity are ids into a store: a block is its id, and the contexts shared by
    queues, batches and the pipeline are kept by request id.
  \<^item> Floats (occupancy, percentages, times) are exact rationals. Replica indices are naturals; one
    out of range raises.
  \<^item> Parameters stand for code outside the repository or outside Python: the hash functions, the
    grammar compiler and matcher, the connector of an external tier, the weights of an adapter, and
    the pipeline. For the pipeline the invariant needs \<open>pipeline_keeps\<close>: executing a batch may
    change contexts and commit blocks, but claims and releases no request and keeps request ids.

  \<^bold>\<open>Loops.\<close> The storage growth of the token buffer is a \<open>partial_function\<close> proved to return for
  every well-formed buffer. All other loops are structural folds or recursions over the list they
  consume, so no fuel is used; the admission loop pops its queue, and the preemption loop its
  candidates.

  \<^bold>\<open>Limits.\<close> The ownership invariant is proved without data-parallel padding (its dummy contexts are
  claimed outside the queues); the batch-size bound includes it. Page and block sizes are positive.
  Liveness is stated for one step of the planner or of the polling, since fairness of the devices is
  outside the model.

  \<^bold>\<open>Not modelled.\<close> Logging, tracing and metrics, which do not affect requests. The graph API, layers,
  kernels and architectures (\<open>nn\<close>, \<open>graph\<close>, \<open>pipelines/architectures\<close>, \<open>experimental\<close>), which
  build programs for a compiler that is not in the repository. Device buffers and copies, beyond
  their sizes. The overlap pipeline's tensor code, the HTTP front end, the decode, prefill and
  embedding schedulers (they rest on the transfer engine or have no queues of their own), and the
  host, disk and remote connectors, which rest on native extensions and enter as any implementation
  of the protocol.
\<close>

end
